(* ===== verification/Prelude.thy ===== *)
theory Prelude
  imports Main "HOL-Library.Word"
begin

text \<open>
  What every other theory of the development shares.

  \<^item> \<open>error\<close> and \<open>res\<close>: the ways a run of the C++ code stops, and the
    result type of an operation that may stop. \<open>AssertFailed\<close> is a failed
    \<open>assert\<close>, \<open>FatalLog\<close> is glog's \<open>LOG(FATAL)\<close> (it aborts the process),
    \<open>LengthError\<close> is the \<open>std::length_error\<close> that \<open>vector::resize\<close> throws,
    \<open>OutOfBounds\<close> is an access outside an object and \<open>NullDeref\<close> the use of an
    empty pointer or of an empty \<open>std::function\<close>, \<open>NoReturn\<close> the end of a
    non-void function without a return: these are undefined behaviour of
    the code, which the model makes visible.
  \<^item> \<open>bind_res\<close>, \<open>assert_res\<close>: sequencing and checks.
  \<^item> \<open>size_t\<close> as \<open>64 word\<close>, with the lemmas that move a sum or a difference
    without wrap-around to \<open>nat\<close> (collection \<open>size_simps\<close>).
  \<^item> \<open>splice\<close>: overwriting a segment of a list, the effect of \<open>std::copy\<close> and
    \<open>memcpy\<close> into a vector.
  \<^item> the locale \<open>machine\<close>: a component whose operations keep an invariant, with
    the lemma that every run keeps it; the locale \<open>simulation\<close>: operations that
    implement an abstract specification, with the lemma that every run does.
\<close>

named_theorems res_simps "evaluation of the result type"
named_theorems size_simps "size_t values without wrap-around"

section \<open>Results and errors\<close>

datatype error = AssertFailed | FatalLog | LengthError | OutOfBounds | NullDeref | NoReturn

type_synonym 'a res = "error + 'a"

definition bind_res :: "'a res \<Rightarrow> ('a \<Rightarrow> 'b res) \<Rightarrow> 'b res" where
  "bind_res m k = (case m of Inl e \<Rightarrow> Inl e | Inr a \<Rightarrow> k a)"

definition assert_res :: "bool \<Rightarrow> unit res" where
  "assert_res c = (if c then Inr () else Inl AssertFailed)"

lemma bind_res_Inr [simp, res_simps]: "bind_res (Inr a) k = k a"
  and bind_res_Inl [simp, res_simps]: "bind_res (Inl e) k = Inl e"
  by (simp_all add: bind_res_def)

lemma assert_res_True [simp, res_simps]: "assert_res True = Inr ()"
  and assert_res_False [simp, res_simps]: "assert_res False = Inl AssertFailed"
  by (simp_all add: assert_res_def)

lemma assert_res_eq_Inr [simp]: "assert_res c = Inr u \<longleftrightarrow> c"
  by (simp add: assert_res_def)

lemma bind_res_eq_Inr:
  "bind_res m k = Inr b \<longleftrightarrow> (\<exists>a. m = Inr a \<and> k a = Inr b)"
  by (cases m) auto

lemma bind_res_InrE:
  assumes "bind_res m k = Inr b"
  obtains a where "m = Inr a" and "k a = Inr b"
  using assms by (auto simp: bind_res_eq_Inr)

lemma bind_assert_eq_Inr:
  "bind_res (assert_res c) k = Inr b \<longleftrightarrow> c \<and> k () = Inr b"
  by (auto simp: bind_res_eq_Inr)

lemma bind_res_assoc:
  "bind_res (bind_res m f) g = bind_res m (\<lambda>x. bind_res (f x) g)"
  by (cases m) simp_all

lemma bind_res_cong [fundef_cong]:
  "m = m' \<Longrightarrow> (\<And>a. m' = Inr a \<Longrightarrow> k a = k' a) \<Longrightarrow> bind_res m k = bind_res m' k'"
  by (cases m') simp_all

text \<open>Running a list of operations stops at the first error.\<close>

fun run_res :: "('e \<Rightarrow> 's \<Rightarrow> 's res) \<Rightarrow> 'e list \<Rightarrow> 's \<Rightarrow> 's res" where
  "run_res f [] s = Inr s"
| "run_res f (e # es) s = bind_res (f e s) (run_res f es)"

lemma run_res_append:
  "run_res f (xs @ ys) s = bind_res (run_res f xs s) (run_res f ys)"
proof (induction xs arbitrary: s)
  case Nil
  then show ?case by simp
next
  case (Cons x xs)
  then show ?case by (cases "f x s") simp_all
qed

text \<open>Operations whose arguments are checked first; the check changes nothing where it holds.\<close>

definition checked :: "('e \<Rightarrow> bool) \<Rightarrow> ('e \<Rightarrow> 's \<Rightarrow> 's res) \<Rightarrow> 'e \<Rightarrow> 's \<Rightarrow> 's res" where
  "checked ok f e s = bind_res (assert_res (ok e)) (\<lambda>_. f e s)"

lemma checked_Inr: "checked ok f e s = Inr t \<longleftrightarrow> ok e \<and> f e s = Inr t"
  by (simp add: checked_def bind_assert_eq_Inr)

lemma run_checked: "\<forall>e \<in> set es. ok e \<Longrightarrow> run_res (checked ok f) es s = run_res f es s"
proof (induction es arbitrary: s)
  case Nil
  then show ?case by simp
next
  case (Cons e es)
  then show ?case by (cases "f e s") (simp_all add: checked_def)
qed

section \<open>Operations that keep an invariant\<close>

locale machine =
  fixes step :: "'e \<Rightarrow> 's \<Rightarrow> 's res"
    and inv :: "'s \<Rightarrow> bool"
  assumes step_inv: "inv s \<Longrightarrow> step e s = Inr t \<Longrightarrow> inv t"
begin

lemma run_inv: "inv s \<Longrightarrow> run_res step es s = Inr t \<Longrightarrow> inv t"
proof (induction es arbitrary: s)
  case Nil
  then show ?case by simp
next
  case (Cons e es)
  from Cons.prems(2) obtain u where u: "step e s = Inr u" and t: "run_res step es u = Inr t"
    by (auto elim: bind_res_InrE)
  from Cons.prems(1) u have "inv u" by (rule step_inv)
  from this t show ?case by (rule Cons.IH)
qed

end

section \<open>Refinement of an abstract specification\<close>

text \<open>
  The abstract operation is partial: \<open>None\<close> where the client breaks the contract. Where
  it is defined the code's operation returns, in a related state.
\<close>

fun run_opt :: "('e \<Rightarrow> 'a \<Rightarrow> 'a option) \<Rightarrow> 'e list \<Rightarrow> 'a \<Rightarrow> 'a option" where
  "run_opt f [] a = Some a"
| "run_opt f (e # es) a = Option.bind (f e a) (run_opt f es)"

locale simulation =
  fixes step :: "'e \<Rightarrow> 's \<Rightarrow> 's res"
    and spec :: "'e \<Rightarrow> 'a \<Rightarrow> 'a option"
    and rel :: "'s \<Rightarrow> 'a \<Rightarrow> bool"
  assumes sim: "rel s a \<Longrightarrow> spec e a = Some a' \<Longrightarrow> \<exists>t. step e s = Inr t \<and> rel t a'"
begin

lemma run_sim:
  "rel s a \<Longrightarrow> run_opt spec es a = Some a' \<Longrightarrow> \<exists>t. run_res step es s = Inr t \<and> rel t a'"
proof (induction es arbitrary: s a)
  case Nil
  then show ?case by simp
next
  case (Cons e es)
  from Cons.prems(2) obtain a1 where a1: "spec e a = Some a1" and rest: "run_opt spec es a1 = Some a'"
    by (auto simp: bind_eq_Some_conv)
  from sim [OF Cons.prems(1) a1] obtain t1 where t1: "step e s = Inr t1" and "rel t1 a1"
    by blast
  from Cons.IH [OF this(2) rest] t1 show ?case by simp
qed

end

section \<open>size_t\<close>

type_synonym byte = "8 word"
type_synonym size_t = "64 word"

lemma unat_sub_size [size_simps]: "b \<le> a \<Longrightarrow> unat (a - b) = unat a - unat (b :: size_t)"
  by (rule unat_sub)

lemma unat_add_size [size_simps]:
  "unat a + unat (b :: size_t) < 2 ^ 64 \<Longrightarrow> unat (a + b) = unat a + unat b"
  using unat_add_lem [of a b] by simp

lemma unat_add_le: "unat (a + b :: size_t) \<le> unat a + unat b"
  by (simp add: unat_word_ariths(1))

lemma unat_of_nat_size [size_simps]: "n < 2 ^ 64 \<Longrightarrow> unat (of_nat n :: size_t) = n"
  by (simp add: unat_of_nat)

lemma le_size_iff [size_simps]: "a \<le> b \<longleftrightarrow> unat a \<le> unat (b :: size_t)"
  by (rule word_le_nat_alt)

lemma less_size_iff [size_simps]: "a < b \<longleftrightarrow> unat a < unat (b :: size_t)"
  by (rule word_less_nat_alt)

lemma unat_size_lt: "unat (a :: size_t) < 2 ^ 64"
  using unsigned_less [of a, where 'a = nat] by simp

section \<open>Segments of lists\<close>

definition splice :: "nat \<Rightarrow> 'a list \<Rightarrow> 'a list \<Rightarrow> 'a list" where
  "splice i xs v = take i v @ xs @ drop (i + length xs) v"

lemma length_splice [simp]:
  "i + length xs \<le> length v \<Longrightarrow> length (splice i xs v) = length v"
  by (simp add: splice_def)

lemma splice_Nil [simp]: "splice i [] v = v"
  by (simp add: splice_def)

lemma take_splice: "j \<le> i \<Longrightarrow> i \<le> length v \<Longrightarrow> take j (splice i xs v) = take j v"
  by (simp add: splice_def min_absorb1)

lemma take_splice_end:
  "i \<le> length v \<Longrightarrow> take (i + length xs) (splice i xs v) = take i v @ xs"
  by (simp add: splice_def)

lemma drop_splice_end:
  "i \<le> length v \<Longrightarrow> drop (i + length xs) (splice i xs v) = drop (i + length xs) v"
  by (simp add: splice_def)

lemma drop_splice_start:
  "i \<le> length v \<Longrightarrow> drop i (splice i xs v) = xs @ drop (i + length xs) v"
  by (simp add: splice_def)

lemma take_drop_take: "take n (drop m (take k v)) = take (min n (k - m)) (drop m v)"
  by (simp add: drop_take)

end
