(* ===== verification/EventLoop.thy ===== *)
theory EventLoop
  imports Prelude
begin

text \<open>
  class EventLoop (network/include/network/EventLoop.h, network/src/EventLoop.cc): the
  object, the thread check, the queue of functors and the loop.

  \<^item> \<open>event_loop\<close> is the object. A functor is a value of the type parameter; what running
    it does is an argument \<open>exec\<close> of the operations that run functors. The record is
    extensible, so a component whose functors act on more than the loop (a connection)
    extends it. Threads are named by their \<open>pid_t\<close>; \<open>tid\<close> is the calling thread.
  \<^item> A \<open>Channel*\<close> is a number. The eventfd is the number of \<open>write\<close> calls
    made on it since it was last read.
  \<^item> In the source the calls to \<open>Poller_\<close> are commented out; they are absent here too.
  \<^item> \<open>assertInLoopThread\<close> is translated as written: it aborts when the caller \<^emph>\<open>is\<close> the
    loop's thread.
  \<^item> The last part is the interleaving of the loop's thread with threads that queue
    functors or call quit, as a step relation (each mutex-protected section is a step).

  The constructor and destructor need the wakeup channel and are in theory Channel.
\<close>

section \<open>The object\<close>

type_synonym pid = int
type_synonym loop_ptr = nat
type_synonym channel_ptr = nat

record 'f event_loop =
  loop_this :: loop_ptr
  looping :: bool
  quit_flag :: bool
  eventHanding :: bool
  callingPendingFunctors :: bool
  iteration :: "64 word"
  threadPid :: pid
  wakeup_writes :: nat
  pendingFunctors :: "'f list"
  currentActiveChannel :: "channel_ptr option"
  activeChannels :: "channel_ptr list"

definition isInloopthread :: "pid \<Rightarrow> ('f, 'w) event_loop_scheme \<Rightarrow> bool" where
  "isInloopthread tid l \<longleftrightarrow> threadPid l = tid"

definition AortNotInLoopThread :: "unit res" where
  "AortNotInLoopThread = Inl FatalLog"

definition assertInLoopThread :: "pid \<Rightarrow> ('f, 'w) event_loop_scheme \<Rightarrow> unit res" where
  "assertInLoopThread tid l = (if isInloopthread tid l then AortNotInLoopThread else Inr ())"

lemma assertInLoopThread_ok [simp]:
  "assertInLoopThread tid l = Inr u \<longleftrightarrow> threadPid l \<noteq> tid"
  by (simp add: assertInLoopThread_def isInloopthread_def AortNotInLoopThread_def)

lemma assertInLoopThread_abort:
  "threadPid l = tid \<Longrightarrow> assertInLoopThread tid l = Inl FatalLog"
  by (simp add: assertInLoopThread_def isInloopthread_def AortNotInLoopThread_def)

lemma assertInLoopThread_pass:
  "threadPid l \<noteq> tid \<Longrightarrow> assertInLoopThread tid l = Inr ()"
  by simp

section \<open>Queueing\<close>

definition wakeup :: "('f, 'w) event_loop_scheme \<Rightarrow> ('f, 'w) event_loop_scheme" where
  "wakeup l = l\<lparr>wakeup_writes := wakeup_writes l + 1\<rparr>"

text \<open>
  The read callback of the wakeup channel: reading an eventfd takes its whole count, and reading
  one whose count is 0 fails, which is only logged.
\<close>

definition handleRead_wakeup :: "('f, 'w) event_loop_scheme \<Rightarrow> ('f, 'w) event_loop_scheme" where
  "handleRead_wakeup l = l\<lparr>wakeup_writes := 0\<rparr>"

definition quit :: "pid \<Rightarrow> ('f, 'w) event_loop_scheme \<Rightarrow> ('f, 'w) event_loop_scheme" where
  "quit tid l =
     (let l1 = l\<lparr>quit_flag := True\<rparr> in if \<not> isInloopthread tid l1 then wakeup l1 else l1)"

definition queueInLoop ::
  "pid \<Rightarrow> 'f \<Rightarrow> ('f, 'w) event_loop_scheme \<Rightarrow> ('f, 'w) event_loop_scheme" where
  "queueInLoop tid cb l =
     (let l1 = l\<lparr>pendingFunctors := pendingFunctors l @ [cb]\<rparr> in
      if \<not> isInloopthread tid l1 \<or> callingPendingFunctors l1 then wakeup l1 else l1)"

definition runInLoop ::
  "pid \<Rightarrow> ('f \<Rightarrow> ('f, 'w) event_loop_scheme \<Rightarrow> ('f, 'w) event_loop_scheme res) \<Rightarrow> 'f \<Rightarrow>
   ('f, 'w) event_loop_scheme \<Rightarrow> ('f, 'w) event_loop_scheme res" where
  "runInLoop tid exec cb l =
     (if isInloopthread tid l then exec cb l else Inr (queueInLoop tid cb l))"

definition queueSize :: "('f, 'w) event_loop_scheme \<Rightarrow> 64 word" where
  "queueSize l = of_nat (length (pendingFunctors l))"

section \<open>The channel operations\<close>

definition updateChannel :: "pid \<Rightarrow> loop_ptr \<Rightarrow> ('f, 'w) event_loop_scheme \<Rightarrow> unit res" where
  "updateChannel tid owner l =
     bind_res (assert_res (owner = loop_this l)) (\<lambda>_. assertInLoopThread tid l)"

definition removeChannel ::
  "pid \<Rightarrow> loop_ptr \<Rightarrow> channel_ptr \<Rightarrow> ('f, 'w) event_loop_scheme \<Rightarrow> unit res" where
  "removeChannel tid owner ch l =
     bind_res (assert_res (owner = loop_this l)) (\<lambda>_.
     bind_res (assertInLoopThread tid l) (\<lambda>_.
     if eventHanding l
     then assert_res (currentActiveChannel l = Some ch \<or> ch \<notin> set (activeChannels l))
     else Inr ()))"

definition hasChannel :: "pid \<Rightarrow> loop_ptr \<Rightarrow> ('f, 'w) event_loop_scheme \<Rightarrow> bool res" where
  "hasChannel tid owner l =
     bind_res (assert_res (owner = loop_this l)) (\<lambda>_.
     bind_res (assertInLoopThread tid l) (\<lambda>_. Inl NoReturn))"

section \<open>The loop\<close>

definition dopendingFunctors ::
  "('f \<Rightarrow> ('f, 'w) event_loop_scheme \<Rightarrow> ('f, 'w) event_loop_scheme res) \<Rightarrow>
   ('f, 'w) event_loop_scheme \<Rightarrow> ('f, 'w) event_loop_scheme res" where
  "dopendingFunctors exec l =
     (let l1 = l\<lparr>callingPendingFunctors := True\<rparr>;
          functors = pendingFunctors l1;
          l2 = l1\<lparr>pendingFunctors := []\<rparr> in
      bind_res (run_res exec functors l2) (\<lambda>l3. Inr (l3\<lparr>callingPendingFunctors := False\<rparr>)))"

text \<open>One turn of the \<open>while\<close>; \<open>handle\<close> is \<open>Channel::handleEvent\<close> on a channel.\<close>

definition loop_iteration ::
  "(channel_ptr \<Rightarrow> ('f, 'w) event_loop_scheme \<Rightarrow> ('f, 'w) event_loop_scheme res) \<Rightarrow>
   ('f \<Rightarrow> ('f, 'w) event_loop_scheme \<Rightarrow> ('f, 'w) event_loop_scheme res) \<Rightarrow>
   ('f, 'w) event_loop_scheme \<Rightarrow> ('f, 'w) event_loop_scheme res" where
  "loop_iteration handle exec l =
     (let l1 = l\<lparr>activeChannels := []\<rparr>;
          l2 = l1\<lparr>iteration := iteration l1 + 1, eventHanding := True\<rparr> in
      bind_res (run_res (\<lambda>p s. handle p (s\<lparr>currentActiveChannel := Some p\<rparr>)) (activeChannels l2) l2)
        (\<lambda>l3. dopendingFunctors exec
                (l3\<lparr>currentActiveChannel := None, eventHanding := False\<rparr>)))"

text \<open>
  The \<open>while\<close> need not end, so its result is an option: \<open>None\<close> is "does not return".
\<close>

partial_function (option) loop_while ::
  "(('f, 'w) event_loop_scheme \<Rightarrow> ('f, 'w) event_loop_scheme res) \<Rightarrow>
   ('f, 'w) event_loop_scheme \<Rightarrow> ('f, 'w) event_loop_scheme res option" where
  "loop_while turn l =
     (if quit_flag l then Some (Inr l)
      else case turn l of Inl e \<Rightarrow> Some (Inl e) | Inr l' \<Rightarrow> loop_while turn l')"

definition loop_body ::
  "pid \<Rightarrow> (channel_ptr \<Rightarrow> ('f, 'w) event_loop_scheme \<Rightarrow> ('f, 'w) event_loop_scheme res) \<Rightarrow>
   ('f \<Rightarrow> ('f, 'w) event_loop_scheme \<Rightarrow> ('f, 'w) event_loop_scheme res) \<Rightarrow>
   ('f, 'w) event_loop_scheme \<Rightarrow> ('f, 'w) event_loop_scheme res option" where
  "loop_body tid handle exec l =
     (case bind_res (assert_res (\<not> looping l)) (\<lambda>_. assertInLoopThread tid l) of
        Inl e \<Rightarrow> Some (Inl e)
      | Inr _ \<Rightarrow>
          map_option (\<lambda>r. bind_res r (\<lambda>l'. Inr (l'\<lparr>looping := False\<rparr>)))
            (loop_while (loop_iteration handle exec)
              (l\<lparr>looping := True, quit_flag := False\<rparr>)))"

lemma queueInLoop_simps [simp]:
  "pendingFunctors (queueInLoop tid cb l) = pendingFunctors l @ [cb]"
  "threadPid (queueInLoop tid cb l) = threadPid l"
  "callingPendingFunctors (queueInLoop tid cb l) = callingPendingFunctors l"
  "loop_this (queueInLoop tid cb l) = loop_this l"
  "quit_flag (queueInLoop tid cb l) = quit_flag l"
  by (simp_all add: queueInLoop_def wakeup_def Let_def)

lemma wakeup_writes_queueInLoop:
  "wakeup_writes (queueInLoop tid cb l) =
     wakeup_writes l + (if threadPid l \<noteq> tid \<or> callingPendingFunctors l then 1 else 0)"
  by (simp add: queueInLoop_def wakeup_def isInloopthread_def Let_def)

lemma quit_simps [simp]:
  "quit_flag (quit tid l)" "pendingFunctors (quit tid l) = pendingFunctors l"
  "threadPid (quit tid l) = threadPid l"
  "callingPendingFunctors (quit tid l) = callingPendingFunctors l"
  by (simp_all add: quit_def wakeup_def Let_def)

lemma loop_iteration_no_channels:
  "loop_iteration handle exec l =
     dopendingFunctors exec
       (l\<lparr>activeChannels := [], iteration := iteration l + 1, currentActiveChannel := None,
          eventHanding := False\<rparr>)"
  by (simp add: loop_iteration_def Let_def)

text \<open>A set of states that the turn never leaves and where quit is not raised: no return.\<close>

lemma loop_while_never:
  assumes ret: "loop_while turn m = Some r"
    and closed: "\<And>s. P s \<Longrightarrow> \<not> quit_flag s \<and> (\<exists>s'. turn s = Inr s' \<and> P s')"
  shows "\<not> P m"
proof -
  have "t = turn \<longrightarrow> \<not> P m" if "loop_while t m = Some r" for t m r
  proof (rule loop_while.raw_induct [where P = "\<lambda>t m r. t = turn \<longrightarrow> \<not> P m", OF _ that])
    fix f t m r
    assume IH: "\<And>t m r. f t m = Some r \<Longrightarrow> t = turn \<longrightarrow> \<not> P m"
      and eq: "(if quit_flag m then Some (Inr m)
        else case t m of Inl e \<Rightarrow> Some (Inl e) | Inr l' \<Rightarrow> f t l') = Some r"
    show "t = turn \<longrightarrow> \<not> P m"
    proof (intro impI notI)
      assume t: "t = turn" and "P m"
      with closed [of m] eq obtain m' where "f t m' = Some r" and "P m'" by auto
      with IH t show False by blast
    qed
  qed
  with ret show ?thesis by blast
qed

text \<open>Running the batch: what a functor posts stays out of the batch.\<close>

lemma run_batch:
  assumes "\<And>f l. exec f l = Inr (fold (queueInLoop tid) (posts f) (act f l))"
    and "\<And>f l. pendingFunctors (act f l) = pendingFunctors l"
  shows "\<exists>l'. run_res exec fs l = Inr l' \<and>
    pendingFunctors l' = pendingFunctors l @ concat (map posts fs)"
proof (induction fs arbitrary: l)
  case Nil
  then show ?case by simp
next
  case (Cons f fs)
  have fold: "pendingFunctors (fold (queueInLoop tid) gs m) = pendingFunctors m @ gs" for gs m
    by (induction gs arbitrary: m) simp_all
  from Cons [of "fold (queueInLoop tid) (posts f) (act f l)"] show ?case
    by (auto simp: assms fold)
qed

section \<open>Interleaving with other threads\<close>

text \<open>
  The loop's thread is between two turns, running the batch it swapped out, or has left
  the loop. Other threads queue functors or call quit at any point; both touch the
  shared fields only in one atomic or mutex-protected section. \<open>body f\<close> says what the
  functor does to the loop when it runs: the functors it queues and whether it quits.
  \<open>posted\<close> and \<open>executed\<close> record the functors ever queued and ever run, in order.
\<close>

datatype 'f pc = Polling | Running "'f list" | Stopped

record 'f sched = "'f event_loop" +
  pc :: "'f pc"
  posted :: "'f list"
  executed :: "'f list"

definition post_all :: "pid \<Rightarrow> 'f list \<Rightarrow> 'f sched \<Rightarrow> 'f sched" where
  "post_all tid fs s = (fold (queueInLoop tid) fs s)\<lparr>posted := posted s @ fs\<rparr>"

inductive sched_step :: "('f \<Rightarrow> 'f list \<times> bool) \<Rightarrow> 'f sched \<Rightarrow> 'f sched \<Rightarrow> bool" for body where
  other_queue: "tid \<noteq> threadPid s \<Longrightarrow> sched_step body s (post_all tid [f] s)"
| other_quit: "tid \<noteq> threadPid s \<Longrightarrow> sched_step body s (quit tid s)"
| swap: "pc s = Polling \<Longrightarrow> \<not> quit_flag s \<Longrightarrow>
    sched_step body s (s\<lparr>activeChannels := [], iteration := iteration s + 1,
      callingPendingFunctors := True, pendingFunctors := [], pc := Running (pendingFunctors s)\<rparr>)"
| run: "pc s = Running (f # fs) \<Longrightarrow> body f = (gs, quits) \<Longrightarrow>
    sched_step body s
      ((if quits then quit (threadPid s) (post_all (threadPid s) gs s)
        else post_all (threadPid s) gs s)\<lparr>pc := Running fs, executed := executed s @ [f]\<rparr>)"
| finish: "pc s = Running [] \<Longrightarrow>
    sched_step body s (s\<lparr>callingPendingFunctors := False, pc := Polling\<rparr>)"
| stop: "pc s = Polling \<Longrightarrow> quit_flag s \<Longrightarrow>
    sched_step body s (s\<lparr>looping := False, pc := Stopped\<rparr>)"

inductive_cases sched_stepE: "sched_step body s t"
inductive_simps sched_step_stopped: "sched_step body (s\<lparr>pc := Stopped\<rparr>) t"

definition sched_init :: "'f sched \<Rightarrow> bool" where
  "sched_init s \<longleftrightarrow> pc s = Polling \<and> \<not> callingPendingFunctors s \<and> posted s = pendingFunctors s \<and>
     executed s = []"

inductive sched_reach :: "('f \<Rightarrow> 'f list \<times> bool) \<Rightarrow> 'f sched \<Rightarrow> 'f sched \<Rightarrow> bool" for body s0 where
  start: "sched_init s0 \<Longrightarrow> sched_reach body s0 s0"
| step: "sched_reach body s0 s \<Longrightarrow> sched_step body s t \<Longrightarrow> sched_reach body s0 t"

fun in_batch :: "'f pc \<Rightarrow> 'f list" where
  "in_batch (Running fs) = fs"
| "in_batch _ = []"

definition sched_inv :: "'f sched \<Rightarrow> 'f sched \<Rightarrow> bool" where
  "sched_inv s0 s \<longleftrightarrow>
     posted s = executed s @ in_batch (pc s) @ pendingFunctors s \<and>
     (callingPendingFunctors s \<longleftrightarrow> (\<exists>fs. pc s = Running fs)) \<and>
     wakeup_writes s0 + length (posted s) \<le> wakeup_writes s + length (posted s0)"

lemma queueInLoop_sched [simp]:
  "pc (queueInLoop tid f s) = pc s" "executed (queueInLoop tid f s) = executed s"
  "posted (queueInLoop tid f s) = posted s"
  by (simp_all add: queueInLoop_def wakeup_def Let_def)

lemma quit_sched [simp]:
  "pc (quit tid s) = pc s" "executed (quit tid s) = executed s" "posted (quit tid s) = posted s"
  by (simp_all add: quit_def wakeup_def Let_def)

lemma wakeup_writes_quit: "wakeup_writes s \<le> wakeup_writes (quit tid s)"
  by (simp add: quit_def wakeup_def Let_def)

lemma fold_queueInLoop [simp]:
  "pc (fold (queueInLoop tid) fs s) = pc s"
  "executed (fold (queueInLoop tid) fs s) = executed s"
  "callingPendingFunctors (fold (queueInLoop tid) fs s) = callingPendingFunctors s"
  "threadPid (fold (queueInLoop tid) fs s) = threadPid s"
  "pendingFunctors (fold (queueInLoop tid) fs s) = pendingFunctors s @ fs"
  by (induction fs arbitrary: s) simp_all

lemma post_all_simps [simp]:
  "pc (post_all tid fs s) = pc s" "executed (post_all tid fs s) = executed s"
  "callingPendingFunctors (post_all tid fs s) = callingPendingFunctors s"
  "threadPid (post_all tid fs s) = threadPid s"
  "pendingFunctors (post_all tid fs s) = pendingFunctors s @ fs"
  "posted (post_all tid fs s) = posted s @ fs"
  by (simp_all add: post_all_def)

lemma wakeup_writes_post_all:
  assumes "threadPid s \<noteq> tid \<or> callingPendingFunctors s"
  shows "wakeup_writes (post_all tid fs s) = wakeup_writes s + length fs"
proof -
  from assms have "wakeup_writes (fold (queueInLoop tid) fs s) = wakeup_writes s + length fs"
    by (induction fs arbitrary: s) (auto simp: wakeup_writes_queueInLoop)
  then show ?thesis by (simp add: post_all_def)
qed

lemma sched_step_inv: "sched_step body s t \<Longrightarrow> sched_inv s0 s \<Longrightarrow> sched_inv s0 t"
proof (induction rule: sched_step.induct)
  case (other_quit tid s)
  then show ?case using wakeup_writes_quit [of s tid] by (auto simp: sched_inv_def)
next
  case (run s f fs gs quits)
  then have calling: "callingPendingFunctors s" by (auto simp: sched_inv_def)
  then have w: "wakeup_writes (post_all (threadPid s) gs s) = wakeup_writes s + length gs"
    by (simp add: wakeup_writes_post_all)
  show ?case
    using run calling w wakeup_writes_quit [of "post_all (threadPid s) gs s" "threadPid s"]
    by (cases quits) (auto simp: sched_inv_def)
qed (auto simp: sched_inv_def wakeup_writes_post_all)

lemma sched_reach_inv: "sched_reach body s0 s \<Longrightarrow> sched_inv s0 s"
proof (induction rule: sched_reach.induct)
  case start
  then show ?case by (simp add: sched_inv_def sched_init_def)
next
  case (step s t)
  then show ?case by (blast intro: sched_step_inv)
qed

section \<open>Properties\<close>

text \<open>C6: Functors queued from any threads, before and while the loop runs and by functors
  themselves, are run exactly once and in the order in which they were queued: in every
  reachable state of the interleaving the functors ever queued are those already run,
  followed by the rest of the batch being run, followed by the pending ones.\<close>

theorem functors_fifo_exactly_once:
  assumes "sched_reach body s0 s"
  shows "posted s = executed s @ in_batch (pc s) @ pendingFunctors s"
  using sched_reach_inv [OF assms] by (simp add: sched_inv_def)

definition sample_sched :: "nat sched" where
  "sample_sched = \<lparr>loop_this = 0, looping = True, quit_flag = False, eventHanding = False,
     callingPendingFunctors = False, iteration = 0, threadPid = 7, wakeup_writes = 0,
     pendingFunctors = [], currentActiveChannel = None, activeChannels = [],
     pc = Polling, posted = [], executed = []\<rparr>"

lemma sample_sched_reach:
  "sched_reach (\<lambda>n. (if n = 1 then [2] else [], False)) sample_sched (post_all 8 [1] sample_sched)"
proof (rule sched_reach.step [OF sched_reach.start])
  show "sched_init sample_sched" by (simp add: sched_init_def sample_sched_def)
  show "sched_step (\<lambda>n. (if n = 1 then [2] else [], False)) sample_sched (post_all 8 [1] sample_sched)"
    by (rule other_queue) (simp add: sample_sched_def)
qed

lemma functors_fifo_exactly_once_witness:
  "posted (post_all 8 [1] sample_sched) = [1] \<and>
   posted (post_all 8 [1] sample_sched) = executed (post_all 8 [1] sample_sched) @
     in_batch (pc (post_all 8 [1] sample_sched)) @ pendingFunctors (post_all 8 [1] sample_sched)"
  using functors_fifo_exactly_once [OF sample_sched_reach] by (simp add: sample_sched_def)



text \<open>A batch is a snapshot: doPendingFunctors runs exactly the functors that were pending
  when it was entered, in order, and what those functors queue (here: the functors
  \<open>posts f\<close> queued by \<open>f\<close>) is left pending, in order, for the next turn; the flag that
  makes a functor's own queueing wake the loop is reset at the end.\<close>

theorem pending_batch_is_snapshot:
  assumes "\<And>f l. exec f l = Inr (fold (queueInLoop tid) (posts f) (act f l))"
    and "\<And>f l. pendingFunctors (act f l) = pendingFunctors l"
  shows "\<exists>l'. dopendingFunctors exec l = Inr l' \<and> \<not> callingPendingFunctors l' \<and>
    pendingFunctors l' = concat (map posts (pendingFunctors l))"
  using run_batch [of exec tid posts act "pendingFunctors l"
      "l\<lparr>callingPendingFunctors := True, pendingFunctors := []\<rparr>"] assms
  by (auto simp: dopendingFunctors_def Let_def)

definition sample_loop :: "nat event_loop" where
  "sample_loop = \<lparr>loop_this = 0, looping = False, quit_flag = False, eventHanding = False,
     callingPendingFunctors = False, iteration = 0, threadPid = 7, wakeup_writes = 0,
     pendingFunctors = [3, 5], currentActiveChannel = None, activeChannels = []\<rparr>"

lemma pending_batch_is_snapshot_witness:
  "\<exists>l'. dopendingFunctors (\<lambda>f l. Inr (fold (queueInLoop 7) [f + 1, f] l)) sample_loop = Inr l' \<and>
    \<not> callingPendingFunctors l' \<and> pendingFunctors l' = [4, 3, 6, 5]"
  using pending_batch_is_snapshot [where tid = 7 and posts = "\<lambda>f. [f + 1, f]" and
      act = "\<lambda>f l. l" and exec = "\<lambda>f l. Inr (fold (queueInLoop 7) [f + 1, f] l)" and
      l = sample_loop]
  by (simp add: sample_loop_def)

text \<open>assertInLoopThread is inverted: it aborts the process exactly when it is called in the
  thread the loop belongs to. So loop() called in the loop's own thread, as the one loop per
  thread design does, aborts at once, before any event or functor is handled.\<close>

theorem loop_aborts_in_own_thread:
  assumes "\<not> looping l"
  shows "loop_body (threadPid l) handle exec l = Some (Inl FatalLog)"
  using assms by (simp add: loop_body_def assertInLoopThread_abort)

lemma loop_aborts_in_own_thread_witness:
  "loop_body 7 (\<lambda>p l. Inr l) (\<lambda>f l. Inr l) sample_loop = Some (Inl FatalLog)"
  using loop_aborts_in_own_thread [of sample_loop "\<lambda>p l. Inr l" "\<lambda>f l. Inr l"]
  by (simp add: sample_loop_def)

text \<open>The loop never dispatches an event: activeChannels_ is cleared and the call that would
  fill it is commented out, so the outcome of the whole loop does not depend on what
  handleEvent does.\<close>

theorem loop_never_dispatches:
  "loop_body tid handle exec l = loop_body tid handle' exec l"
proof -
  have same: "loop_iteration handle exec = loop_iteration handle' exec"
    by (rule ext) (simp add: loop_iteration_no_channels)
  show ?thesis unfolding loop_body_def same ..
qed

text \<open>loop() leaves after the turn in which a pending functor calls quit: called (with the
  guard passing) on a loop whose pending functors all succeed, leave a raised quit flag
  raised and one of which raises it, it returns after exactly one turn with looping_ reset.\<close>

theorem loop_returns_after_quit:
  assumes guard: "threadPid l \<noteq> tid" and idle: "\<not> looping l"
    and ok: "\<And>f m. exec f m = Inr (act f m)"
    and keep: "\<And>f m. quit_flag m \<Longrightarrow> quit_flag (act f m)"
    and iter: "\<And>f m. iteration (act f m) = iteration m"
    and quits: "g \<in> set (pendingFunctors l)" and "\<And>m. quit_flag (act g m)"
  shows "\<exists>l'. loop_body tid handle exec l = Some (Inr l') \<and> \<not> looping l' \<and>
    iteration l' = iteration l + 1"
proof -
  have run: "run_res exec fs m = Inr (fold act fs m)" for fs m
    by (induction fs arbitrary: m) (simp_all add: ok)
  have it: "iteration (fold act fs m) = iteration m" for fs m
    by (induction fs arbitrary: m) (simp_all add: iter)
  have stay: "quit_flag m \<Longrightarrow> quit_flag (fold act fs m)" for fs m
    by (induction fs arbitrary: m) (simp_all add: keep)
  have q: "g \<in> set fs \<Longrightarrow> quit_flag (fold act fs m)" for fs m
    by (induction fs arbitrary: m) (auto simp: assms(7) stay)
  let ?l0 = "l\<lparr>looping := True, quit_flag := False\<rparr>"
  obtain l1 where l1: "loop_iteration handle exec ?l0 = Inr l1" and "quit_flag l1"
      and "iteration l1 = iteration l + 1"
    using q [OF quits] by (simp add: loop_iteration_no_channels dopendingFunctors_def Let_def run it)
  moreover from \<open>quit_flag l1\<close> have "loop_while (loop_iteration handle exec) l1 = Some (Inr l1)"
    by (simp add: loop_while.simps)
  ultimately have "loop_while (loop_iteration handle exec) ?l0 = Some (Inr l1)"
    by (simp add: loop_while.simps [of _ ?l0])
  with guard idle \<open>iteration l1 = iteration l + 1\<close> show ?thesis
    by (simp add: loop_body_def assertInLoopThread_pass)
qed

lemma loop_returns_after_quit_witness:
  "\<exists>l'. loop_body 8 (\<lambda>p l. Inr l) (\<lambda>f l. Inr (if f = 5 then quit 8 l else l)) sample_loop =
     Some (Inr l') \<and> \<not> looping l' \<and> iteration l' = 1"
proof -
  have "\<exists>l'. loop_body 8 (\<lambda>p l. Inr l) (\<lambda>f l. Inr (if f = 5 then quit 8 l else l)) sample_loop =
      Some (Inr l') \<and> \<not> looping l' \<and> iteration l' = iteration sample_loop + 1"
    by (rule loop_returns_after_quit [where g = 5 and act = "\<lambda>f l. if f = 5 then quit 8 l else l"])
      (auto simp: sample_loop_def quit_def wakeup_def Let_def)
  then show ?thesis by (simp add: sample_loop_def)
qed

text \<open>A quit() that comes before loop() is lost: loop() clears the flag when it starts, and
  with nothing pending it then never returns, whatever thread called quit.\<close>

theorem early_quit_is_lost:
  assumes "threadPid l \<noteq> tid" and "\<not> looping l" and "pendingFunctors l = []"
  shows "loop_body tid handle exec (quit t l) = None"
proof -
  let ?turn = "loop_iteration handle exec"
  have turn: "?turn m = Inr m' \<Longrightarrow> \<not> quit_flag m' \<and> pendingFunctors m' = []"
      "\<exists>m'. ?turn m = Inr m'"
    if "\<not> quit_flag m" "pendingFunctors m = []" for m m'
    using that by (auto simp: loop_iteration_no_channels dopendingFunctors_def Let_def)
  have never: "quit_flag m \<or> pendingFunctors m \<noteq> []" if "loop_while ?turn m = Some r" for m r
    using loop_while_never [OF that, of "\<lambda>m. \<not> quit_flag m \<and> pendingFunctors m = []"] turn
    by blast
  have "loop_while ?turn ((quit t l)\<lparr>looping := True, quit_flag := False\<rparr>) = None"
    using never [of "(quit t l)\<lparr>looping := True, quit_flag := False\<rparr>"] assms(3)
    by (cases "loop_while ?turn ((quit t l)\<lparr>looping := True, quit_flag := False\<rparr>)") auto
  moreover have "threadPid (quit t l) \<noteq> tid" and "\<not> looping (quit t l)"
    using assms by (simp_all add: quit_def wakeup_def Let_def)
  ultimately show ?thesis by (simp add: loop_body_def assertInLoopThread_pass)
qed

lemma early_quit_is_lost_witness:
  "loop_body 8 (\<lambda>p l. Inr l) (\<lambda>f l. Inr l) (quit 9 (sample_loop\<lparr>pendingFunctors := []\<rparr>)) = None"
  by (rule early_quit_is_lost) (simp_all add: sample_loop_def)

end
