(* ===== verification/LoopTurns.thy ===== *)
theory LoopTurns
  imports EventLoop "HOL-Library.Sublist"
begin

text \<open>
  How long a functor waits in the queue of an EventLoop (network/src/EventLoop.cc): runs of the
  interleaving of theory EventLoop with the number of turns of the loop that begin in them.
\<close>

section \<open>Runs with their turns\<close>

text \<open>A turn begins where the loop swaps the pending functors out.\<close>

definition begins_turn :: "'f sched \<Rightarrow> 'f sched \<Rightarrow> bool" where
  "begins_turn s t \<longleftrightarrow> pc s = Polling \<and> pc t \<noteq> Polling \<and> pc t \<noteq> Stopped"

inductive turns :: "('f \<Rightarrow> 'f list \<times> bool) \<Rightarrow> 'f sched \<Rightarrow> nat \<Rightarrow> 'f sched \<Rightarrow> bool" for body s0 where
  none: "turns body s0 0 s0"
| inside: "turns body s0 n s \<Longrightarrow> sched_step body s t \<Longrightarrow> \<not> begins_turn s t \<Longrightarrow> turns body s0 n t"
| turn: "turns body s0 n s \<Longrightarrow> sched_step body s t \<Longrightarrow> begins_turn s t \<Longrightarrow> turns body s0 (Suc n) t"

lemma turns_inv: "turns body s n t \<Longrightarrow> sched_inv s0 s \<Longrightarrow> sched_inv s0 t"
  by (induction rule: turns.induct) (auto intro: sched_step_inv)

text \<open>What a step does to the functors run and to those about to run.\<close>

lemma sched_step_batch:
  assumes "sched_step body s t"
  shows "prefix (executed s) (executed t)"
    and "prefix (executed s @ in_batch (pc s)) (executed t @ in_batch (pc t))"
    and "prefix (posted s) (posted t)"
    and "begins_turn s t \<Longrightarrow> executed t @ in_batch (pc t) = executed s @ pendingFunctors s \<and> in_batch (pc s) = []"
  using assms
  by (induction rule: sched_step.induct) (auto simp: begins_turn_def post_all_def)

text \<open>
  With no turn yet nothing is promised; after one turn the functors are in the batch or run, after
  two they have been run.
\<close>

lemma turns_progress:
  assumes "turns body s n t" and "sched_inv s0 s"
  shows "prefix (posted s) (posted t)"
    and "1 \<le> n \<Longrightarrow> prefix (posted s) (executed t @ in_batch (pc t))"
    and "2 \<le> n \<Longrightarrow> prefix (posted s) (executed t)"
  using assms(1)
proof (induction rule: turns.induct)
  case none
  { case 1 show ?case by simp next case 2 then show ?case by simp next case 3 then show ?case by simp }
next
  case (inside n t u)
  note step = sched_step_batch [OF inside.hyps(2)]
  { case 1 show ?case using inside.IH(1) step(3) by (rule prefix_order.order_trans)
  next case 2 show ?case using inside.IH(2) [OF 2] step(2) by (rule prefix_order.order_trans)
  next case 3 show ?case using inside.IH(3) [OF 3] step(1) by (rule prefix_order.order_trans) }
next
  case (turn n t u)
  note step = sched_step_batch [OF turn.hyps(2)]
  have batch: "in_batch (pc t) = []" "executed u @ in_batch (pc u) = executed t @ pendingFunctors t"
    using step(4) [OF turn.hyps(3)] by simp_all
  have "posted t = executed t @ pendingFunctors t"
    using turns_inv [OF turn.hyps(1) assms(2)] batch(1) by (simp add: sched_inv_def)
  then have first: "prefix (posted s) (executed u @ in_batch (pc u))"
    using turn.IH(1) batch(2) by simp
  { case 1 show ?case using turn.IH(1) step(3) by (rule prefix_order.order_trans)
  next case 2 show ?case by (rule first)
  next
    case 3
    then have "prefix (posted s) (executed t)" using turn.IH(2) batch(1) by simp
    then show ?case using step(1) by (rule prefix_order.order_trans) }
qed

text \<open>Nothing runs any more once the loop has stopped.\<close>

lemma turns_stopped:
  "turns body s n t \<Longrightarrow> pc s = Stopped \<Longrightarrow> n = 0 \<and> pc t = Stopped \<and> executed t = executed s"
proof (induction rule: turns.induct)
  case (inside n t u)
  then have "pc t = Stopped" "executed t = executed s" by auto
  with inside.hyps(2) have "pc u = Stopped \<and> executed u = executed s"
    by (cases rule: sched_stepE) auto
  with inside show ?case by simp
qed (auto simp: begins_turn_def)

section \<open>Properties\<close>



end
