(* ===== verification/Channel.thy ===== *)
theory Channel
  imports EventLoop
begin

unbundle bit_operations_syntax

text \<open>
  class Channel (network/include/network/Channel.h, network/src/Channel.cc), and the
  constructor and destructor of EventLoop, which own the wakeup channel.

  \<^item> \<open>channel\<close> is the object; a callback is a value of the type parameter, \<open>None\<close> for an
    empty \<open>std::function\<close>. \<open>int\<close> masks are \<open>32 word\<close>.
  \<^item> The enable/disable operations change the mask and call \<open>update\<close>, which goes to the
    owning loop.
  \<^item> \<open>handleEvent\<close> runs callbacks that may change anything, the channel too, so it works on
    a state from which the channel is read afresh before every test (\<open>get\<close>) and in which
    it is written (\<open>upd\<close>).
  \<^item> \<open>setReadEventCallback\<close> names its parameter \<open>cd\<close> and uses \<open>cb\<close>; it is read as the
    other setters.
\<close>

section \<open>The object\<close>

type_synonym mask = "32 word"

definition NoneEvent :: mask where "NoneEvent = 0"
definition ReadEvent :: mask where "ReadEvent = 1"
definition WriteEvernt :: mask where "WriteEvernt = 2"
definition ErrorEvent :: mask where "ErrorEvent = 3"

text \<open>The event bits of \<open>poll\<close> and \<open>epoll\<close> on Linux (they coincide, Poller.cc asserts).\<close>

definition POLLIN :: mask where "POLLIN = 0x001"
definition POLLPRI :: mask where "POLLPRI = 0x002"
definition POLLOUT :: mask where "POLLOUT = 0x004"
definition POLLERR :: mask where "POLLERR = 0x008"
definition POLLHUP :: mask where "POLLHUP = 0x010"
definition POLLNVAL :: mask where "POLLNVAL = 0x020"
definition POLLRDHUP :: mask where "POLLRDHUP = 0x2000"

lemmas event_defs = NoneEvent_def ReadEvent_def WriteEvernt_def ErrorEvent_def
lemmas poll_defs = POLLIN_def POLLPRI_def POLLOUT_def POLLERR_def POLLHUP_def POLLNVAL_def
  POLLRDHUP_def

record 'cb channel =
  ch_loop :: loop_ptr
  ch_fd :: int
  events :: mask
  revents :: mask
  ch_index :: int
  eventHandling :: bool
  addedToLoop :: bool
  readCallback :: "'cb option"
  writeCallback :: "'cb option"
  errorCallback :: "'cb option"
  closeCallback :: "'cb option"

definition new_channel :: "loop_ptr \<Rightarrow> int \<Rightarrow> 'cb channel" where
  "new_channel loop fd =
     \<lparr>ch_loop = loop, ch_fd = fd, events = 0, revents = 0, ch_index = -1, eventHandling = False,
      addedToLoop = False, readCallback = None, writeCallback = None, errorCallback = None,
      closeCallback = None\<rparr>"

definition setReadEventCallback :: "'cb option \<Rightarrow> 'cb channel \<Rightarrow> 'cb channel" where
  "setReadEventCallback cb c = c\<lparr>readCallback := cb\<rparr>"
definition setWriteEventCallback :: "'cb option \<Rightarrow> 'cb channel \<Rightarrow> 'cb channel" where
  "setWriteEventCallback cb c = c\<lparr>writeCallback := cb\<rparr>"
definition setErrorEventCallback :: "'cb option \<Rightarrow> 'cb channel \<Rightarrow> 'cb channel" where
  "setErrorEventCallback cb c = c\<lparr>errorCallback := cb\<rparr>"
definition setCloseCallback :: "'cb option \<Rightarrow> 'cb channel \<Rightarrow> 'cb channel" where
  "setCloseCallback cb c = c\<lparr>closeCallback := cb\<rparr>"

lemmas channel_setter_defs = setReadEventCallback_def setWriteEventCallback_def
  setErrorEventCallback_def setCloseCallback_def

definition setEvent :: "mask \<Rightarrow> 'cb channel \<Rightarrow> 'cb channel" where
  "setEvent event c = c\<lparr>events := events c OR event\<rparr>"
definition setRevent :: "mask \<Rightarrow> 'cb channel \<Rightarrow> 'cb channel" where
  "setRevent revent c = c\<lparr>revents := revents c OR revent\<rparr>"
definition setIndex :: "int \<Rightarrow> 'cb channel \<Rightarrow> 'cb channel" where
  "setIndex i c = c\<lparr>ch_index := i\<rparr>"

definition isNoneEvent :: "'cb channel \<Rightarrow> bool" where
  "isNoneEvent c \<longleftrightarrow> events c = NoneEvent"
definition isReading :: "'cb channel \<Rightarrow> bool" where
  "isReading c \<longleftrightarrow> events c AND ReadEvent \<noteq> 0"
definition isWriting :: "'cb channel \<Rightarrow> bool" where
  "isWriting c \<longleftrightarrow> events c AND WriteEvernt \<noteq> 0"

section \<open>Registration with the loop\<close>

definition channel_update ::
  "pid \<Rightarrow> ('f, 'w) event_loop_scheme \<Rightarrow> 'cb channel \<Rightarrow> 'cb channel res" where
  "channel_update tid l c =
     (let c1 = c\<lparr>addedToLoop := True\<rparr> in
      bind_res (updateChannel tid (ch_loop c1) l) (\<lambda>_. Inr c1))"

definition channel_remove ::
  "pid \<Rightarrow> ('f, 'w) event_loop_scheme \<Rightarrow> channel_ptr \<Rightarrow> 'cb channel \<Rightarrow> 'cb channel res" where
  "channel_remove tid l this c =
     bind_res (assert_res (isNoneEvent c)) (\<lambda>_.
     let c1 = c\<lparr>addedToLoop := False\<rparr> in
     bind_res (removeChannel tid (ch_loop c1) this l) (\<lambda>_. Inr c1))"

definition channel_dtor ::
  "pid \<Rightarrow> ('f, 'w) event_loop_scheme \<Rightarrow> channel_ptr \<Rightarrow> 'cb channel \<Rightarrow> unit res" where
  "channel_dtor tid l this c =
     bind_res (assert_res (\<not> eventHandling c)) (\<lambda>_.
     bind_res (assert_res (\<not> addedToLoop c)) (\<lambda>_.
     if isInloopthread tid l then removeChannel tid (ch_loop c) this l else Inr ()))"

definition enableReading ::
  "pid \<Rightarrow> ('f, 'w) event_loop_scheme \<Rightarrow> 'cb channel \<Rightarrow> 'cb channel res" where
  "enableReading tid l c = channel_update tid l (c\<lparr>events := events c OR ReadEvent\<rparr>)"
definition disenableReading ::
  "pid \<Rightarrow> ('f, 'w) event_loop_scheme \<Rightarrow> 'cb channel \<Rightarrow> 'cb channel res" where
  "disenableReading tid l c = channel_update tid l (c\<lparr>events := events c AND NOT ReadEvent\<rparr>)"
definition enableWriting ::
  "pid \<Rightarrow> ('f, 'w) event_loop_scheme \<Rightarrow> 'cb channel \<Rightarrow> 'cb channel res" where
  "enableWriting tid l c = channel_update tid l (c\<lparr>events := events c OR WriteEvernt\<rparr>)"
definition disableWriting ::
  "pid \<Rightarrow> ('f, 'w) event_loop_scheme \<Rightarrow> 'cb channel \<Rightarrow> 'cb channel res" where
  "disableWriting tid l c = channel_update tid l (c\<lparr>events := events c AND NOT WriteEvernt\<rparr>)"
definition disableall ::
  "pid \<Rightarrow> ('f, 'w) event_loop_scheme \<Rightarrow> 'cb channel \<Rightarrow> 'cb channel res" where
  "disableall tid l c = channel_update tid l (c\<lparr>events := NoneEvent\<rparr>)"

lemmas channel_op_defs = enableReading_def disenableReading_def enableWriting_def
  disableWriting_def disableall_def

lemma updateChannel_pass [simp]:
  "updateChannel tid owner l = Inr () \<longleftrightarrow> owner = loop_this l \<and> threadPid l \<noteq> tid"
  by (simp add: updateChannel_def bind_assert_eq_Inr)

lemma channel_update_eq:
  "ch_loop c = loop_this l \<Longrightarrow> threadPid l \<noteq> tid \<Longrightarrow>
    channel_update tid l c = Inr (c\<lparr>addedToLoop := True\<rparr>)"
  by (simp add: channel_update_def updateChannel_def assertInLoopThread_pass)

lemma channel_update_Inr:
  "channel_update tid l c = Inr c' \<longleftrightarrow>
    ch_loop c = loop_this l \<and> threadPid l \<noteq> tid \<and> c' = c\<lparr>addedToLoop := True\<rparr>"
  by (auto simp: channel_update_def bind_res_eq_Inr updateChannel_def)

lemma channel_ops_eq:
  assumes "ch_loop c = loop_this l" and "threadPid l \<noteq> tid"
  shows "enableReading tid l c = Inr (c\<lparr>events := events c OR ReadEvent, addedToLoop := True\<rparr>)"
    and "disenableReading tid l c = Inr (c\<lparr>events := events c AND NOT ReadEvent, addedToLoop := True\<rparr>)"
    and "enableWriting tid l c = Inr (c\<lparr>events := events c OR WriteEvernt, addedToLoop := True\<rparr>)"
    and "disableWriting tid l c = Inr (c\<lparr>events := events c AND NOT WriteEvernt, addedToLoop := True\<rparr>)"
    and "disableall tid l c = Inr (c\<lparr>events := NoneEvent, addedToLoop := True\<rparr>)"
  using assms by (simp_all add: channel_op_defs channel_update_eq)

section \<open>Dispatching\<close>

definition fire ::
  "('s \<Rightarrow> 'cb option) \<Rightarrow> ('cb \<Rightarrow> 's \<Rightarrow> 's res) \<Rightarrow> 's \<Rightarrow> 's res" where
  "fire callback exec s = (case callback s of None \<Rightarrow> Inr s | Some cb \<Rightarrow> exec cb s)"

definition handleEvent ::
  "('s \<Rightarrow> 'cb channel) \<Rightarrow> (('cb channel \<Rightarrow> 'cb channel) \<Rightarrow> 's \<Rightarrow> 's) \<Rightarrow>
   ('cb \<Rightarrow> 's \<Rightarrow> 's res) \<Rightarrow> 's \<Rightarrow> 's res" where
  "handleEvent get upd exec s =
     (let s0 = upd (\<lambda>c. c\<lparr>eventHandling := True\<rparr>) s in
      bind_res (if revents (get s0) AND POLLHUP \<noteq> 0 \<and> \<not> (revents (get s0) AND POLLIN \<noteq> 0)
                then fire (\<lambda>s. closeCallback (get s)) exec s0 else Inr s0) (\<lambda>s1.
      bind_res (if revents (get s1) AND (POLLIN OR POLLPRI OR POLLRDHUP) \<noteq> 0
                then fire (\<lambda>s. readCallback (get s)) exec s1 else Inr s1) (\<lambda>s2.
      bind_res (if revents (get s2) AND (POLLERR OR POLLNVAL) \<noteq> 0
                then fire (\<lambda>s. errorCallback (get s)) exec s2 else Inr s2) (\<lambda>s3.
      bind_res (if revents (get s3) AND POLLOUT \<noteq> 0
                then fire (\<lambda>s. writeCallback (get s)) exec s3 else Inr s3) (\<lambda>s4.
      Inr (upd (\<lambda>c. c\<lparr>eventHandling := False\<rparr>) s4))))))"

text \<open>The callbacks the returned events of a channel call for, in order.\<close>

definition option_list :: "bool \<Rightarrow> 'a option \<Rightarrow> 'a list" where
  "option_list p x = (if p then (case x of None \<Rightarrow> [] | Some a \<Rightarrow> [a]) else [])"

definition dispatch_list :: "'cb channel \<Rightarrow> 'cb list" where
  "dispatch_list c =
     option_list (revents c AND POLLHUP \<noteq> 0 \<and> revents c AND POLLIN = 0) (closeCallback c) @
     option_list (revents c AND (POLLIN OR POLLPRI OR POLLRDHUP) \<noteq> 0) (readCallback c) @
     option_list (revents c AND (POLLERR OR POLLNVAL) \<noteq> 0) (errorCallback c) @
     option_list (revents c AND POLLOUT \<noteq> 0) (writeCallback c)"

text \<open>
  The part of a channel that decides the dispatch; the callbacks of this program leave it
  alone (only the poller sets \<open>revents_\<close>, only the owner sets the callbacks).
\<close>

definition dispatch_part :: "'cb channel \<Rightarrow> mask \<times> 'cb option \<times> 'cb option \<times> 'cb option \<times> 'cb option" where
  "dispatch_part c = (revents c, closeCallback c, readCallback c, errorCallback c, writeCallback c)"

lemma fire_step:
  "fire callback exec s = run_res exec (option_list True (callback s)) s"
  by (cases "callback s") (simp_all add: fire_def option_list_def bind_res_def split: sum.split)

lemma fire_if:
  "(if p then fire callback exec s else Inr s) = run_res exec (option_list p (callback s)) s"
  by (cases p) (simp_all add: fire_step, simp add: option_list_def)

lemma run_keeps_part:
  assumes "\<And>cb s t. exec cb s = Inr t \<Longrightarrow> dispatch_part (get t) = dispatch_part (get s)"
  shows "run_res exec cbs s = Inr t \<Longrightarrow> dispatch_part (get t) = dispatch_part (get s)"
proof (induction cbs arbitrary: s)
  case Nil
  then show ?case by simp
next
  case (Cons cb cbs)
  then show ?case by (auto elim!: bind_res_InrE dest: assms)
qed

lemma handleEvent_runs_dispatch_list:
  assumes keep: "\<And>cb s t. exec cb s = Inr t \<Longrightarrow> dispatch_part (get t) = dispatch_part (get s)"
    and upd: "\<And>b s. dispatch_part (get (upd (\<lambda>c. c\<lparr>eventHandling := b\<rparr>) s)) = dispatch_part (get s)"
  shows "handleEvent get upd exec s =
    bind_res (run_res exec (dispatch_list (get s)) (upd (\<lambda>c. c\<lparr>eventHandling := True\<rparr>) s))
      (\<lambda>t. Inr (upd (\<lambda>c. c\<lparr>eventHandling := False\<rparr>) t))"
proof -
  let ?c = "get s" and ?s0 = "upd (\<lambda>c. c\<lparr>eventHandling := True\<rparr>) s"
  let ?closes = "option_list (revents ?c AND POLLHUP \<noteq> 0 \<and> revents ?c AND POLLIN = 0) (closeCallback ?c)"
  let ?reads = "option_list (revents ?c AND (POLLIN OR POLLPRI OR POLLRDHUP) \<noteq> 0) (readCallback ?c)"
  let ?errors = "option_list (revents ?c AND (POLLERR OR POLLNVAL) \<noteq> 0) (errorCallback ?c)"
  let ?writes = "option_list (revents ?c AND POLLOUT \<noteq> 0) (writeCallback ?c)"
  have part: "revents (get t) = revents ?c" "closeCallback (get t) = closeCallback ?c"
      "readCallback (get t) = readCallback ?c" "errorCallback (get t) = errorCallback ?c"
      "writeCallback (get t) = writeCallback ?c"
    if "dispatch_part (get t) = dispatch_part ?c" for t
    using that by (simp_all add: dispatch_part_def)
  have after: "dispatch_part (get t') = dispatch_part ?c"
    if "run_res exec cbs t = Inr t'" "dispatch_part (get t) = dispatch_part ?c" for cbs t t'
    using run_keeps_part [of exec get, OF keep that(1)] that(2) by simp
  note u0 = upd [of True s]
  have "handleEvent get upd exec s =
    bind_res (run_res exec ?closes ?s0) (\<lambda>s1. bind_res (run_res exec ?reads s1) (\<lambda>s2.
    bind_res (run_res exec ?errors s2) (\<lambda>s3. bind_res (run_res exec ?writes s3) (\<lambda>s4.
    Inr (upd (\<lambda>c. c\<lparr>eventHandling := False\<rparr>) s4)))))"
    unfolding handleEvent_def Let_def fire_if not_not
  proof (rule bind_res_cong)
    fix s1 assume "run_res exec ?closes ?s0 = Inr s1"
    note d1 = after [OF this u0]
    show "bind_res (run_res exec (option_list (revents (get s1) AND (POLLIN OR POLLPRI OR POLLRDHUP) \<noteq> 0)
        (readCallback (get s1))) s1) (\<lambda>s2.
      bind_res (run_res exec (option_list (revents (get s2) AND (POLLERR OR POLLNVAL) \<noteq> 0)
        (errorCallback (get s2))) s2) (\<lambda>s3.
      bind_res (run_res exec (option_list (revents (get s3) AND POLLOUT \<noteq> 0)
        (writeCallback (get s3))) s3) (\<lambda>s4. Inr (upd (\<lambda>c. c\<lparr>eventHandling := False\<rparr>) s4)))) =
      bind_res (run_res exec ?reads s1) (\<lambda>s2. bind_res (run_res exec ?errors s2) (\<lambda>s3.
      bind_res (run_res exec ?writes s3) (\<lambda>s4. Inr (upd (\<lambda>c. c\<lparr>eventHandling := False\<rparr>) s4))))"
      unfolding part [OF d1]
    proof (rule bind_res_cong [OF refl], goal_cases)
      case (1 s2)
      note d2 = after [OF this d1]
      show ?case unfolding part [OF d2]
      proof (rule bind_res_cong [OF refl], goal_cases)
        case (1 s3)
        note d3 = after [OF this d2]
        show ?case unfolding part [OF d3] ..
      qed
    qed
  qed (simp add: part [OF u0])
  then show ?thesis by (simp add: dispatch_list_def run_res_append bind_res_assoc)
qed

section \<open>Construction and destruction of an EventLoop\<close>

text \<open>
  \<open>eventfd(2)\<close>'s result is an argument, as are the indeterminate values of the members
  that the constructor does not initialise (\<open>callingPendingFunctors_\<close>) or initialises
  after their first use (\<open>threadPid\<close>, compared by the guard inside \<open>enableReading\<close>).
  \<open>t_loop\<close> is the thread-local \<open>t_loopInThisThread\<close>.
\<close>

definition createEventfd :: "int \<Rightarrow> int res" where
  "createEventfd eventfd = (if eventfd < 0 then Inl FatalLog else Inr eventfd)"

definition EventLoop_ctor ::
  "loop_ptr \<Rightarrow> channel_ptr \<Rightarrow> pid \<Rightarrow> pid \<Rightarrow> bool \<Rightarrow> int \<Rightarrow> 'cb \<Rightarrow> loop_ptr option \<Rightarrow>
   ('f event_loop \<times> 'cb channel \<times> loop_ptr option) res" where
  "EventLoop_ctor this wake tid garbage_pid garbage_calling eventfd handleRead t_loop =
     bind_res (createEventfd eventfd) (\<lambda>wakeupfd.
     let l = \<lparr>loop_this = this, looping = False, quit_flag = False, eventHanding = False,
              callingPendingFunctors = garbage_calling, iteration = 0, threadPid = garbage_pid,
              wakeup_writes = 0, pendingFunctors = [], currentActiveChannel = None,
              activeChannels = []\<rparr>;
         c = new_channel this wakeupfd in
     if t_loop \<noteq> None then Inl FatalLog
     else
       bind_res (enableReading tid l (setReadEventCallback (Some handleRead) c)) (\<lambda>c1.
       Inr (l\<lparr>threadPid := tid\<rparr>, c1, Some this)))"

definition EventLoop_dtor ::
  "pid \<Rightarrow> channel_ptr \<Rightarrow> ('f, 'w) event_loop_scheme \<Rightarrow> 'cb channel \<Rightarrow> loop_ptr option res" where
  "EventLoop_dtor tid wake l c =
     bind_res (disableall tid l c) (\<lambda>c1.
     bind_res (channel_remove tid l wake c1) (\<lambda>c2. Inr None))"

section \<open>The mask of a channel\<close>

datatype channel_op = EnableReading | DisableReading | EnableWriting | DisableWriting
  | DisableAll | Remove

fun channel_step ::
  "pid \<Rightarrow> ('f, 'w) event_loop_scheme \<Rightarrow> channel_ptr \<Rightarrow> channel_op \<Rightarrow> 'cb channel \<Rightarrow> 'cb channel res"
where
  "channel_step tid l this EnableReading c = enableReading tid l c"
| "channel_step tid l this DisableReading c = disenableReading tid l c"
| "channel_step tid l this EnableWriting c = enableWriting tid l c"
| "channel_step tid l this DisableWriting c = disableWriting tid l c"
| "channel_step tid l this DisableAll c = disableall tid l c"
| "channel_step tid l this Remove c = channel_remove tid l this c"

definition channel_inv :: "'cb channel \<Rightarrow> bool" where
  "channel_inv c \<longleftrightarrow> events c \<in> {0, ReadEvent, WriteEvernt, ReadEvent OR WriteEvernt} \<and>
     (addedToLoop c \<or> isNoneEvent c)"

lemma mask_cases:
  assumes "m \<in> {0, ReadEvent, WriteEvernt, ReadEvent OR WriteEvernt}"
  shows "m OR ReadEvent \<in> {0, ReadEvent, WriteEvernt, ReadEvent OR WriteEvernt}"
    and "m OR WriteEvernt \<in> {0, ReadEvent, WriteEvernt, ReadEvent OR WriteEvernt}"
    and "m AND NOT ReadEvent \<in> {0, ReadEvent, WriteEvernt, ReadEvent OR WriteEvernt}"
    and "m AND NOT WriteEvernt \<in> {0, ReadEvent, WriteEvernt, ReadEvent OR WriteEvernt}"
  using assms by (auto simp: event_defs)

lemma channel_remove_Inr:
  assumes "channel_remove tid l this c = Inr c'"
  shows "isNoneEvent c" and "c' = c\<lparr>addedToLoop := False\<rparr>"
  using assms by (auto simp: channel_remove_def Let_def bind_res_eq_Inr)

lemma channel_step_inv:
  "channel_inv c \<Longrightarrow> channel_step tid l this op c = Inr c' \<Longrightarrow> channel_inv c'"
proof (cases op)
  case Remove
  assume "channel_inv c" "channel_step tid l this op c = Inr c'"
  with Remove show ?thesis
    using channel_remove_Inr [of tid l this c c'] by (auto simp: channel_inv_def isNoneEvent_def)
next
  case DisableAll
  assume "channel_step tid l this op c = Inr c'"
  with DisableAll show ?thesis
    by (auto simp: channel_op_defs channel_update_Inr channel_inv_def NoneEvent_def)
qed (use mask_cases in \<open>auto simp: channel_op_defs channel_update_Inr channel_inv_def\<close>)

interpretation cm: machine "channel_step tid l this" channel_inv for tid l this
  by unfold_locales (rule channel_step_inv)

lemma new_channel_inv [simp]: "channel_inv (new_channel loop fd)"
  by (simp add: channel_inv_def new_channel_def isNoneEvent_def NoneEvent_def)

section \<open>Properties\<close>

text \<open>handleEvent runs exactly the callbacks the returned events call for, each at most once
  and in the order close, read, error, write: close on a hangup without readable data, read
  on data, priority data or the peer's half close, error on an error or an invalid
  descriptor, write on writability; and the eventHandling flag brackets them. This holds for
  all callbacks that leave the channel's returned events and its callbacks alone.\<close>

theorem handleEvent_order:
  assumes "\<And>cb s t. exec cb s = Inr t \<Longrightarrow> dispatch_part (get t) = dispatch_part (get s)"
    and "\<And>b s. dispatch_part (get (upd (\<lambda>c. c\<lparr>eventHandling := b\<rparr>) s)) = dispatch_part (get s)"
  shows "handleEvent get upd exec s =
    bind_res (run_res exec (dispatch_list (get s)) (upd (\<lambda>c. c\<lparr>eventHandling := True\<rparr>) s))
      (\<lambda>t. Inr (upd (\<lambda>c. c\<lparr>eventHandling := False\<rparr>) t))"
  using assms by (rule handleEvent_runs_dispatch_list)

definition sample_channel :: "nat channel" where
  "sample_channel = \<lparr>ch_loop = 0, ch_fd = 4, events = 1, revents = 0x1C, ch_index = 1,
     eventHandling = False, addedToLoop = True, readCallback = Some 1, writeCallback = Some 2,
     errorCallback = Some 3, closeCallback = Some 4\<rparr>"

lemma handleEvent_order_witness:
  "handleEvent fst (\<lambda>f s. (f (fst s), snd s)) (\<lambda>cb s. Inr (fst s, snd s @ [cb])) (sample_channel, []) =
    Inr (sample_channel, [4, 3, 2])"
proof -
  have "dispatch_list sample_channel = [4, 3, 2]"
    by (simp add: dispatch_list_def sample_channel_def option_list_def poll_defs)
  moreover have "sample_channel\<lparr>eventHandling := False\<rparr> = sample_channel"
    by (simp add: sample_channel_def)
  ultimately show ?thesis
    by (subst handleEvent_order) (auto simp: dispatch_part_def)
qed



text \<open>Constructing an EventLoop in a thread that has none gives the thread its loop: idle,
  not quit, nothing pending, owned by the constructing thread, with the wakeup descriptor
  registered for reading. The guard compares with the thread id before that is set, so this
  needs the indeterminate old value to differ from the thread's id; a second loop in the
  same thread aborts.\<close>

theorem EventLoop_ctor_outcome:
  assumes "0 \<le> fd" and "garbage_pid \<noteq> tid"
  shows "(\<exists>l c. EventLoop_ctor this wake tid garbage_pid garbage_calling fd cb None =
      Inr (l, c, Some this) \<and> loop_this l = this \<and> threadPid l = tid \<and> \<not> looping l \<and>
      \<not> quit_flag l \<and> pendingFunctors l = [] \<and> ch_fd c = fd \<and> isReading c \<and>
      readCallback c = Some cb \<and> addedToLoop c) \<and>
    EventLoop_ctor this wake tid garbage_pid garbage_calling fd cb (Some other) = Inl FatalLog"
  using assms
  by (simp_all add: EventLoop_ctor_def createEventfd_def channel_ops_eq new_channel_def
    setReadEventCallback_def isReading_def ReadEvent_def)

lemma EventLoop_ctor_outcome_witness:
  "\<exists>l c. EventLoop_ctor 1 2 7 0 False 5 (9 :: nat) None = Inr (l :: nat event_loop, c, Some 1) \<and>
    threadPid l = 7 \<and> isReading c"
  using EventLoop_ctor_outcome [of 5 0 7 1 2 False "9 :: nat"] by fastforce

end
