(* ===== verification/Poller.thy ===== *)
theory Poller
  imports Channel
begin

unbundle bit_operations_syntax

text \<open>
  class Poller (network/include/network/Poller.h, network/src/Poller.cc): the map from
  descriptors to channels, the index of a channel as its registration state, and the epoll
  instance behind it.

  \<^item> \<open>poller\<close> holds \<open>channels_\<close>, the length of \<open>events_\<close>, the channel objects the pointers
    refer to (\<open>heap\<close>) and the state of the kernel's epoll instance, of which the model
    knows nothing: \<open>epoll_ctl\<close> is an argument \<open>ctl\<close>, and what the code relies on (a
    documented successful call) is the hypothesis \<open>epoll_contract\<close>.
  \<^item> \<open>epoll_wait\<close>'s result, a count or -1 and the returned events, is an argument of \<open>poll\<close>.
    (The call's parentheses are misplaced in the source: the timeout went into the cast.)
  \<^item> \<open>poller_inv\<close>: \<open>channels_\<close>, the indices and the kernel's interest list agree.
\<close>

section \<open>The object\<close>

definition KNew :: int where "KNew = -1"
definition KAdded :: int where "KAdded = 1"
definition KDeleted :: int where "KDeleted = 2"

lemmas index_defs = KNew_def KAdded_def KDeleted_def

datatype epoll_op = EPOLL_CTL_ADD | EPOLL_CTL_MOD | EPOLL_CTL_DEL

text \<open>A \<open>struct epoll_event\<close>: the mask and \<open>data.ptr\<close>.\<close>

type_synonym epoll_event = "mask \<times> channel_ptr"
type_synonym 'k epoll_ctl = "epoll_op \<Rightarrow> int \<Rightarrow> epoll_event \<Rightarrow> 'k \<Rightarrow> int \<times> 'k"

record ('cb, 'k) poller =
  channels :: "int \<Rightarrow> channel_ptr option"
  events_size :: nat
  heap :: "channel_ptr \<Rightarrow> 'cb channel"
  epoll :: 'k

definition KInitEventListSize :: nat where "KInitEventListSize = 16"

definition Poller_ctor :: "int \<Rightarrow> (channel_ptr \<Rightarrow> 'cb channel) \<Rightarrow> 'k \<Rightarrow> ('cb, 'k) poller res" where
  "Poller_ctor epollfd h k =
     (if epollfd < 0 then Inl FatalLog
      else Inr \<lparr>channels = Map.empty, events_size = KInitEventListSize, heap = h, epoll = k\<rparr>)"

text \<open>The operations as the \<open>int\<close>s of epoll_ctl(2); \<open>operationToString\<close> takes any \<open>int\<close>.\<close>

fun epoll_op_code :: "epoll_op \<Rightarrow> int" where
  "epoll_op_code EPOLL_CTL_ADD = 1"
| "epoll_op_code EPOLL_CTL_DEL = 2"
| "epoll_op_code EPOLL_CTL_MOD = 3"

definition operationToString :: "int \<Rightarrow> string" where
  "operationToString op =
     (if op = epoll_op_code EPOLL_CTL_ADD then ''EPOLL_CTL_ADD''
      else if op = epoll_op_code EPOLL_CTL_MOD then ''EPOLL_CTL_MOD''
      else if op = epoll_op_code EPOLL_CTL_DEL then ''EPOLL_CTL_DEL''
      else ''Unknown Operation'')"

section \<open>Operations\<close>

definition poller_update ::
  "'k epoll_ctl \<Rightarrow> epoll_op \<Rightarrow> channel_ptr \<Rightarrow> ('cb, 'k) poller \<Rightarrow> ('cb, 'k) poller res" where
  "poller_update ctl operation ch p =
     (let c = heap p ch; (ret, k) = ctl operation (ch_fd c) (events c, ch) (epoll p) in
      if ret < 0 then (if operation = EPOLL_CTL_DEL then Inr (p\<lparr>epoll := k\<rparr>) else Inl FatalLog)
      else Inr (p\<lparr>epoll := k\<rparr>))"

definition set_index :: "channel_ptr \<Rightarrow> int \<Rightarrow> ('cb, 'k) poller \<Rightarrow> ('cb, 'k) poller" where
  "set_index ch i p = p\<lparr>heap := (heap p)(ch := setIndex i (heap p ch))\<rparr>"

definition poller_updateChannel ::
  "pid \<Rightarrow> ('f, 'w) event_loop_scheme \<Rightarrow> 'k epoll_ctl \<Rightarrow> channel_ptr \<Rightarrow>
   ('cb, 'k) poller \<Rightarrow> ('cb, 'k) poller res" where
  "poller_updateChannel tid l ctl ch p =
     bind_res (assertInLoopThread tid l) (\<lambda>_.
     let c = heap p ch; index = ch_index c; fd = ch_fd c in
     if index = KNew \<or> index = KDeleted then
       bind_res
         (if index = KNew
          then bind_res (assert_res (channels p fd = None)) (\<lambda>_.
                 Inr (p\<lparr>channels := (channels p)(fd \<mapsto> ch)\<rparr>))
          else bind_res (assert_res (channels p fd \<noteq> None)) (\<lambda>_.
               bind_res (assert_res (channels p fd = Some ch)) (\<lambda>_. Inr p)))
         (\<lambda>p1. poller_update ctl EPOLL_CTL_ADD ch (set_index ch KAdded p1))
     else
       bind_res (assert_res (index = KAdded)) (\<lambda>_.
       bind_res (assert_res (channels p fd \<noteq> None)) (\<lambda>_.
       bind_res (assert_res (channels p fd = Some ch)) (\<lambda>_.
       if isNoneEvent c
       then bind_res (poller_update ctl EPOLL_CTL_DEL ch p) (\<lambda>p1. Inr (set_index ch KDeleted p1))
       else poller_update ctl EPOLL_CTL_MOD ch p))))"

definition poller_removeChannel ::
  "pid \<Rightarrow> ('f, 'w) event_loop_scheme \<Rightarrow> 'k epoll_ctl \<Rightarrow> channel_ptr \<Rightarrow>
   ('cb, 'k) poller \<Rightarrow> ('cb, 'k) poller res" where
  "poller_removeChannel tid l ctl ch p =
     bind_res (assertInLoopThread tid l) (\<lambda>_.
     let c = heap p ch; fd = ch_fd c; index = ch_index c in
     bind_res (assert_res (channels p fd \<noteq> None)) (\<lambda>_.
     bind_res (assert_res (channels p fd = Some ch)) (\<lambda>_.
     bind_res (assert_res (isNoneEvent c)) (\<lambda>_.
     bind_res (assert_res (index = KAdded \<or> index = KDeleted)) (\<lambda>_.
     let p1 = p\<lparr>channels := (channels p)(fd := None)\<rparr> in
     bind_res (if index = KAdded then poller_update ctl EPOLL_CTL_DEL ch p1 else Inr p1) (\<lambda>p2.
     Inr (set_index ch KNew p2)))))))"

text \<open>One round of the loop of \<open>fillActiveChannels\<close>, and the loop.\<close>

definition fill_one ::
  "epoll_event \<Rightarrow> ('cb, 'k) poller \<times> channel_ptr list \<Rightarrow> (('cb, 'k) poller \<times> channel_ptr list) res"
where
  "fill_one ev s =
     (let (p, active) = s; (mask, ch) = ev; fd = ch_fd (heap p ch) in
      bind_res (assert_res (channels p fd \<noteq> None)) (\<lambda>_.
      bind_res (assert_res (channels p fd = Some ch)) (\<lambda>_.
      Inr (p\<lparr>heap := (heap p)(ch := setRevent mask (heap p ch))\<rparr>, active @ [ch]))))"

definition fillActiveChannels ::
  "epoll_event list \<Rightarrow> ('cb, 'k) poller \<times> channel_ptr list \<Rightarrow>
   (('cb, 'k) poller \<times> channel_ptr list) res" where
  "fillActiveChannels evs s =
     bind_res (assert_res (length evs \<le> events_size (fst s))) (\<lambda>_. run_res fill_one evs s)"

definition poll ::
  "int \<Rightarrow> epoll_event list \<Rightarrow> ('cb, 'k) poller \<times> channel_ptr list \<Rightarrow>
   (('cb, 'k) poller \<times> channel_ptr list) res" where
  "poll numEvents returned s =
     (if numEvents > 0 then
        bind_res (fillActiveChannels (take (nat numEvents) returned) s) (\<lambda>(p, active).
        if nat numEvents = events_size p then Inr (p\<lparr>events_size := events_size p * 2\<rparr>, active)
        else Inr (p, active))
      else Inr s)"

section \<open>The contract of epoll_ctl\<close>

text \<open>
  \<open>view\<close> reads the interest list off the kernel's state. A call on a descriptor in the right
  state succeeds and does what epoll_ctl(2) says.
\<close>

definition epoll_contract ::
  "'k epoll_ctl \<Rightarrow> ('k \<Rightarrow> int \<Rightarrow> epoll_event option) \<Rightarrow> bool" where
  "epoll_contract ctl view \<longleftrightarrow>
     (\<forall>k fd ev. view k fd = None \<longrightarrow> (\<exists>k'. ctl EPOLL_CTL_ADD fd ev k = (0, k') \<and>
        view k' = (view k)(fd \<mapsto> ev))) \<and>
     (\<forall>k fd ev. view k fd \<noteq> None \<longrightarrow> (\<exists>k'. ctl EPOLL_CTL_MOD fd ev k = (0, k') \<and>
        view k' = (view k)(fd \<mapsto> ev))) \<and>
     (\<forall>k fd ev. view k fd \<noteq> None \<longrightarrow> (\<exists>k'. ctl EPOLL_CTL_DEL fd ev k = (0, k') \<and>
        view k' = (view k)(fd := None)))"

text \<open>An epoll that is just its interest list, for the witnesses.\<close>

fun list_epoll :: "(int \<Rightarrow> epoll_event option) epoll_ctl" where
  "list_epoll EPOLL_CTL_ADD fd ev k = (if k fd = None then (0, k(fd \<mapsto> ev)) else (-1, k))"
| "list_epoll EPOLL_CTL_MOD fd ev k = (if k fd = None then (-1, k) else (0, k(fd \<mapsto> ev)))"
| "list_epoll EPOLL_CTL_DEL fd ev k = (if k fd = None then (-1, k) else (0, k(fd := None)))"

lemma list_epoll_contract: "epoll_contract list_epoll (\<lambda>k. k)"
  by (simp add: epoll_contract_def)

section \<open>The invariant\<close>

text \<open>
  Every entry of \<open>channels_\<close> is a channel with that descriptor that is added or deleted;
  every added or deleted channel is in \<open>channels_\<close>; and the kernel watches exactly the
  descriptors of the added channels, with a pointer to the channel.
\<close>

definition poller_inv :: "('k \<Rightarrow> int \<Rightarrow> epoll_event option) \<Rightarrow> ('cb, 'k) poller \<Rightarrow> bool" where
  "poller_inv view p \<longleftrightarrow>
     (\<forall>ch. ch_index (heap p ch) \<in> {KNew, KAdded, KDeleted}) \<and>
     (\<forall>fd ch. channels p fd = Some ch \<longleftrightarrow>
        ch_fd (heap p ch) = fd \<and> ch_index (heap p ch) \<noteq> KNew) \<and>
     (\<forall>fd ch. (\<exists>m. view (epoll p) fd = Some (m, ch)) \<longleftrightarrow>
        ch_fd (heap p ch) = fd \<and> ch_index (heap p ch) = KAdded)"

lemma poller_invD:
  assumes "poller_inv view p"
  shows "ch_index (heap p ch) = KNew \<or> ch_index (heap p ch) = KAdded \<or> ch_index (heap p ch) = KDeleted"
    and "channels p fd = Some ch \<longleftrightarrow> ch_fd (heap p ch) = fd \<and> ch_index (heap p ch) \<noteq> KNew"
    and "(\<exists>m. view (epoll p) fd = Some (m, ch)) \<longleftrightarrow>
      ch_fd (heap p ch) = fd \<and> ch_index (heap p ch) = KAdded"
  using assms by (auto simp: poller_inv_def)

text \<open>Registering a channel that the kernel does not watch.\<close>

lemma poller_add:
  assumes inv: "poller_inv view p" and con: "epoll_contract ctl view"
    and free: "channels p fd = None \<or> channels p fd = Some ch"
    and fd: "ch_fd (heap p ch) = fd" and idx: "ch_index (heap p ch) \<noteq> KAdded"
  defines "p1 \<equiv> set_index ch KAdded (p\<lparr>channels := (channels p)(fd \<mapsto> ch)\<rparr>)"
  shows "\<exists>p'. poller_update ctl EPOLL_CTL_ADD ch p1 = Inr p' \<and> poller_inv view p' \<and>
    channels p' = (channels p)(fd \<mapsto> ch) \<and> heap p' = (heap p)(ch := setIndex KAdded (heap p ch)) \<and>
    view (epoll p') fd = Some (events (heap p ch), ch)"
proof -
  have none: "view (epoll p) fd = None"
  proof (rule ccontr)
    assume "\<not> ?thesis"
    then obtain m ch' where "view (epoll p) fd = Some (m, ch')" by auto
    then have "ch_fd (heap p ch') = fd" and added: "ch_index (heap p ch') = KAdded"
      using poller_invD(3) [OF inv] by blast+
    then have "channels p fd = Some ch'"
      by (simp add: poller_invD(2) [OF inv] index_defs)
    with free idx added show False by auto
  qed
  with con obtain k' where k': "ctl EPOLL_CTL_ADD fd (events (heap p ch), ch) (epoll p) = (0, k')"
      and view': "view k' = (view (epoll p))(fd \<mapsto> (events (heap p ch), ch))"
    unfolding epoll_contract_def by blast
  define p' where "p' = p1\<lparr>epoll := k'\<rparr>"
  have upd: "poller_update ctl EPOLL_CTL_ADD ch p1 = Inr p'"
    by (simp add: poller_update_def p'_def p1_def set_index_def setIndex_def fd k')
  have heap': "heap p' = (heap p)(ch := setIndex KAdded (heap p ch))"
    and chans': "channels p' = (channels p)(fd \<mapsto> ch)" and kern': "epoll p' = k'"
    by (simp_all add: p'_def p1_def set_index_def)
  have "poller_inv view p'"
    unfolding poller_inv_def heap' chans' kern' view'
  proof (intro conjI allI)
    fix c
    show "ch_index (((heap p)(ch := setIndex KAdded (heap p ch))) c) \<in> {KNew, KAdded, KDeleted}"
      using poller_invD(1) [OF inv, of c] by (auto simp: setIndex_def)
    fix f
    show "((channels p)(fd \<mapsto> ch)) f = Some c \<longleftrightarrow>
        ch_fd (((heap p)(ch := setIndex KAdded (heap p ch))) c) = f \<and>
        ch_index (((heap p)(ch := setIndex KAdded (heap p ch))) c) \<noteq> KNew"
      using poller_invD(2) [OF inv, of f c] free fd by (auto simp: setIndex_def index_defs)
    show "(\<exists>m. ((view (epoll p))(fd \<mapsto> (events (heap p ch), ch))) f = Some (m, c)) \<longleftrightarrow>
        ch_fd (((heap p)(ch := setIndex KAdded (heap p ch))) c) = f \<and>
        ch_index (((heap p)(ch := setIndex KAdded (heap p ch))) c) = KAdded"
      using poller_invD(3) [OF inv, of f c] none fd by (auto simp: setIndex_def)
  qed
  then show ?thesis using upd heap' chans' kern' view' by auto
qed

text \<open>Changing the interest of an added channel.\<close>

lemma poller_mod:
  assumes inv: "poller_inv view p" and con: "epoll_contract ctl view"
    and idx: "ch_index (heap p ch) = KAdded"
  shows "\<exists>p'. poller_update ctl EPOLL_CTL_MOD ch p = Inr p' \<and> poller_inv view p' \<and>
    channels p' = channels p \<and> heap p' = heap p \<and>
    view (epoll p') (ch_fd (heap p ch)) = Some (events (heap p ch), ch)"
proof -
  let ?fd = "ch_fd (heap p ch)"
  obtain m where m: "view (epoll p) ?fd = Some (m, ch)"
    using poller_invD(3) [OF inv] idx by blast
  with con obtain k' where k': "ctl EPOLL_CTL_MOD ?fd (events (heap p ch), ch) (epoll p) = (0, k')"
      and view': "view k' = (view (epoll p))(?fd \<mapsto> (events (heap p ch), ch))"
    unfolding epoll_contract_def by blast
  have "poller_update ctl EPOLL_CTL_MOD ch p = Inr (p\<lparr>epoll := k'\<rparr>)"
    by (simp add: poller_update_def k')
  moreover have "poller_inv view (p\<lparr>epoll := k'\<rparr>)"
    unfolding poller_inv_def
  proof (intro conjI allI)
    fix c f
    show "(\<exists>m'. view (epoll (p\<lparr>epoll := k'\<rparr>)) f = Some (m', c)) \<longleftrightarrow>
        ch_fd (heap (p\<lparr>epoll := k'\<rparr>) c) = f \<and> ch_index (heap (p\<lparr>epoll := k'\<rparr>) c) = KAdded"
      using poller_invD(3) [OF inv, of f c] poller_invD(3) [OF inv, of ?fd c] m idx
      by (auto simp: view')
  qed (use poller_invD [OF inv] in \<open>auto simp: poller_inv_def\<close>)
  ultimately show ?thesis using view' by auto
qed

text \<open>Taking an added channel out of the kernel, with the index it gets afterwards.\<close>

lemma poller_del:
  assumes inv: "poller_inv view p" and con: "epoll_contract ctl view"
    and idx: "ch_index (heap p ch) = KAdded" and i: "i = KDeleted \<and> cs = channels p \<or>
      i = KNew \<and> cs = (channels p)(ch_fd (heap p ch) := None)"
  shows "\<exists>p'. poller_update ctl EPOLL_CTL_DEL ch (p\<lparr>channels := cs\<rparr>) = Inr p' \<and>
    poller_inv view (set_index ch i p') \<and> channels p' = cs \<and> heap p' = heap p \<and>
    view (epoll p') (ch_fd (heap p ch)) = None"
proof -
  let ?fd = "ch_fd (heap p ch)"
  obtain m where m: "view (epoll p) ?fd = Some (m, ch)"
    using poller_invD(3) [OF inv] idx by blast
  with con obtain k' where k': "ctl EPOLL_CTL_DEL ?fd (events (heap p ch), ch) (epoll p) = (0, k')"
      and view': "view k' = (view (epoll p))(?fd := None)"
    unfolding epoll_contract_def by blast
  let ?p = "p\<lparr>channels := cs, epoll := k'\<rparr>"
  have "poller_update ctl EPOLL_CTL_DEL ch (p\<lparr>channels := cs\<rparr>) = Inr ?p"
    by (simp add: poller_update_def k')
  moreover have "poller_inv view (set_index ch i ?p)"
    unfolding poller_inv_def
  proof (intro conjI allI)
    fix c f
    show "ch_index (heap (set_index ch i ?p) c) \<in> {KNew, KAdded, KDeleted}"
      using poller_invD(1) [OF inv, of c] i by (auto simp: set_index_def setIndex_def)
    show "channels (set_index ch i ?p) f = Some c \<longleftrightarrow>
        ch_fd (heap (set_index ch i ?p) c) = f \<and> ch_index (heap (set_index ch i ?p) c) \<noteq> KNew"
      using poller_invD(2) [OF inv, of f c] poller_invD(2) [OF inv, of ?fd ch]
        poller_invD(2) [OF inv, of ?fd c] i idx
      by (auto simp: set_index_def setIndex_def index_defs split: if_splits)
    show "(\<exists>m. view (epoll (set_index ch i ?p)) f = Some (m, c)) \<longleftrightarrow>
        ch_fd (heap (set_index ch i ?p) c) = f \<and> ch_index (heap (set_index ch i ?p) c) = KAdded"
      using poller_invD(3) [OF inv, of f c] poller_invD(3) [OF inv, of ?fd c] i m
      by (auto simp: set_index_def setIndex_def index_defs view')
  qed
  ultimately show ?thesis using view' by auto
qed

section \<open>The operations keep the registration consistent\<close>

lemma updateChannel_ok:
  assumes inv: "poller_inv view p" and con: "epoll_contract ctl view" and guard: "threadPid l \<noteq> tid"
    and new: "ch_index (heap p ch) = KNew \<Longrightarrow> channels p (ch_fd (heap p ch)) = None"
  defines "unwatch \<equiv> ch_index (heap p ch) = KAdded \<and> isNoneEvent (heap p ch)"
  shows "\<exists>p'. poller_updateChannel tid l ctl ch p = Inr p' \<and> poller_inv view p' \<and>
    channels p' (ch_fd (heap p ch)) = Some ch \<and>
    heap p' = (heap p)(ch := setIndex (if unwatch then KDeleted else KAdded) (heap p ch)) \<and>
    view (epoll p') (ch_fd (heap p ch)) = (if unwatch then None else Some (events (heap p ch), ch))"
proof -
  let ?c = "heap p ch" and ?fd = "ch_fd (heap p ch)"
  note guard_ok = assertInLoopThread_pass [OF guard]
  have entry: "channels p ?fd = Some ch" if "ch_index ?c \<noteq> KNew"
    using poller_invD(2) [OF inv] that by simp
  show ?thesis
  proof (cases "ch_index ?c = KAdded")
    case False
    then have idx: "ch_index ?c = KNew \<or> ch_index ?c = KDeleted"
      using poller_invD(1) [OF inv, of ch] by simp
    then have free: "channels p ?fd = None \<or> channels p ?fd = Some ch"
      using new entry by (auto simp: index_defs)
    have same: "set_index ch KAdded p = set_index ch KAdded (p\<lparr>channels := (channels p)(?fd \<mapsto> ch)\<rparr>)"
      if "channels p ?fd = Some ch"
    proof -
      from that have "(channels p)(?fd \<mapsto> ch) = channels p" by auto
      then show ?thesis by simp
    qed
    have "poller_updateChannel tid l ctl ch p =
        poller_update ctl EPOLL_CTL_ADD ch (set_index ch KAdded (p\<lparr>channels := (channels p)(?fd \<mapsto> ch)\<rparr>))"
      using idx new entry same
      by (auto simp: poller_updateChannel_def guard_ok Let_def index_defs)
    with poller_add [OF inv con free refl False] False show ?thesis
      by (auto simp: unwatch_def)
  next
    case True
    then have e: "channels p ?fd = Some ch" using entry by (simp add: index_defs)
    show ?thesis
    proof (cases "isNoneEvent ?c")
      case True
      with poller_del [OF inv con \<open>ch_index ?c = KAdded\<close>, of KDeleted "channels p"] e
        \<open>ch_index ?c = KAdded\<close> show ?thesis
        by (auto simp: poller_updateChannel_def guard_ok Let_def index_defs unwatch_def set_index_def)
    next
      case False
      have "setIndex KAdded ?c = ?c" using \<open>ch_index ?c = KAdded\<close> by (simp add: setIndex_def)
      then have same: "(heap p)(ch := setIndex KAdded ?c) = heap p" by (metis fun_upd_triv)
      from False poller_mod [OF inv con \<open>ch_index ?c = KAdded\<close>] e \<open>ch_index ?c = KAdded\<close> show ?thesis
        by (auto simp: poller_updateChannel_def guard_ok Let_def KNew_def KDeleted_def KAdded_def
          unwatch_def same [unfolded KAdded_def])
    qed
  qed
qed

lemma removeChannel_ok:
  assumes inv: "poller_inv view p" and con: "epoll_contract ctl view" and guard: "threadPid l \<noteq> tid"
    and none: "isNoneEvent (heap p ch)" and idx: "ch_index (heap p ch) \<noteq> KNew"
  shows "\<exists>p'. poller_removeChannel tid l ctl ch p = Inr p' \<and> poller_inv view p' \<and>
    channels p' = (channels p)(ch_fd (heap p ch) := None) \<and>
    heap p' = (heap p)(ch := setIndex KNew (heap p ch)) \<and> view (epoll p') (ch_fd (heap p ch)) = None"
proof -
  let ?c = "heap p ch" and ?fd = "ch_fd (heap p ch)"
  let ?cs = "(channels p)(?fd := None)"
  have e: "channels p ?fd = Some ch" using poller_invD(2) [OF inv] idx by simp
  show ?thesis
  proof (cases "ch_index ?c = KAdded")
    case True
    with poller_del [OF inv con True, of KNew ?cs] e none guard show ?thesis
      by (auto simp: poller_removeChannel_def assertInLoopThread_pass Let_def set_index_def)
  next
    case False
    then have del: "ch_index ?c = KDeleted" using poller_invD(1) [OF inv, of ch] idx by simp
    let ?p = "set_index ch KNew (p\<lparr>channels := ?cs\<rparr>)"
    have other: "channels p f = Some c \<Longrightarrow> c \<noteq> ch \<Longrightarrow> f \<noteq> ?fd" for f c using e by auto
    have "poller_inv view ?p"
      unfolding poller_inv_def
    proof (intro conjI allI)
      fix c f
      show "ch_index (heap ?p c) \<in> {KNew, KAdded, KDeleted}"
        using poller_invD(1) [OF inv, of c] by (auto simp: set_index_def setIndex_def)
      show "channels ?p f = Some c \<longleftrightarrow> ch_fd (heap ?p c) = f \<and> ch_index (heap ?p c) \<noteq> KNew"
        using poller_invD(2) [OF inv, of f c] other [of f c] e by (auto simp: set_index_def setIndex_def)
      show "(\<exists>m. view (epoll ?p) f = Some (m, c)) \<longleftrightarrow>
          ch_fd (heap ?p c) = f \<and> ch_index (heap ?p c) = KAdded"
        using poller_invD(3) [OF inv, of f c] del
        by (auto simp: set_index_def setIndex_def index_defs)
    qed
    moreover have "view (epoll p) ?fd = None"
    proof (rule ccontr)
      assume "\<not> ?thesis"
      then obtain m c where "view (epoll p) ?fd = Some (m, c)" by auto
      then have c: "ch_fd (heap p c) = ?fd" "ch_index (heap p c) = KAdded"
        using poller_invD(3) [OF inv, of ?fd c] by blast+
      then have "channels p ?fd = Some c"
        using poller_invD(2) [OF inv, of ?fd c] by (simp add: index_defs)
      with e have "c = ch" by simp
      with c(2) del show False by (simp add: index_defs)
    qed
    ultimately show ?thesis using e none guard del
      by (simp add: poller_removeChannel_def assertInLoopThread_pass Let_def set_index_def index_defs)
  qed
qed

lemma poller_inv_heap:
  assumes "poller_inv view p" and "ch_fd c = ch_fd (heap p ch)" and "ch_index c = ch_index (heap p ch)"
  shows "poller_inv view (p\<lparr>heap := (heap p)(ch := c)\<rparr>)"
proof -
  have "ch_fd (((heap p)(ch := c)) x) = ch_fd (heap p x)"
    "ch_index (((heap p)(ch := c)) x) = ch_index (heap p x)" for x
    using assms(2,3) by simp_all
  then show ?thesis using assms(1) by (simp add: poller_inv_def)
qed

lemma poller_inv_events_size: "poller_inv view (p\<lparr>events_size := n\<rparr>) = poller_inv view p"
  by (simp add: poller_inv_def)

lemma fill_one_ok:
  assumes inv: "poller_inv view p" and ch: "ch_index (heap p ch) \<noteq> KNew"
  shows "fill_one (m, ch) (p, active) =
      Inr (p\<lparr>heap := (heap p)(ch := setRevent m (heap p ch))\<rparr>, active @ [ch])"
  using poller_invD(2) [OF inv, of "ch_fd (heap p ch)" ch] ch
  by (simp add: fill_one_def Let_def)

lemma fill_all_ok:
  assumes "poller_inv view p" and "\<forall>(m, ch) \<in> set evs. ch_index (heap p ch) \<noteq> KNew"
  shows "\<exists>p'. run_res fill_one evs (p, active) = Inr (p', active @ map snd evs) \<and> poller_inv view p' \<and>
    events_size p' = events_size p \<and> channels p' = channels p \<and> epoll p' = epoll p"
  using assms
proof (induction evs arbitrary: p active)
  case Nil
  then show ?case by simp
next
  case (Cons ev evs)
  obtain m ch where ev: "ev = (m, ch)" by (cases ev)
  let ?p = "p\<lparr>heap := (heap p)(ch := setRevent m (heap p ch))\<rparr>"
  have inv: "poller_inv view ?p"
    using Cons.prems(1) by (rule poller_inv_heap) (simp_all add: setRevent_def)
  have "\<forall>(m, c) \<in> set evs. ch_index (heap ?p c) \<noteq> KNew"
    using Cons.prems(2) by (auto simp: setRevent_def)
  from Cons.IH [OF inv this, of "active @ [ch]"]
    fill_one_ok [OF Cons.prems(1), of ch m active] Cons.prems(2) show ?case
    by (auto simp: ev)
qed

section \<open>Runs of the poller\<close>

text \<open>What the owner of a poller does: channels change their mask, are updated or removed,
  and rounds of \<open>poll\<close> take place. The second component collects the active channels.\<close>

datatype poller_op = Mask channel_ptr mask | Update channel_ptr | RemoveCh channel_ptr
  | Poll int "epoll_event list"

fun poller_step ::
  "pid \<Rightarrow> ('f, 'w) event_loop_scheme \<Rightarrow> 'k epoll_ctl \<Rightarrow> poller_op \<Rightarrow>
   ('cb, 'k) poller \<times> channel_ptr list \<Rightarrow> (('cb, 'k) poller \<times> channel_ptr list) res" where
  "poller_step tid l ctl (Mask ch m) (p, a) =
     Inr (p\<lparr>heap := (heap p)(ch := (heap p ch)\<lparr>events := m\<rparr>)\<rparr>, a)"
| "poller_step tid l ctl (Update ch) (p, a) =
     bind_res (poller_updateChannel tid l ctl ch p) (\<lambda>p'. Inr (p', a))"
| "poller_step tid l ctl (RemoveCh ch) (p, a) =
     bind_res (poller_removeChannel tid l ctl ch p) (\<lambda>p'. Inr (p', a))"
| "poller_step tid l ctl (Poll n evs) (p, a) = poll n evs (p, a)"

definition poller_good ::
  "'k epoll_ctl \<Rightarrow> ('k \<Rightarrow> int \<Rightarrow> epoll_event option) \<Rightarrow> ('cb, 'k) poller \<times> channel_ptr list \<Rightarrow> bool"
where
  "poller_good ctl view s \<longleftrightarrow> epoll_contract ctl view \<and> poller_inv view (fst s)"

lemma fill_keeps_inv:
  "poller_inv view (fst s) \<Longrightarrow> run_res fill_one evs s = Inr t \<Longrightarrow> poller_inv view (fst t)"
proof (induction evs arbitrary: s)
  case Nil
  then show ?case by simp
next
  case (Cons ev evs)
  then obtain u where u: "fill_one ev s = Inr u" "run_res fill_one evs u = Inr t"
    by (auto elim: bind_res_InrE)
  then have "poller_inv view (fst u)"
    using Cons.prems(1)
    by (auto simp: fill_one_def Let_def bind_res_eq_Inr setRevent_def intro!: poller_inv_heap
      split: prod.splits)
  from Cons.IH [OF this u(2)] show ?case .
qed

lemma poller_step_good:
  assumes "poller_good ctl view s" and "poller_step tid l ctl e s = Inr t"
  shows "poller_good ctl view t"
proof -
  obtain p a where s: "s = (p, a)" by (cases s)
  from assms(1) have con: "epoll_contract ctl view" and inv: "poller_inv view p"
    by (auto simp: poller_good_def s)
  have "poller_inv view (fst t)"
  proof (cases e)
    case (Mask ch m)
    with assms(2) inv show ?thesis by (auto simp: s intro!: poller_inv_heap)
  next
    case (Update ch)
    with assms(2) obtain p' where p': "poller_updateChannel tid l ctl ch p = Inr p'" "t = (p', a)"
      by (auto simp: s bind_res_eq_Inr)
    then have "threadPid l \<noteq> tid"
      and "ch_index (heap p ch) = KNew \<Longrightarrow> channels p (ch_fd (heap p ch)) = None"
      by (auto simp: poller_updateChannel_def Let_def bind_res_eq_Inr split: if_splits)
    from updateChannel_ok [OF inv con this] p' show ?thesis by auto
  next
    case (RemoveCh ch)
    with assms(2) obtain p' where p': "poller_removeChannel tid l ctl ch p = Inr p'" "t = (p', a)"
      by (auto simp: s bind_res_eq_Inr)
    then have "threadPid l \<noteq> tid" "isNoneEvent (heap p ch)" "ch_index (heap p ch) \<noteq> KNew"
      by (auto simp: poller_removeChannel_def Let_def bind_res_eq_Inr index_defs)
    from removeChannel_ok [OF inv con this] p' show ?thesis by auto
  next
    case (Poll n evs)
    show ?thesis
    proof (cases "0 < n")
      case True
      with assms(2) Poll obtain u where u: "run_res fill_one (take (nat n) evs) s = Inr u"
          and t: "fst t = fst u \<or> fst t = (fst u)\<lparr>events_size := events_size (fst u) * 2\<rparr>"
        by (auto simp: s poll_def fillActiveChannels_def bind_res_eq_Inr split: if_splits)
      have "poller_inv view (fst u)" using fill_keeps_inv [OF _ u] inv by (simp add: s)
      with t show ?thesis by (auto simp: poller_inv_events_size)
    next
      case False
      with assms(2) Poll inv show ?thesis by (auto simp: s poll_def)
    qed
  qed
  with con show ?thesis by (simp add: poller_good_def)
qed

interpretation pm: machine "poller_step tid l ctl" "poller_good ctl view" for tid l ctl view
  by unfold_locales (rule poller_step_good)

section \<open>What reaches a channel\<close>

text \<open>
  The life of a channel between its owner and the kernel: the owner changes the interest
  or a callback; a round of \<open>epoll_wait\<close> reports a mask, of which the kernel lets through
  the registered interest and the two bits it always reports, EPOLLERR and EPOLLHUP, and
  \<open>fillActiveChannels\<close> hands it to \<open>setRevent\<close>.
\<close>

datatype 'cb watch_op = Op channel_op | Report mask | SetRead "'cb option" | SetWrite "'cb option"
  | SetError "'cb option" | SetClose "'cb option"

fun watch_step ::
  "pid \<Rightarrow> ('f, 'w) event_loop_scheme \<Rightarrow> channel_ptr \<Rightarrow> 'cb watch_op \<Rightarrow> 'cb channel \<Rightarrow> 'cb channel res"
where
  "watch_step tid l this (Op op) c = channel_step tid l this op c"
| "watch_step tid l this (Report m) c = Inr (setRevent (m AND (events c OR POLLERR OR POLLHUP)) c)"
| "watch_step tid l this (SetRead cb) c = Inr (setReadEventCallback cb c)"
| "watch_step tid l this (SetWrite cb) c = Inr (setWriteEventCallback cb c)"
| "watch_step tid l this (SetError cb) c = Inr (setErrorEventCallback cb c)"
| "watch_step tid l this (SetClose cb) c = Inr (setCloseCallback cb c)"

definition never_writable :: "'cb channel \<Rightarrow> bool" where
  "never_writable c \<longleftrightarrow> channel_inv c \<and> revents c AND POLLOUT = 0"

lemma channel_step_revents:
  assumes "channel_step tid l this op c = Inr c'"
  shows "revents c' = revents c"
proof (cases op)
  case Remove
  with assms channel_remove_Inr [of tid l this c c'] show ?thesis by simp
qed (use assms in \<open>auto simp: channel_op_defs channel_update_Inr\<close>)

lemma report_not_writable:
  assumes "channel_inv c" and "r AND POLLOUT = 0"
  shows "(r OR m AND (events c OR POLLERR OR POLLHUP)) AND POLLOUT = 0"
proof -
  have none: "(r OR m AND e) AND POLLOUT = 0" if "e AND POLLOUT = 0" for e
  proof -
    have "(m AND e) AND POLLOUT = m AND (e AND POLLOUT)" by (rule and.assoc)
    also have "\<dots> = 0" by (simp only: that bit.conj_zero_right)
    finally show ?thesis using assms(2) by (simp only: bit.conj_disj_distrib2 or.left_neutral)
  qed
  have "(events c OR POLLERR OR POLLHUP) AND POLLOUT = 0"
    using assms(1) by (auto simp: channel_inv_def event_defs poll_defs)
  then show ?thesis by (rule none)
qed

lemma watch_step_writable:
  "never_writable c \<Longrightarrow> watch_step tid l this e c = Inr c' \<Longrightarrow> never_writable c'"
proof (cases e)
  case (Op op)
  assume "never_writable c" "watch_step tid l this e c = Inr c'"
  with Op show ?thesis
    using channel_step_inv [of c tid l this op c'] channel_step_revents [of tid l this op c c']
    by (simp add: never_writable_def)
next
  case (Report m)
  assume "never_writable c" "watch_step tid l this e c = Inr c'"
  with Report report_not_writable [of c "revents c" m] show ?thesis
    by (auto simp: never_writable_def setRevent_def channel_inv_def isNoneEvent_def)
qed (auto simp: never_writable_def channel_inv_def isNoneEvent_def channel_setter_defs)

interpretation wm: machine "watch_step tid l this" never_writable for tid l this
  by unfold_locales (rule watch_step_writable)

definition keeps_bits :: "mask \<Rightarrow> 'cb channel \<Rightarrow> bool" where
  "keeps_bits m c \<longleftrightarrow> revents c AND m = m"

lemma watch_step_bits:
  "keeps_bits m c \<Longrightarrow> watch_step tid l this e c = Inr c' \<Longrightarrow> keeps_bits m c'"
proof (cases e)
  case (Op op)
  assume "keeps_bits m c" "watch_step tid l this e c = Inr c'"
  with Op channel_step_revents [of tid l this op c c'] show ?thesis by (simp add: keeps_bits_def)
next
  case (Report r)
  assume k: "keeps_bits m c" "watch_step tid l this e c = Inr c'"
  have "(a OR b) AND m = m" if "a AND m = m" for a b :: mask
    using that by (metis bit.conj_disj_distrib2 or.commute word_bw_comms(1) word_ao_absorbs(2))
  with k Report show ?thesis by (auto simp: keeps_bits_def setRevent_def)
qed (auto simp: keeps_bits_def channel_setter_defs)

interpretation sm: machine "watch_step tid l this" "keeps_bits m" for tid l this m
  by unfold_locales (rule watch_step_bits)

lemma fill_all_heap:
  "run_res fill_one evs (p, a) = Inr (p', a') \<Longrightarrow>
    heap p' ch = fold setRevent (map fst (filter (\<lambda>e. snd e = ch) evs)) (heap p ch)"
proof (induction evs arbitrary: p a)
  case Nil
  then show ?case by simp
next
  case (Cons ev evs)
  obtain m c where ev: "ev = (m, c)" by (cases ev)
  let ?p = "p\<lparr>heap := (heap p)(c := setRevent m (heap p c))\<rparr>"
  from Cons.prems obtain u where "fill_one (m, c) (p, a) = Inr u"
      and run: "run_res fill_one evs u = Inr (p', a')"
    by (auto simp: ev elim: bind_res_InrE)
  from this(1) have "u = (?p, a @ [c])"
    by (simp add: fill_one_def Let_def bind_res_eq_Inr)
  with run have "run_res fill_one evs (?p, a @ [c]) = Inr (p', a')" by simp
  from Cons.IH [OF this] show ?case by (simp add: ev)
qed

section \<open>Properties\<close>

text \<open>C5: The poller's books stay consistent: whatever sequence of mask changes, updates, removals
  and polls is run on a fresh poller (all channels new, nothing watched), as long as it does
  not abort, channels_ holds exactly the channels whose index is not "new", under their
  descriptor, and the kernel watches exactly the channels whose index is "added", with a
  pointer to that channel.\<close>

theorem poller_runs_consistent:
  assumes "epoll_contract ctl view"
    and "Poller_ctor epollfd h k = Inr p0" and "\<forall>ch. ch_index (h ch) = KNew" and "view k = Map.empty"
    and "run_res (poller_step tid l ctl) es (p0, []) = Inr (p, active)"
  shows "(channels p fd = Some ch \<longleftrightarrow> ch_fd (heap p ch) = fd \<and> ch_index (heap p ch) \<noteq> KNew) \<and>
    ((\<exists>m. view (epoll p) fd = Some (m, ch)) \<longleftrightarrow>
       ch_fd (heap p ch) = fd \<and> ch_index (heap p ch) = KAdded)"
proof -
  have "poller_good ctl view (p0, [])"
    using assms(1-4) by (auto simp: poller_good_def poller_inv_def Poller_ctor_def index_defs
      split: if_splits)
  from pm.run_inv [OF this assms(5)] have "poller_inv view p" by (simp add: poller_good_def)
  then show ?thesis using poller_invD(2,3) by blast
qed

definition sample_heap :: "channel_ptr \<Rightarrow> nat channel" where
  "sample_heap = (\<lambda>ch. (new_channel 0 (int ch))\<lparr>readCallback := Some ch\<rparr>)"

definition sample_poller :: "(nat, int \<Rightarrow> epoll_event option) poller" where
  "sample_poller = \<lparr>channels = Map.empty, events_size = 16, heap = sample_heap, epoll = Map.empty\<rparr>"

lemma sample_poller_ctor: "Poller_ctor 3 sample_heap Map.empty = Inr sample_poller"
  by (simp add: Poller_ctor_def sample_poller_def KInitEventListSize_def)

lemma sample_poller_run:
  "\<exists>p. run_res (poller_step 8 sample_loop list_epoll) [Mask 5 1, Update 5] (sample_poller, []) =
     Inr (p, []) \<and> ch_index (heap p 5) = KAdded \<and> ch_fd (heap p 5) = 5"
  by (simp add: poller_updateChannel_def poller_update_def assertInLoopThread_pass sample_loop_def
      sample_poller_def sample_heap_def new_channel_def index_defs set_index_def setIndex_def Let_def)

lemma poller_runs_consistent_witness:
  "\<exists>p. run_res (poller_step 8 sample_loop list_epoll) [Mask 5 1, Update 5] (sample_poller, []) =
     Inr (p, []) \<and> channels p 5 = Some 5 \<and> (\<exists>m. epoll p 5 = Some (m, 5))"
proof -
  obtain p where p: "run_res (poller_step 8 sample_loop list_epoll) [Mask 5 1, Update 5]
      (sample_poller, []) = Inr (p, [])"
    and i: "ch_index (heap p 5) = KAdded" and f: "ch_fd (heap p 5) = 5"
    using sample_poller_run by blast
  have "\<forall>ch. ch_index (sample_heap ch) = KNew"
    by (simp add: sample_heap_def new_channel_def KNew_def)
  from poller_runs_consistent [OF list_epoll_contract sample_poller_ctor this refl p, of 5 5] p i f
  show ?thesis by (simp add: index_defs)
qed

text \<open>updateChannel does what epoll needs: on a consistent poller it never aborts for a
  channel that is known or whose descriptor is free, keeps the poller consistent, adds a new
  or deleted channel to the kernel with its mask, changes the mask of an added one, and takes
  an added channel with an empty mask out of the kernel, keeping it in channels_ as deleted.
  A new channel on a descriptor that is taken trips the assert.\<close>

theorem updateChannel_outcome:
  assumes "poller_inv view p" and "epoll_contract ctl view" and "threadPid l \<noteq> tid"
    and "fd = ch_fd (heap p ch)" and "gone = (ch_index (heap p ch) = KAdded \<and> isNoneEvent (heap p ch))"
  shows "if ch_index (heap p ch) = KNew \<and> channels p fd \<noteq> None
    then poller_updateChannel tid l ctl ch p = Inl AssertFailed
    else \<exists>p'. poller_updateChannel tid l ctl ch p = Inr p' \<and> poller_inv view p' \<and>
      channels p' fd = Some ch \<and> ch_index (heap p' ch) = (if gone then KDeleted else KAdded) \<and>
      view (epoll p') fd = (if gone then None else Some (events (heap p ch), ch))"
proof (cases "ch_index (heap p ch) = KNew \<and> channels p fd \<noteq> None")
  case True
  with assms(3,4) show ?thesis
    by (auto simp: poller_updateChannel_def assertInLoopThread_pass Let_def)
next
  case False
  with updateChannel_ok [OF assms(1-3), of ch] show ?thesis
    unfolding assms(4,5) by (auto simp: setIndex_def)
qed

lemma sample_poller_inv: "poller_inv (\<lambda>k. k) sample_poller"
  by (simp add: poller_inv_def sample_poller_def sample_heap_def new_channel_def index_defs)

lemma updateChannel_outcome_witness:
  "\<exists>p'. poller_updateChannel 8 sample_loop list_epoll 5 sample_poller = Inr p' \<and>
    channels p' 5 = Some 5 \<and> ch_index (heap p' 5) = KAdded \<and> epoll p' 5 = Some (0, 5)"
proof -
  have "threadPid sample_loop \<noteq> 8" and "5 = ch_fd (heap sample_poller 5)"
      and "False = (ch_index (heap sample_poller 5) = KAdded \<and> isNoneEvent (heap sample_poller 5))"
      and "channels sample_poller 5 = None" and "events (heap sample_poller 5) = 0"
    by (simp_all add: sample_loop_def sample_poller_def sample_heap_def new_channel_def index_defs)
  with updateChannel_outcome [OF sample_poller_inv list_epoll_contract this(1-3)]
  show ?thesis by auto
qed

text \<open>C16: poll delivers: for events that epoll_wait returns about channels it watches, at most as
  many as the event array holds, no assert trips; the active list grows by exactly those
  channels in the kernel's order, every channel gets the reported bits added to its returned
  events and is otherwise unchanged, the books stay consistent, and the event array doubles
  when it was filled.\<close>

theorem poll_delivers:
  assumes "poller_inv view p" and "evs \<noteq> []" and "length evs \<le> events_size p"
    and "\<forall>(m, ch) \<in> set evs. view (epoll p) (ch_fd (heap p ch)) = Some (events (heap p ch), ch)"
  shows "\<exists>p'. poll (int (length evs)) evs (p, active) = Inr (p', active @ map snd evs) \<and>
    poller_inv view p' \<and> channels p' = channels p \<and> epoll p' = epoll p \<and>
    (\<forall>ch. heap p' ch = fold setRevent (map fst (filter (\<lambda>e. snd e = ch) evs)) (heap p ch)) \<and>
    events_size p' = (if length evs = events_size p then 2 else 1) * events_size p"
proof -
  have "ch_index (heap p ch) \<noteq> KNew" if "(m, ch) \<in> set evs" for m ch
    using that assms(4) poller_invD(3) [OF assms(1), of "ch_fd (heap p ch)" ch]
    by (auto simp: index_defs)
  then have "\<forall>(m, ch) \<in> set evs. ch_index (heap p ch) \<noteq> KNew" by blast
  from fill_all_ok [OF assms(1) this] obtain p' where
    p': "run_res fill_one evs (p, active) = Inr (p', active @ map snd evs)" and
    rest: "poller_inv view p'" "events_size p' = events_size p" "channels p' = channels p"
      "epoll p' = epoll p" by blast
  have "\<forall>ch. heap p' ch = fold setRevent (map fst (filter (\<lambda>e. snd e = ch) evs)) (heap p ch)"
    using fill_all_heap [OF p'] by blast
  then show ?thesis using p' rest assms(2,3)
    by (auto simp: poll_def fillActiveChannels_def poller_inv_events_size)
qed

lemma poll_delivers_witness:
  "\<exists>(p :: (nat, int \<Rightarrow> epoll_event option) poller) p'. poll 1 [(1, 5)] (p, []) = Inr (p', [5]) \<and> ch_fd (heap p 5) = 5 \<and>
    revents (heap p' 5) = revents (heap p 5) OR 1"
proof -
  let ?c = "(sample_heap 5)\<lparr>events := 1, ch_index := KAdded\<rparr>"
  let ?p = "sample_poller\<lparr>channels := [5 \<mapsto> 5], heap := sample_heap(5 := ?c), epoll := [5 \<mapsto> (1, 5)]\<rparr>"
  have inv: "poller_inv (\<lambda>k. k) ?p"
    by (auto simp: poller_inv_def sample_poller_def sample_heap_def new_channel_def index_defs)
  have h: "heap ?p 5 = ?c" by simp
  from poll_delivers [OF inv, of "[(1, 5)]" "[]"] obtain p' where
    "poll 1 [(1, 5)] (?p, []) = Inr (p', [5])" and "heap p' 5 = setRevent 1 ?c"
    by (auto simp: sample_poller_def sample_heap_def new_channel_def)
  then have "poll 1 [(1, 5)] (?p, []) = Inr (p', [5]) \<and> ch_fd (heap ?p 5) = 5 \<and>
      revents (heap p' 5) = revents (heap ?p 5) OR 1"
    by (simp add: setRevent_def sample_heap_def new_channel_def)
  then show ?thesis by blast
qed

text \<open>A channel never learns that it can write: enableWriting asks for bit 2, which is
  EPOLLPRI, so however a channel is used and whatever is reported to it within its interest,
  the write callback is not among the callbacks its events call for.\<close>

theorem write_callback_never_runs:
  assumes "run_res (watch_step tid l this) es (new_channel loop fd) = Inr c"
  shows "dispatch_list c = dispatch_list (c\<lparr>writeCallback := None\<rparr>)"
proof -
  have "never_writable (new_channel loop fd)"
    by (simp add: never_writable_def) (simp add: new_channel_def)
  from wm.run_inv [OF this assms] show ?thesis
    by (simp add: never_writable_def dispatch_list_def option_list_def)
qed

lemma write_callback_never_runs_witness:
  "\<exists>c. run_res (watch_step 8 sample_loop 0)
      [SetWrite (Some (2 :: nat)), Op EnableWriting, Report 0xFF] (new_channel 0 4) = Inr c \<and>
    writeCallback c = Some 2 \<and> isWriting c \<and> dispatch_list c = dispatch_list (c\<lparr>writeCallback := None\<rparr>)"
proof -
  let ?es = "[SetWrite (Some (2 :: nat)), Op EnableWriting, Report 0xFF]"
  obtain c where c: "run_res (watch_step 8 sample_loop 0) ?es (new_channel 0 4) = Inr c"
    and "writeCallback c = Some 2" "isWriting c"
    by (simp add: channel_setter_defs channel_op_defs channel_update_eq sample_loop_def
      new_channel_def event_defs setRevent_def isWriting_def)
  with write_callback_never_runs [OF c] show ?thesis by blast
qed

text \<open>Returned events are sticky: no operation ever clears a bit of revents_ and setRevent
  adds to it, so once readable data has been reported to a channel, every later dispatch of
  the channel runs its read callback, whatever is reported then.\<close>

theorem read_event_sticky:
  assumes "run_res (watch_step tid l this) es c = Inr c'" and "revents c AND POLLIN \<noteq> 0"
    and "readCallback c' = Some cb"
  shows "revents c' AND revents c = revents c \<and> cb \<in> set (dispatch_list c')"
proof -
  have "keeps_bits (revents c) c" by (simp add: keeps_bits_def)
  from sm.run_inv [OF this assms(1)] have sub: "revents c' AND revents c = revents c"
    by (simp add: keeps_bits_def)
  have "revents c AND POLLIN = revents c AND (revents c' AND POLLIN)"
    by (metis sub and.assoc and.commute)
  with assms(2) have pollin: "revents c' AND POLLIN \<noteq> 0" by auto
  have zero: "revents c' AND POLLIN = 0" if "revents c' AND e = 0" "e AND POLLIN = POLLIN" for e
  proof -
    have "(revents c' AND e) AND POLLIN = revents c' AND (e AND POLLIN)" by (rule and.assoc)
    then show ?thesis by (simp only: that bit.conj_zero_left)
  qed
  have bits: "(POLLIN OR POLLPRI OR POLLRDHUP) AND POLLIN = POLLIN"
    by (simp add: poll_defs)
  have "revents c' AND (POLLIN OR POLLPRI OR POLLRDHUP) \<noteq> 0"
    using zero [OF _ bits] pollin by (rule contrapos_nn [rotated])
  then have "option_list (revents c' AND (POLLIN OR POLLPRI OR POLLRDHUP) \<noteq> 0) (readCallback c') = [cb]"
    by (simp only: option_list_def assms(3) if_True option.case not_False_eq_True)
  then have "cb \<in> set (dispatch_list c')"
    unfolding dispatch_list_def by (simp only: set_append Un_iff list.set insertI1 simp_thms)
  with sub show ?thesis by blast
qed

lemma read_event_sticky_witness:
  "\<exists>c'. run_res (watch_step 8 sample_loop 0) [Report 0] (sample_channel\<lparr>revents := 1\<rparr>) = Inr c' \<and>
    1 \<in> set (dispatch_list c')"
proof -
  let ?c = "sample_channel\<lparr>revents := 1\<rparr>"
  have run: "run_res (watch_step 8 sample_loop 0) [Report 0] ?c = Inr ?c"
    by (simp add: setRevent_def)
  have "revents ?c AND POLLIN \<noteq> 0" "readCallback ?c = Some 1"
    by (simp_all add: POLLIN_def sample_channel_def)
  from read_event_sticky [OF run this] run show ?thesis by auto
qed

end
