(* ===== verification/ThreadPool.thy ===== *)
theory ThreadPool
  imports EventLoop
begin

text \<open>
  class EventLoopThread (network/include/network/EventLoopThread.h,
  network/src/EventLoopThread.cc) and class EventLoopThreadPool
  (network/include/network/EventLoopThreadPool.h, network/src/EventLoopThreadPool.cc).

  \<^item> A thread of the pool and its owner are two program counters over the shared \<open>loop_\<close>;
    every access under \<open>mutex_\<close> is one step of the relation \<open>elt_step\<close>. What \<open>loop.loop()\<close>
    does in the new thread is an argument, an outcome of \<open>loop_body\<close>: it stops with an
    error (the process dies), returns, or (\<open>None\<close>) runs on.
  \<^item> The destructor is a part of the owner: it asks the loop to quit and joins the thread if
    \<open>loop_\<close> is set. Otherwise \<open>thread_\<close> is destroyed as it is, and the destructor of a
    \<open>std::thread\<close> that was started and not joined ends the process (\<open>Terminated\<close>).
  \<^item> \<open>pool\<close> is the pool object. \<open>startLoop\<close> of the i-th thread is an argument of \<open>pool_start\<close>.
\<close>

section \<open>A thread and its owner\<close>

datatype worker_pc = Unborn | Constructed | Publishing | Looping | LoopReturned | Finished | Aborted
datatype owner_pc = NotStarted | Waiting | Returned loop_ptr | Joining | Destroyed | Terminated

record elt =
  elt_loop :: "loop_ptr option"
  owner_pc :: owner_pc
  worker_pc :: worker_pc
  init_calls :: "loop_ptr list"
  quits :: "loop_ptr list"

definition EventLoopThread_ctor :: elt where
  "EventLoopThread_ctor = \<lparr>elt_loop = None, owner_pc = NotStarted, worker_pc = Unborn, init_calls = [],
     quits = []\<rparr>"

text \<open>
  \<open>fresh\<close> is the address of the EventLoop on the new thread's stack, \<open>has_cb\<close> tells whether
  \<open>callback_\<close> is set, \<open>out\<close> is what \<open>loop.loop()\<close> comes to. A process that has aborted
  makes no step.
\<close>

inductive elt_step :: "loop_ptr \<Rightarrow> bool \<Rightarrow> 'l res option \<Rightarrow> elt \<Rightarrow> elt \<Rightarrow> bool"
  for fresh has_cb out where
  spawn: "owner_pc s = NotStarted \<Longrightarrow>
    elt_step fresh has_cb out s (s\<lparr>owner_pc := Waiting, worker_pc := Constructed\<rparr>)"
| wake: "owner_pc s = Waiting \<Longrightarrow> elt_loop s = Some l \<Longrightarrow> worker_pc s \<noteq> Aborted \<Longrightarrow>
    elt_step fresh has_cb out s (s\<lparr>owner_pc := Returned l\<rparr>)"
| init: "worker_pc s = Constructed \<Longrightarrow>
    elt_step fresh has_cb out s
      (s\<lparr>worker_pc := Publishing,
         init_calls := (if has_cb then init_calls s @ [fresh] else init_calls s)\<rparr>)"
| publish: "worker_pc s = Publishing \<Longrightarrow>
    elt_step fresh has_cb out s (s\<lparr>worker_pc := Looping, elt_loop := Some fresh\<rparr>)"
| returns: "worker_pc s = Looping \<Longrightarrow> out = Some (Inr r) \<Longrightarrow>
    elt_step fresh has_cb out s (s\<lparr>worker_pc := LoopReturned\<rparr>)"
| aborts: "worker_pc s = Looping \<Longrightarrow> out = Some (Inl e) \<Longrightarrow>
    elt_step fresh has_cb out s (s\<lparr>worker_pc := Aborted\<rparr>)"
| clear: "worker_pc s = LoopReturned \<Longrightarrow>
    elt_step fresh has_cb out s (s\<lparr>worker_pc := Finished, elt_loop := None\<rparr>)"
| destroy_quit: "owner_pc s = Returned l' \<Longrightarrow> elt_loop s = Some l \<Longrightarrow> worker_pc s \<noteq> Aborted \<Longrightarrow>
    elt_step fresh has_cb out s (s\<lparr>owner_pc := Joining, quits := quits s @ [l]\<rparr>)"
| destroy_joined: "owner_pc s = Joining \<Longrightarrow> worker_pc s = Finished \<Longrightarrow>
    elt_step fresh has_cb out s (s\<lparr>owner_pc := Destroyed\<rparr>)"
| destroy_unstarted: "owner_pc s = NotStarted \<Longrightarrow>
    elt_step fresh has_cb out s (s\<lparr>owner_pc := Destroyed\<rparr>)"
| destroy_unjoined: "owner_pc s = Returned l' \<Longrightarrow> elt_loop s = None \<Longrightarrow> worker_pc s \<noteq> Aborted \<Longrightarrow>
    elt_step fresh has_cb out s (s\<lparr>owner_pc := Terminated\<rparr>)"

inductive_cases elt_stepE: "elt_step fresh has_cb out s t"
inductive_simps elt_step_simps: "elt_step fresh has_cb out s t"

inductive elt_reach :: "loop_ptr \<Rightarrow> bool \<Rightarrow> 'l res option \<Rightarrow> elt \<Rightarrow> bool" for fresh has_cb out where
  start: "elt_reach fresh has_cb out EventLoopThread_ctor"
| step: "elt_reach fresh has_cb out s \<Longrightarrow> elt_step fresh has_cb out s t \<Longrightarrow> elt_reach fresh has_cb out t"

definition elt_inv :: "loop_ptr \<Rightarrow> bool \<Rightarrow> 'l res option \<Rightarrow> elt \<Rightarrow> bool" where
  "elt_inv fresh has_cb out s \<longleftrightarrow>
     (owner_pc s = NotStarted \<longrightarrow> worker_pc s = Unborn) \<and>
     (worker_pc s = Unborn \<longrightarrow> owner_pc s \<in> {NotStarted, Destroyed}) \<and>
     (owner_pc s \<in> {Joining, Terminated} \<longrightarrow> worker_pc s \<notin> {Unborn, Constructed, Publishing}) \<and>
     (owner_pc s = Terminated \<longrightarrow> worker_pc s = Finished \<and> quits s = []) \<and>
     (owner_pc s = Destroyed \<longrightarrow> worker_pc s = Unborn \<and> quits s = [] \<or> worker_pc s = Finished \<and> quits s = [fresh]) \<and>
     (owner_pc s = Joining \<longrightarrow> quits s = [fresh]) \<and>
     (owner_pc s \<in> {NotStarted, Waiting} \<union> range Returned \<longrightarrow> quits s = []) \<and>
     (worker_pc s \<in> {Looping, LoopReturned, Aborted} \<longleftrightarrow> elt_loop s \<noteq> None) \<and>
     (\<forall>l. elt_loop s = Some l \<longrightarrow> l = fresh) \<and>
     (\<forall>l. owner_pc s = Returned l \<longrightarrow> l = fresh \<and> worker_pc s \<notin> {Unborn, Constructed, Publishing}) \<and>
     init_calls s = (if has_cb \<and> worker_pc s \<notin> {Unborn, Constructed} then [fresh] else []) \<and>
     (worker_pc s \<in> {LoopReturned, Finished} \<longrightarrow> (\<exists>r. out = Some (Inr r))) \<and>
     (worker_pc s = Aborted \<longrightarrow> (\<exists>e. out = Some (Inl e)))"

lemma elt_step_inv:
  "elt_step fresh has_cb out s t \<Longrightarrow> elt_inv fresh has_cb out s \<Longrightarrow> elt_inv fresh has_cb out t"
  by (cases "worker_pc s"; erule elt_stepE) (auto simp: elt_inv_def)

lemma elt_reach_inv: "elt_reach fresh has_cb out s \<Longrightarrow> elt_inv fresh has_cb out s"
proof (induction rule: elt_reach.induct)
  case start
  then show ?case by (simp add: elt_inv_def EventLoopThread_ctor_def)
qed (rule elt_step_inv)

section \<open>The pool\<close>

record pool =
  pool_baseloop :: loop_ptr
  pool_name :: string
  pool_started :: bool
  numThreads :: int
  pool_next :: int
  pool_loops :: "loop_ptr list"

definition EventLoopThreadPool_ctor :: "loop_ptr \<Rightarrow> string \<Rightarrow> pool" where
  "EventLoopThreadPool_ctor baseloop name =
     \<lparr>pool_baseloop = baseloop, pool_name = name, pool_started = False, numThreads = 0,
      pool_next = 0, pool_loops = []\<rparr>"

definition serthreadnum :: "int \<Rightarrow> pool \<Rightarrow> pool" where
  "serthreadnum num p = p\<lparr>numThreads := num\<rparr>"

text \<open>
  The second component of the result lists the loops the callback was called on by \<open>start\<close>
  itself (the threads call it on theirs). \<open>startLoop i\<close> is what the i-th \<open>startLoop()\<close>
  returned.
\<close>

definition pool_start ::
  "pid \<Rightarrow> ('f, 'w) event_loop_scheme \<Rightarrow> (nat \<Rightarrow> loop_ptr) \<Rightarrow> bool \<Rightarrow> pool \<Rightarrow>
   (pool \<times> loop_ptr list) res" where
  "pool_start tid base startLoop has_cb p =
     bind_res (assert_res (\<not> pool_started p)) (\<lambda>_.
     let p1 = p\<lparr>pool_started := True\<rparr> in
     bind_res (assertInLoopThread tid base) (\<lambda>_.
     let p2 = p1\<lparr>pool_loops := pool_loops p1 @ map startLoop [0..<nat (numThreads p1)]\<rparr> in
     Inr (p2, if numThreads p2 = 0 \<and> has_cb then [pool_baseloop p2] else [])))"

definition loop_at :: "loop_ptr list \<Rightarrow> int \<Rightarrow> loop_ptr res" where
  "loop_at ls i = (if 0 \<le> i \<and> nat i < length ls then Inr (ls ! nat i) else Inl OutOfBounds)"

definition getNextEventLoop ::
  "pid \<Rightarrow> ('f, 'w) event_loop_scheme \<Rightarrow> pool \<Rightarrow> (loop_ptr \<times> pool) res" where
  "getNextEventLoop tid base p =
     bind_res (assertInLoopThread tid base) (\<lambda>_.
     bind_res (assert_res (pool_started p)) (\<lambda>_.
     if pool_loops p \<noteq> [] then
       bind_res (loop_at (pool_loops p) (pool_next p)) (\<lambda>loop.
       let p1 = p\<lparr>pool_next := pool_next p + 1\<rparr> in
       Inr (loop, if pool_next p1 > int (length (pool_loops p1)) then p1\<lparr>pool_next := 0\<rparr> else p1))
     else Inr (pool_baseloop p, p)))"

definition getEventLoopHash ::
  "pid \<Rightarrow> ('f, 'w) event_loop_scheme \<Rightarrow> size_t \<Rightarrow> pool \<Rightarrow> loop_ptr res" where
  "getEventLoopHash tid base hashcode p =
     bind_res (assertInLoopThread tid base) (\<lambda>_.
     bind_res (assert_res (pool_started p)) (\<lambda>_.
     if pool_loops p \<noteq> [] then loop_at (pool_loops p) (int (unat hashcode mod length (pool_loops p)))
     else Inr (pool_baseloop p)))"

definition getallEventLoops ::
  "pid \<Rightarrow> ('f, 'w) event_loop_scheme \<Rightarrow> pool \<Rightarrow> loop_ptr list res" where
  "getallEventLoops tid base p =
     bind_res (assertInLoopThread tid base) (\<lambda>_.
     bind_res (assert_res (pool_started p)) (\<lambda>_.
     if pool_loops p \<noteq> [] then Inr (pool_loops p) else Inr [pool_baseloop p]))"

text \<open>\<open>k\<close> calls of \<open>getNextEventLoop\<close> in a row, with the loops they returned.\<close>

fun next_loops ::
  "pid \<Rightarrow> ('f, 'w) event_loop_scheme \<Rightarrow> nat \<Rightarrow> pool \<Rightarrow> (loop_ptr list \<times> pool) res" where
  "next_loops tid base 0 p = Inr ([], p)"
| "next_loops tid base (Suc k) p =
     bind_res (getNextEventLoop tid base p) (\<lambda>(loop, p1).
     bind_res (next_loops tid base k p1) (\<lambda>(loops, p2). Inr (loop # loops, p2)))"

lemma getNextEventLoop_step:
  assumes "threadPid base \<noteq> tid" and "pool_started p" and "pool_next p = int i"
    and "i < length (pool_loops p)"
  shows "getNextEventLoop tid base p = Inr (pool_loops p ! i, p\<lparr>pool_next := int (Suc i)\<rparr>)"
proof -
  from assms(4) have "pool_loops p \<noteq> []" by auto
  with assms show ?thesis
    by (simp add: getNextEventLoop_def assertInLoopThread_pass loop_at_def)
qed

lemma next_loops_from:
  assumes "threadPid base \<noteq> tid" and "pool_started p" and "pool_next p = int i"
    and "i + k \<le> length (pool_loops p)"
  shows "next_loops tid base k p =
    Inr (take k (drop i (pool_loops p)), p\<lparr>pool_next := int (i + k)\<rparr>)"
  using assms
proof (induction k arbitrary: p i)
  case 0
  then show ?case by simp
next
  case (Suc k)
  then have i: "i < length (pool_loops p)" by simp
  have ih: "next_loops tid base k (p\<lparr>pool_next := int (Suc i)\<rparr>) =
      Inr (take k (drop (Suc i) (pool_loops p)), p\<lparr>pool_next := int (Suc i + k)\<rparr>)"
    using Suc.IH [of "p\<lparr>pool_next := int (Suc i)\<rparr>" "Suc i"] Suc.prems by simp
  from i show ?case
    by (simp add: getNextEventLoop_step [OF Suc.prems(1-3) i] ih [simplified] Cons_nth_drop_Suc [symmetric])
qed

lemma next_loops_add:
  "next_loops tid base (j + k) p =
    bind_res (next_loops tid base j p) (\<lambda>(xs, p1).
    bind_res (next_loops tid base k p1) (\<lambda>(ys, p2). Inr (xs @ ys, p2)))"
proof (induction j arbitrary: p)
  case 0
  then show ?case by (cases "next_loops tid base k p") auto
next
  case (Suc j)
  show ?case
  proof (cases "getNextEventLoop tid base p")
    case (Inr r)
    then obtain loop p1 where r: "r = (loop, p1)" by (cases r)
    show ?thesis
    proof (cases "next_loops tid base j p1")
      case (Inr u)
      then obtain xs p2 where "u = (xs, p2)" by (cases u)
      with Inr \<open>getNextEventLoop tid base p = Inr r\<close> show ?thesis
        by (cases "next_loops tid base k p2") (auto simp: r Suc.IH)
    qed (use \<open>getNextEventLoop tid base p = Inr r\<close> in \<open>simp add: r Suc.IH\<close>)
  qed simp
qed

section \<open>Properties\<close>

text \<open>C32: startLoop hands out only a loop that is ready: in every interleaving of the owner and
  the new thread, when startLoop has returned a loop it is the new thread's one, the thread
  has published it, and the init callback, if there is one, has run on it exactly once.\<close>

theorem startLoop_returns_ready_loop:
  assumes "elt_reach fresh has_cb out s" and "owner_pc s = Returned l"
  shows "l = fresh \<and> worker_pc s \<notin> {Unborn, Constructed, Publishing} \<and>
    init_calls s = (if has_cb then [l] else [])"
  using elt_reach_inv [OF assms(1)] assms(2) by (auto simp: elt_inv_def)

definition elt_ready :: elt where
  "elt_ready = \<lparr>elt_loop = Some 5, owner_pc = Returned 5, worker_pc = Looping, init_calls = [5], quits = []\<rparr>"

lemma elt_ready_reach: "elt_reach 5 True out elt_ready"
proof -
  let ?s1 = "EventLoopThread_ctor\<lparr>owner_pc := Waiting, worker_pc := Constructed\<rparr>"
  have "elt_reach 5 True out ?s1"
    by (rule elt_reach.step [OF elt_reach.start], rule elt_step.spawn)
      (simp add: EventLoopThread_ctor_def)
  then have "elt_reach 5 True out (?s1\<lparr>worker_pc := Publishing, init_calls := [5]\<rparr>)"
    by (rule elt_reach.step) (simp add: elt_step_simps EventLoopThread_ctor_def)
  then have "elt_reach 5 True out
      (?s1\<lparr>worker_pc := Publishing, init_calls := [5], worker_pc := Looping, elt_loop := Some 5\<rparr>)"
    by (rule elt_reach.step) (simp add: elt_step_simps EventLoopThread_ctor_def)
  then show ?thesis
    by (rule elt_reach.step) (simp add: elt_step_simps EventLoopThread_ctor_def elt_ready_def)
qed

lemma startLoop_returns_ready_loop_witness:
  "owner_pc elt_ready = Returned 5 \<and> init_calls elt_ready = [5] \<and> worker_pc elt_ready \<noteq> Publishing"
proof -
  have "owner_pc elt_ready = Returned 5" by (simp add: elt_ready_def)
  with startLoop_returns_ready_loop [OF elt_ready_reach [of "None :: unit res option"] this]
  show ?thesis by simp
qed

text \<open>The threads of the pool never get to serve their loop: the loop belongs to the thread
  that runs it, so its \<open>loop()\<close> aborts, and in no interleaving does the thread return from
  the loop or take its pointer back; once it has got that far, the only step left besides
  startLoop returning is the abort of the process.\<close>

theorem pool_thread_aborts:
  assumes "\<not> looping l" and "elt_reach fresh has_cb (loop_body (threadPid l) handle exec l) s"
  shows "worker_pc s \<notin> {LoopReturned, Finished} \<and>
    (worker_pc s = Looping \<longrightarrow> elt_step fresh has_cb (loop_body (threadPid l) handle exec l) s
       (s\<lparr>worker_pc := Aborted\<rparr>))"
proof -
  have out: "loop_body (threadPid l) handle exec l = Some (Inl FatalLog)"
    using assms(1) by (simp add: loop_body_def assertInLoopThread_abort)
  from elt_reach_inv [OF assms(2)] show ?thesis
    unfolding out by (auto simp: elt_inv_def intro: elt_step.aborts)
qed

lemma pool_thread_aborts_witness:
  "\<not> looping sample_loop \<and>
   elt_step 5 True (loop_body 7 (\<lambda>p l. Inr l) (\<lambda>f l. Inr l) sample_loop) elt_ready
     (elt_ready\<lparr>worker_pc := Aborted\<rparr>)"
proof -
  have "\<not> looping sample_loop" by (simp add: sample_loop_def)
  from pool_thread_aborts [OF this elt_ready_reach, of "\<lambda>p l. Inr l" "\<lambda>f l. Inr l"] this
  show ?thesis by (simp add: elt_ready_def sample_loop_def)
qed



text \<open>getNextEventLoop goes round robin through the threads once and then runs off the list:
  of a freshly started pool of \<open>n > 0\<close> loops, \<open>k \<le> n\<close> calls return the first \<open>k\<close> loops in
  order, and every longer run ends in a read beyond the list, because the wrap-around tests
  for greater than the size. getEventLoopHash always stays inside, for every hash code.\<close>

theorem next_loop_runs_off:
  assumes "threadPid base \<noteq> tid" and "0 < n"
    and "pool_start tid base startLoop has_cb (serthreadnum (int n) (EventLoopThreadPool_ctor b nm)) =
      Inr (p, calls)"
  shows "(if k \<le> n then \<exists>q. next_loops tid base k p = Inr (map startLoop [0..<k], q)
      else next_loops tid base k p = Inl OutOfBounds) \<and>
    getEventLoopHash tid base h p = Inr (startLoop (unat h mod n))"
proof -
  have p: "pool_started p" "pool_next p = int 0" "pool_loops p = map startLoop [0..<n]"
    using assms(3) by (auto simp: pool_start_def serthreadnum_def EventLoopThreadPool_ctor_def
      bind_res_eq_Inr Let_def)
  have hash: "getEventLoopHash tid base h p = Inr (startLoop (unat h mod n))"
    using assms(1,2) p by (simp add: getEventLoopHash_def assertInLoopThread_pass loop_at_def)
  show ?thesis
  proof (cases "k \<le> n")
    case True
    with next_loops_from [OF assms(1) p(1,2), of k] hash p(3) show ?thesis
      by (simp add: take_map)
  next
    case False
    then obtain m where k: "k = n + Suc m" by (metis less_iff_Suc_add add_Suc_right not_le)
    have "getNextEventLoop tid base (p\<lparr>pool_next := int n\<rparr>) = Inl OutOfBounds"
      using assms(1,2) p by (simp add: getNextEventLoop_def assertInLoopThread_pass loop_at_def)
    then have "next_loops tid base k p = Inl OutOfBounds"
      using next_loops_from [OF assms(1) p(1,2), of n] p(3)
      unfolding k next_loops_add by simp
    with False hash show ?thesis by simp
  qed
qed

lemma next_loop_runs_off_witness:
  "\<exists>p. pool_start 8 sample_loop (\<lambda>i. 10 + i) False (serthreadnum 2 (EventLoopThreadPool_ctor 0 ''p'')) =
     Inr (p, []) \<and> next_loops 8 sample_loop 3 p = Inl OutOfBounds \<and>
     getEventLoopHash 8 sample_loop 7 p = Inr 11"
proof -
  obtain p where p: "pool_start 8 sample_loop (\<lambda>i. 10 + i) False
      (serthreadnum (int 2) (EventLoopThreadPool_ctor 0 ''p'')) = Inr (p, [])"
    by (simp add: pool_start_def serthreadnum_def EventLoopThreadPool_ctor_def
      assertInLoopThread_pass sample_loop_def Let_def)
  have "threadPid sample_loop \<noteq> 8" by (simp add: sample_loop_def)
  from next_loop_runs_off [OF this _ p, of 3 7] p show ?thesis by simp
qed

end
