(* ===== verification/Endian.thy ===== *)
theory Endian
  imports Prelude
begin

unbundle bit_operations_syntax

text \<open>
  The byte-order helpers of network/include/network/Endian.h. The C library's
  \<open>htobe16/32\<close>, \<open>be16toh/be32toh\<close>, \<open>htole64\<close> and \<open>le64toh\<close> depend on the byte order
  of the host, so the host is an argument: everything below holds on either kind.
  \<open>mem\<close> is the object representation of an unsigned integer (what \<open>memcpy\<close> or a
  \<open>const void*\<close> cast sees), \<open>of_mem\<close> its inverse. A signed C++ integer is the word
  with the same bits; \<open>sint\<close> reads it.
\<close>

section \<open>Object representations\<close>

datatype host = LittleEndianHost | BigEndianHost

primrec bytes_le :: "nat \<Rightarrow> 'a::len word \<Rightarrow> byte list" where
  "bytes_le 0 w = []"
| "bytes_le (Suc n) w = ucast w # bytes_le n (drop_bit 8 w)"

primrec of_bytes_le :: "byte list \<Rightarrow> 'a::len word" where
  "of_bytes_le [] = 0"
| "of_bytes_le (b # bs) = ucast b OR push_bit 8 (of_bytes_le bs)"

definition mem :: "host \<Rightarrow> nat \<Rightarrow> 'a::len word \<Rightarrow> byte list" where
  "mem h n w = (case h of LittleEndianHost \<Rightarrow> bytes_le n w | BigEndianHost \<Rightarrow> rev (bytes_le n w))"

definition of_mem :: "host \<Rightarrow> byte list \<Rightarrow> 'a::len word" where
  "of_mem h bs = (case h of LittleEndianHost \<Rightarrow> of_bytes_le bs | BigEndianHost \<Rightarrow> of_bytes_le (rev bs))"

definition bswap :: "nat \<Rightarrow> 'a::len word \<Rightarrow> 'a word" where
  "bswap n w = of_bytes_le (rev (bytes_le n w))"

lemma length_bytes_le [simp]: "length (bytes_le n w) = n"
  by (induction n arbitrary: w) simp_all

lemma bytes_le_numeral:
  "bytes_le (numeral k) w = ucast w # bytes_le (pred_numeral k) (drop_bit 8 w)"
  by (simp add: numeral_eq_Suc)

lemma length_mem [simp]: "length (mem h n w) = n"
  by (simp add: mem_def split: host.split)

lemma of_bytes_le_bytes_le_take: "of_bytes_le (bytes_le n w) = take_bit (8 * n) w"
proof (induction n arbitrary: w)
  case 0
  then show ?case by simp
next
  case (Suc n)
  have "ucast (ucast w :: byte) OR push_bit 8 (take_bit (8 * n) (drop_bit 8 w)) =
      take_bit (8 * Suc n) w"
    by (rule bit_word_eqI) (auto simp: bit_simps)
  with Suc show ?case by simp
qed

lemma of_bytes_le_bytes_le:
  "LENGTH('a) \<le> 8 * n \<Longrightarrow> of_bytes_le (bytes_le n (w :: 'a::len word)) = w"
  by (simp add: of_bytes_le_bytes_le_take take_bit_word_eq_self)

lemma bytes_le_of_bytes_le:
  "8 * length bs \<le> LENGTH('a) \<Longrightarrow> bytes_le (length bs) (of_bytes_le bs :: 'a::len word) = bs"
proof (induction bs)
  case Nil
  then show ?case by simp
next
  case (Cons b bs)
  let ?r = "of_bytes_le bs :: 'a word"
  from Cons.prems have len: "8 * length bs + 8 \<le> LENGTH('a)" by simp
  have hd_eq: "ucast (ucast b OR push_bit 8 ?r) = b"
    using len by (intro bit_word_eqI) (auto simp: bit_simps)
  have r: "?r = take_bit (8 * length bs) ?r"
  proof -
    have "of_bytes_le (bytes_le (length bs) ?r) = take_bit (8 * length bs) ?r"
      by (rule of_bytes_le_bytes_le_take)
    moreover have "bytes_le (length bs) ?r = bs"
      using len by (intro Cons.IH) simp
    ultimately show ?thesis by simp
  qed
  have "drop_bit 8 (ucast b OR push_bit 8 ?r) = ?r"
  proof (rule bit_word_eqI)
    fix k assume k: "k < LENGTH('a)"
    have "bit ?r k \<longleftrightarrow> k < 8 * length bs \<and> bit ?r k"
      using r by (metis bit_take_bit_iff)
    with len k show "bit (drop_bit 8 (ucast b OR push_bit 8 ?r)) k = bit ?r k"
      by (auto simp: bit_simps dest: bit_imp_le_length)
  qed
  moreover have "bytes_le (length bs) ?r = bs"
    using len by (intro Cons.IH) simp
  ultimately show ?case using hd_eq by simp
qed

lemma bytes_le_bswap:
  "LENGTH('a) = 8 * n \<Longrightarrow> bytes_le n (bswap n (w :: 'a::len word)) = rev (bytes_le n w)"
  using bytes_le_of_bytes_le [of "rev (bytes_le n w)", where 'a = 'a]
  by (simp add: bswap_def)

lemma bswap_bswap: "LENGTH('a) = 8 * n \<Longrightarrow> bswap n (bswap n (w :: 'a::len word)) = w"
  by (subst bswap_def) (simp add: bytes_le_bswap of_bytes_le_bytes_le)

lemma of_mem_mem: "LENGTH('a) = 8 * n \<Longrightarrow> of_mem h (mem h n (w :: 'a::len word)) = w"
  by (simp add: of_mem_def mem_def of_bytes_le_bytes_le split: host.split)

lemma mem_of_mem:
  "LENGTH('a) = 8 * length bs \<Longrightarrow> mem h (length bs) (of_mem h bs :: 'a::len word) = bs"
  using bytes_le_of_bytes_le [of bs, where 'a = 'a] bytes_le_of_bytes_le [of "rev bs", where 'a = 'a]
  by (auto simp: of_mem_def mem_def split: host.split)

section \<open>The conversions\<close>

text \<open>\<open>htobe\<close> and \<open>htole\<close> of the C library; \<open>be..toh\<close> and \<open>le..toh\<close> are the same maps.\<close>

definition htobe :: "host \<Rightarrow> nat \<Rightarrow> 'a::len word \<Rightarrow> 'a word" where
  "htobe h n w = (case h of LittleEndianHost \<Rightarrow> bswap n w | BigEndianHost \<Rightarrow> w)"

definition htole :: "host \<Rightarrow> nat \<Rightarrow> 'a::len word \<Rightarrow> 'a word" where
  "htole h n w = (case h of LittleEndianHost \<Rightarrow> w | BigEndianHost \<Rightarrow> bswap n w)"

definition host_to_net_16 :: "host \<Rightarrow> 16 word \<Rightarrow> 16 word" where
  "host_to_net_16 h host_16 = htobe h 2 host_16"

definition host_to_net_32 :: "host \<Rightarrow> 32 word \<Rightarrow> 32 word" where
  "host_to_net_32 h host_32 = htobe h 4 host_32"

definition host_to_net_64 :: "host \<Rightarrow> 64 word \<Rightarrow> 64 word" where
  "host_to_net_64 h host_64 = htole h 8 host_64"

definition net_to_host_16 :: "host \<Rightarrow> 16 word \<Rightarrow> 16 word" where
  "net_to_host_16 h net_16 = htobe h 2 net_16"

definition net_to_host_32 :: "host \<Rightarrow> 32 word \<Rightarrow> 32 word" where
  "net_to_host_32 h net_32 = htobe h 4 net_32"

definition net_to_host_64 :: "host \<Rightarrow> 64 word \<Rightarrow> 64 word" where
  "net_to_host_64 h net_64 = htole h 8 net_64"

lemma htobe_htobe: "LENGTH('a) = 8 * n \<Longrightarrow> htobe h n (htobe h n (w :: 'a::len word)) = w"
  by (simp add: htobe_def bswap_bswap split: host.split)

lemma htole_htole: "LENGTH('a) = 8 * n \<Longrightarrow> htole h n (htole h n (w :: 'a::len word)) = w"
  by (simp add: htole_def bswap_bswap split: host.split)

lemma mem_htobe: "LENGTH('a) = 8 * n \<Longrightarrow> mem h n (htobe h n (w :: 'a::len word)) = rev (bytes_le n w)"
  by (simp add: mem_def htobe_def bytes_le_bswap split: host.split)

lemma mem_htole: "LENGTH('a) = 8 * n \<Longrightarrow> mem h n (htole h n (w :: 'a::len word)) = bytes_le n w"
  by (simp add: mem_def htole_def bytes_le_bswap split: host.split)

lemma net_host_16 [simp]: "net_to_host_16 h (host_to_net_16 h x) = x"
  by (simp add: net_to_host_16_def host_to_net_16_def htobe_htobe)

lemma net_host_32 [simp]: "net_to_host_32 h (host_to_net_32 h x) = x"
  by (simp add: net_to_host_32_def host_to_net_32_def htobe_htobe)

lemma net_host_64 [simp]: "net_to_host_64 h (host_to_net_64 h x) = x"
  by (simp add: net_to_host_64_def host_to_net_64_def htole_htole)

lemma mem_host_to_net_16: "mem h 2 (host_to_net_16 h x) = rev (bytes_le 2 x)"
  by (simp add: host_to_net_16_def mem_htobe)

lemma mem_host_to_net_32: "mem h 4 (host_to_net_32 h x) = rev (bytes_le 4 x)"
  by (simp add: host_to_net_32_def mem_htobe)

lemma mem_host_to_net_64: "mem h 8 (host_to_net_64 h x) = bytes_le 8 x"
  by (simp add: host_to_net_64_def mem_htole)

end
