(* ===== verification/Buffer.thy ===== *)
theory Buffer
  imports Endian
begin

text \<open>
  class Buffer (network/include/network/Buffer.h, network/src/Buffer.cc): a
  \<open>std::vector<char>\<close> with a read and a write index, both \<open>size_t\<close>.

  \<^item> \<open>buffer\<close> is the object; \<open>buf_inv\<close> is the picture of the header comment
    (0 \<open>\<le>\<close> readerIndex \<open>\<le>\<close> writerIndex \<open>\<le>\<close> size) with room for the cheap prepend;
    \<open>content\<close> is the readable segment.
  \<^item> Every operation is translated with its asserts; an access outside the vector is
    \<open>OutOfBounds\<close>, a \<open>resize\<close> beyond \<open>max_size()\<close> is \<open>LengthError\<close>.
  \<^item> \<open>std::copy\<close> inside the vector is the loop it is (\<open>copy_loop\<close>), one element at a
    time; \<open>copy_loop_left\<close> shows that the overlapping move of \<open>makespace\<close> is a move.
  \<^item> The library's byte stream interface (locale \<open>byte_stream\<close>) states what the users
    of a buffer rely on; it is interpreted on \<open>append\<close> and \<open>retrieve\<close> at the end.

  The constructor is declared in Buffer.h and defined nowhere, so an initial buffer is
  always an argument of the definitions that need one.
\<close>

section \<open>The object\<close>

record buffer =
  buffer_vec :: "byte list"
  readerIndex :: size_t
  writeIndex :: size_t

definition KCheapPrependSize :: size_t where
  "KCheapPrependSize = 8"

definition KinitialBufferSize :: size_t where
  "KinitialBufferSize = 1024 * 4"

text \<open>\<open>std::vector<char>::max_size()\<close> on a 64-bit platform is \<open>PTRDIFF_MAX\<close>.\<close>

definition vector_max_size :: nat where
  "vector_max_size = 2 ^ 63 - 1"

definition vector_size :: "buffer \<Rightarrow> size_t" where
  "vector_size b = of_nat (length (buffer_vec b))"

definition readableBytes :: "buffer \<Rightarrow> size_t" where
  "readableBytes b = writeIndex b - readerIndex b"

definition writeableBytes :: "buffer \<Rightarrow> size_t" where
  "writeableBytes b = vector_size b - writeIndex b"

definition prependableBytes :: "buffer \<Rightarrow> size_t" where
  "prependableBytes b = readerIndex b"

definition buffer_Size :: "buffer \<Rightarrow> size_t" where
  "buffer_Size b = vector_size b"

section \<open>The memory operations the class uses\<close>

text \<open>Reading and writing \<open>n\<close> bytes at an offset of the vector.\<close>

definition read_at :: "byte list \<Rightarrow> size_t \<Rightarrow> size_t \<Rightarrow> byte list res" where
  "read_at v off n =
     (if unat off + unat n \<le> length v then Inr (take (unat n) (drop (unat off) v))
      else Inl OutOfBounds)"

definition write_at :: "byte list \<Rightarrow> size_t \<Rightarrow> byte list \<Rightarrow> byte list res" where
  "write_at v off data =
     (if unat off + length data \<le> length v then Inr (splice (unat off) data v)
      else Inl OutOfBounds)"

text \<open>\<open>std::copy(v + s, v + s + n, v + d)\<close>, element by element from the front.\<close>

fun copy_loop :: "byte list \<Rightarrow> nat \<Rightarrow> nat \<Rightarrow> nat \<Rightarrow> byte list res" where
  "copy_loop v s d 0 = Inr v"
| "copy_loop v s d (Suc n) =
     (if s < length v \<and> d < length v then copy_loop (v[d := v ! s]) (Suc s) (Suc d) n
      else Inl OutOfBounds)"

definition std_copy :: "byte list \<Rightarrow> size_t \<Rightarrow> size_t \<Rightarrow> size_t \<Rightarrow> byte list res" where
  "std_copy v src_first src_last dest =
     (if src_first \<le> src_last
      then copy_loop v (unat src_first) (unat dest) (unat src_last - unat src_first)
      else Inl OutOfBounds)"

text \<open>\<open>vector::resize\<close>: truncate, or append value-initialised elements.\<close>

definition vector_resize :: "byte list \<Rightarrow> size_t \<Rightarrow> byte list res" where
  "vector_resize v n =
     (if unat n \<le> vector_max_size
      then Inr (take (unat n) v @ replicate (unat n - length v) 0)
      else Inl LengthError)"

section \<open>Reading\<close>

definition retrieveAll :: "buffer \<Rightarrow> buffer" where
  "retrieveAll b = b\<lparr>readerIndex := KCheapPrependSize, writeIndex := KCheapPrependSize\<rparr>"

definition retrieve :: "size_t \<Rightarrow> buffer \<Rightarrow> buffer res" where
  "retrieve len b =
     bind_res (assert_res (len \<le> readableBytes b)) (\<lambda>_.
       if len < readableBytes b then Inr (b\<lparr>readerIndex := readerIndex b + len\<rparr>)
       else Inr (retrieveAll b))"

definition retrieveInt64 :: "buffer \<Rightarrow> buffer res" where
  "retrieveInt64 b = retrieve 8 b"

definition retrieveInt32 :: "buffer \<Rightarrow> buffer res" where
  "retrieveInt32 b = retrieve 4 b"

definition retrieveInt16 :: "buffer \<Rightarrow> buffer res" where
  "retrieveInt16 b = retrieve 2 b"

definition retrieveInt8 :: "buffer \<Rightarrow> buffer res" where
  "retrieveInt8 b = retrieve 1 b"

text \<open>Both overloads of \<open>retrieveAllAsString\<close>: with a length and without.\<close>

definition retrieveAsString :: "size_t \<Rightarrow> buffer \<Rightarrow> (byte list \<times> buffer) res" where
  "retrieveAsString len b =
     bind_res (assert_res (len \<le> readableBytes b)) (\<lambda>_.
     bind_res (read_at (buffer_vec b) (readerIndex b) len) (\<lambda>result.
     bind_res (retrieve len b) (\<lambda>b'. Inr (result, b'))))"

definition retrieveAllAsString :: "buffer \<Rightarrow> (byte list \<times> buffer) res" where
  "retrieveAllAsString b = retrieveAsString (readableBytes b) b"

section \<open>Writing\<close>

definition hasWritten :: "size_t \<Rightarrow> buffer \<Rightarrow> buffer res" where
  "hasWritten len b =
     bind_res (assert_res (len \<le> writeableBytes b)) (\<lambda>_.
       Inr (b\<lparr>writeIndex := writeIndex b + len\<rparr>))"

definition unWrite :: "size_t \<Rightarrow> buffer \<Rightarrow> buffer res" where
  "unWrite len b =
     bind_res (assert_res (len \<le> readableBytes b)) (\<lambda>_.
       Inr (b\<lparr>writeIndex := writeIndex b - len\<rparr>))"

definition makespace :: "size_t \<Rightarrow> buffer \<Rightarrow> buffer res" where
  "makespace len b =
     (if writeableBytes b + prependableBytes b < len + KCheapPrependSize
      then bind_res (vector_resize (buffer_vec b) (writeIndex b + len)) (\<lambda>v.
             Inr (b\<lparr>buffer_vec := v\<rparr>))
      else
        bind_res (assert_res (KCheapPrependSize < readerIndex b)) (\<lambda>_.
        let readable = readableBytes b in
        bind_res (std_copy (buffer_vec b) (readerIndex b) (writeIndex b) KCheapPrependSize) (\<lambda>v.
        let b' = b\<lparr>buffer_vec := v, readerIndex := KCheapPrependSize,
                   writeIndex := KCheapPrependSize + readable\<rparr> in
        bind_res (assert_res (readable = readableBytes b')) (\<lambda>_. Inr b'))))"

definition ensureWriteableBytes :: "size_t \<Rightarrow> buffer \<Rightarrow> buffer res" where
  "ensureWriteableBytes len b =
     bind_res (if writeableBytes b < len then makespace len b else Inr b) (\<lambda>b'.
     bind_res (assert_res (writeableBytes b' \<ge> len)) (\<lambda>_. Inr b'))"

text \<open>\<open>beginWrite\<close> is the write position; \<open>append\<close> copies the data there.\<close>

definition append :: "byte list \<Rightarrow> buffer \<Rightarrow> buffer res" where
  "append data b =
     bind_res (ensureWriteableBytes (of_nat (length data)) b) (\<lambda>b1.
     bind_res (write_at (buffer_vec b1) (writeIndex b1) data) (\<lambda>v.
     hasWritten (of_nat (length data)) (b1\<lparr>buffer_vec := v\<rparr>)))"

definition prepend :: "byte list \<Rightarrow> buffer \<Rightarrow> buffer res" where
  "prepend data b =
     bind_res (assert_res (of_nat (length data) \<le> prependableBytes b)) (\<lambda>_.
     let b1 = b\<lparr>readerIndex := readerIndex b - of_nat (length data)\<rparr> in
     bind_res (write_at (buffer_vec b1) (readerIndex b1) data) (\<lambda>v.
     Inr (b1\<lparr>buffer_vec := v\<rparr>)))"

section \<open>Integers in network order\<close>

definition appendInt64 :: "host \<Rightarrow> 64 word \<Rightarrow> buffer \<Rightarrow> buffer res" where
  "appendInt64 h x b = append (mem h 8 (host_to_net_64 h x)) b"

definition appendInt32 :: "host \<Rightarrow> 32 word \<Rightarrow> buffer \<Rightarrow> buffer res" where
  "appendInt32 h x b = append (mem h 4 (host_to_net_32 h x)) b"

definition appendInt16 :: "host \<Rightarrow> 16 word \<Rightarrow> buffer \<Rightarrow> buffer res" where
  "appendInt16 h x b = append (mem h 2 (host_to_net_16 h x)) b"

definition appendInt8 :: "8 word \<Rightarrow> buffer \<Rightarrow> buffer res" where
  "appendInt8 x b = append [x] b"

definition peekInt64 :: "host \<Rightarrow> buffer \<Rightarrow> 64 word res" where
  "peekInt64 h b =
     bind_res (assert_res (readableBytes b \<ge> 8)) (\<lambda>_.
     bind_res (read_at (buffer_vec b) (readerIndex b) 8) (\<lambda>bs.
     Inr (net_to_host_64 h (of_mem h bs))))"

definition peekInt32 :: "host \<Rightarrow> buffer \<Rightarrow> 32 word res" where
  "peekInt32 h b =
     bind_res (assert_res (readableBytes b \<ge> 4)) (\<lambda>_.
     bind_res (read_at (buffer_vec b) (readerIndex b) 4) (\<lambda>bs.
     Inr (net_to_host_32 h (of_mem h bs))))"

definition peekInt16 :: "host \<Rightarrow> buffer \<Rightarrow> 16 word res" where
  "peekInt16 h b =
     bind_res (assert_res (readableBytes b \<ge> 2)) (\<lambda>_.
     bind_res (read_at (buffer_vec b) (readerIndex b) 2) (\<lambda>bs.
     Inr (net_to_host_16 h (of_mem h bs))))"

definition peekInt8 :: "buffer \<Rightarrow> 8 word res" where
  "peekInt8 b =
     bind_res (assert_res (readableBytes b \<ge> 1)) (\<lambda>_.
     bind_res (read_at (buffer_vec b) (readerIndex b) 1) (\<lambda>bs. Inr (hd bs)))"

definition readInt64 :: "host \<Rightarrow> buffer \<Rightarrow> (64 word \<times> buffer) res" where
  "readInt64 h b =
     bind_res (peekInt64 h b) (\<lambda>result. bind_res (retrieveInt64 b) (\<lambda>b'. Inr (result, b')))"

definition readInt32 :: "host \<Rightarrow> buffer \<Rightarrow> (32 word \<times> buffer) res" where
  "readInt32 h b =
     bind_res (peekInt32 h b) (\<lambda>result. bind_res (retrieveInt32 b) (\<lambda>b'. Inr (result, b')))"

definition readInt16 :: "host \<Rightarrow> buffer \<Rightarrow> (16 word \<times> buffer) res" where
  "readInt16 h b =
     bind_res (peekInt16 h b) (\<lambda>result. bind_res (retrieveInt16 b) (\<lambda>b'. Inr (result, b')))"

definition readInt8 :: "buffer \<Rightarrow> (8 word \<times> buffer) res" where
  "readInt8 b =
     bind_res (peekInt8 b) (\<lambda>result. bind_res (retrieveInt8 b) (\<lambda>b'. Inr (result, b')))"

definition prependInt64 :: "host \<Rightarrow> 64 word \<Rightarrow> buffer \<Rightarrow> buffer res" where
  "prependInt64 h x b = prepend (mem h 8 (host_to_net_64 h x)) b"

definition prependInt32 :: "host \<Rightarrow> 32 word \<Rightarrow> buffer \<Rightarrow> buffer res" where
  "prependInt32 h x b = prepend (mem h 4 (host_to_net_32 h x)) b"

definition prependInt16 :: "host \<Rightarrow> 16 word \<Rightarrow> buffer \<Rightarrow> buffer res" where
  "prependInt16 h x b = prepend (mem h 2 (host_to_net_16 h x)) b"

definition prependInt8 :: "8 word \<Rightarrow> buffer \<Rightarrow> buffer res" where
  "prependInt8 x b = prepend [x] b"

section \<open>readFd\<close>

text \<open>
  \<open>::readv\<close> fills the iovecs in order: first the writable part of the vector, then the
  1 MiB \<open>extrabuf\<close> on the stack when the vector has less room than that. The outcome
  of the system call is an argument: \<open>Inl errno\<close>, or \<open>Inr\<close> the bytes it delivered,
  at most \<open>readv_capacity\<close> of them. The result is the returned \<open>ssize_t\<close>, the value
  stored through \<open>saveerrno\<close> if any, and the buffer.
\<close>

definition extrabuf_size :: size_t where
  "extrabuf_size = 1024 * 1024"

definition readv_capacity :: "buffer \<Rightarrow> nat" where
  "readv_capacity b =
     (if writeableBytes b < extrabuf_size
      then unat (writeableBytes b) + unat extrabuf_size else unat (writeableBytes b))"

definition readFd :: "int + byte list \<Rightarrow> buffer \<Rightarrow> (int \<times> int option \<times> buffer) res" where
  "readFd outcome b =
     (let writeable = writeableBytes b in
      case outcome of
        Inl errno \<Rightarrow> Inr (-1, Some errno, b)
      | Inr data \<Rightarrow>
          let n = length data; filled = take (unat writeable) data;
              extrabuf = drop (unat writeable) data in
          bind_res (write_at (buffer_vec b) (writeIndex b) filled) (\<lambda>v.
          let b1 = b\<lparr>buffer_vec := v\<rparr> in
          if (of_nat n :: size_t) \<le> writeable
          then Inr (int n, None, b1\<lparr>writeIndex := writeIndex b1 + of_nat n\<rparr>)
          else bind_res (append extrabuf (b1\<lparr>writeIndex := vector_size b1\<rparr>)) (\<lambda>b2.
                 Inr (int n, None, b2))))"

section \<open>Invariant and readable segment\<close>

definition buf_inv :: "buffer \<Rightarrow> bool" where
  "buf_inv b \<longleftrightarrow>
     unat (readerIndex b) \<le> unat (writeIndex b) \<and> unat (writeIndex b) \<le> length (buffer_vec b) \<and>
     unat KCheapPrependSize \<le> length (buffer_vec b) \<and> length (buffer_vec b) \<le> vector_max_size"

definition content :: "buffer \<Rightarrow> byte list" where
  "content b = drop (unat (readerIndex b)) (take (unat (writeIndex b)) (buffer_vec b))"

lemma unat_KCheap [simp]: "unat KCheapPrependSize = 8"
  by (simp add: KCheapPrependSize_def)

lemma buf_invI:
  assumes "unat (readerIndex b) \<le> unat (writeIndex b)"
    and "unat (writeIndex b) \<le> length (buffer_vec b)"
    and "8 \<le> length (buffer_vec b)" and "length (buffer_vec b) \<le> vector_max_size"
  shows "buf_inv b"
  using assms by (simp add: buf_inv_def)

lemma buf_invD:
  assumes "buf_inv b"
  shows "unat (readerIndex b) \<le> unat (writeIndex b)"
    and "unat (writeIndex b) \<le> length (buffer_vec b)"
    and "8 \<le> length (buffer_vec b)" and "length (buffer_vec b) < 2 ^ 63"
    and "length (buffer_vec b) \<le> vector_max_size"
  using assms by (auto simp: buf_inv_def vector_max_size_def)

lemma length_content [simp]:
  "buf_inv b \<Longrightarrow> length (content b) = unat (writeIndex b) - unat (readerIndex b)"
  by (simp add: content_def buf_inv_def)

lemma unat_readable: "buf_inv b \<Longrightarrow> unat (readableBytes b) = length (content b)"
  using buf_invD(1) [of b] by (simp add: readableBytes_def size_simps)

lemma unat_vector_size: "buf_inv b \<Longrightarrow> unat (vector_size b) = length (buffer_vec b)"
  using buf_invD(4) [of b] by (simp add: vector_size_def unat_of_nat_size)

lemma unat_writeable:
  "buf_inv b \<Longrightarrow> unat (writeableBytes b) = length (buffer_vec b) - unat (writeIndex b)"
  using buf_invD(2) [of b]
  by (simp add: writeableBytes_def unat_sub_size le_size_iff unat_vector_size)

lemmas buffer_sizes = unat_readable unat_vector_size unat_writeable

section \<open>The overlapping copy\<close>

lemma copy_loop_left:
  "d \<le> s \<Longrightarrow> s + n \<le> length v \<Longrightarrow> copy_loop v s d n = Inr (splice d (take n (drop s v)) v)"
proof (induction n arbitrary: v s d)
  case 0
  then show ?case by simp
next
  case (Suc n)
  let ?v = "v[d := v ! s]"
  have "copy_loop v s d (Suc n) = copy_loop ?v (Suc s) (Suc d) n"
    using Suc.prems by simp
  also have "\<dots> = Inr (splice (Suc d) (take n (drop (Suc s) ?v)) ?v)"
    using Suc.prems by (intro Suc.IH) simp_all
  also have "splice (Suc d) (take n (drop (Suc s) ?v)) ?v = splice d (take (Suc n) (drop s v)) v"
  proof -
    have "take (Suc d) ?v = take d v @ [v ! s]"
      using Suc.prems by (simp add: take_Suc_conv_app_nth)
    moreover have "drop (Suc s) ?v = drop (Suc s) v"
      using Suc.prems by (simp add: drop_update_cancel)
    moreover have "take (Suc n) (drop s v) = v ! s # take n (drop (Suc s) v)"
      using Suc.prems by (simp add: Cons_nth_drop_Suc [symmetric])
    ultimately show ?thesis
      using Suc.prems by (simp add: splice_def drop_update_cancel)
  qed
  finally show ?case .
qed

section \<open>Correctness of the operations\<close>

lemma vector_resize_grow:
  assumes "unat n \<le> vector_max_size" and "length v \<le> unat n"
  shows "vector_resize v n = Inr (v @ replicate (unat n - length v) 0)"
  using assms by (simp add: vector_resize_def)

text \<open>
  The bytes a buffer can take: enough free space once the readable segment is moved to
  the front, or a vector that may grow to the required size.
\<close>

definition buffer_fits :: "nat \<Rightarrow> buffer \<Rightarrow> bool" where
  "buffer_fits n b \<longleftrightarrow>
     unat (writeIndex b) + n \<le> vector_max_size \<or>
     n + 8 \<le> unat (writeableBytes b) + unat (readerIndex b)"

lemma makespace_guard:
  assumes inv: "buf_inv b" and len: "unat len < 2 ^ 63"
  shows "writeableBytes b + prependableBytes b < len + KCheapPrependSize \<longleftrightarrow>
    unat (writeableBytes b) + unat (readerIndex b) < unat len + 8"
proof -
  note D = buf_invD [OF inv]
  have "unat (writeableBytes b + prependableBytes b) = unat (writeableBytes b) + unat (readerIndex b)"
    using D unat_writeable [OF inv] by (subst unat_add_size) (simp_all add: prependableBytes_def)
  moreover have "unat (len + KCheapPrependSize) = unat len + 8"
    using len by (subst unat_add_size) simp_all
  ultimately show ?thesis by (simp only: less_size_iff)
qed

lemma makespace_grow:
  assumes inv: "buf_inv b" and small: "unat (writeableBytes b) < unat len"
    and tight: "unat (writeableBytes b) + unat (readerIndex b) < unat len + 8"
    and fits: "unat (writeIndex b) + unat len \<le> vector_max_size"
  shows "\<exists>b'. makespace len b = Inr b' \<and> buf_inv b' \<and> content b' = content b \<and>
    unat (writeableBytes b') = unat len \<and> writeIndex b' = writeIndex b"
proof -
  let ?v = "buffer_vec b" and ?w = "unat (writeIndex b)"
  note D = buf_invD [OF inv]
  have wl: "unat (writeIndex b + len) = ?w + unat len"
    using fits by (intro unat_add_size) (simp add: vector_max_size_def)
  have grow: "length ?v \<le> unat (writeIndex b + len)"
    using small D wl unat_writeable [OF inv] by simp
  define b' where "b' = b\<lparr>buffer_vec := ?v @ replicate (?w + unat len - length ?v) 0\<rparr>"
  have "unat len < 2 ^ 63" using fits by (simp add: vector_max_size_def)
  then have "makespace len b = Inr b'"
    using grow fits tight
    by (simp add: makespace_def makespace_guard [OF inv] vector_resize_grow wl b'_def)
  moreover have inv': "buf_inv b'"
    using D fits grow wl by (intro buf_invI) (simp_all add: b'_def)
  moreover have "content b' = content b"
    using D by (simp add: content_def b'_def)
  moreover have "unat (writeableBytes b') = unat len"
    using grow wl unat_writeable [OF inv'] by (simp add: b'_def)
  ultimately show ?thesis by (auto simp: b'_def)
qed

lemma makespace_too_long:
  assumes inv: "buf_inv b" and len: "unat len < 2 ^ 63"
    and tight: "unat (writeableBytes b) + unat (readerIndex b) < unat len + 8"
    and long: "vector_max_size < unat (writeIndex b) + unat len"
  shows "makespace len b = Inl LengthError"
proof -
  have "unat (writeIndex b + len) = unat (writeIndex b) + unat len"
    using len buf_invD [OF inv] by (intro unat_add_size) simp
  with long tight show ?thesis
    by (simp add: makespace_def makespace_guard [OF inv len] vector_resize_def)
qed

lemma makespace_move:
  assumes inv: "buf_inv b" and small: "unat (writeableBytes b) < unat len"
    and len: "unat len < 2 ^ 63"
    and roomy: "unat len + 8 \<le> unat (writeableBytes b) + unat (readerIndex b)"
  shows "\<exists>b'. makespace len b = Inr b' \<and> buf_inv b' \<and> content b' = content b \<and>
    unat len \<le> unat (writeableBytes b') \<and> unat (writeIndex b') \<le> unat (writeIndex b)"
proof -
  let ?v = "buffer_vec b" and ?r = "unat (readerIndex b)" and ?w = "unat (writeIndex b)"
  note D = buf_invD [OF inv]
  have r8: "8 < ?r" using small roomy by simp
  define v' where "v' = splice 8 (take (?w - ?r) (drop ?r ?v)) ?v"
  define b' where "b' = b\<lparr>buffer_vec := v', readerIndex := KCheapPrependSize,
      writeIndex := KCheapPrependSize + readableBytes b\<rparr>"
  have copy: "std_copy ?v (readerIndex b) (writeIndex b) KCheapPrependSize = Inr v'"
    using D r8 by (simp add: std_copy_def le_size_iff copy_loop_left v'_def)
  have w': "unat (KCheapPrependSize + readableBytes b) = 8 + (?w - ?r)"
    using D unat_readable [OF inv] by (subst unat_add_size) (simp_all add: inv)
  have len': "length v' = length ?v" using D r8 by (simp add: v'_def)
  have readable': "readableBytes b' = readableBytes b" by (simp add: b'_def readableBytes_def)
  have "KCheapPrependSize < readerIndex b" using r8 by (simp add: less_size_iff)
  then have "makespace len b = Inr b'"
    using roomy readable'
    by (simp add: makespace_def makespace_guard [OF inv len] copy Let_def b'_def)
  moreover have inv': "buf_inv b'"
    using D r8 w' len' by (intro buf_invI) (simp_all add: b'_def)
  moreover have "content b' = content b"
    using D r8 w' take_splice_end [of 8 ?v "take (?w - ?r) (drop ?r ?v)"]
    by (simp add: content_def b'_def v'_def drop_take)
  moreover have "unat len \<le> unat (writeableBytes b')"
    using roomy D unat_writeable [OF inv'] unat_writeable [OF inv] w' len' by (simp add: b'_def)
  ultimately show ?thesis using w' r8 D by (auto simp: b'_def)
qed

lemma ensureWriteableBytes_ok:
  assumes inv: "buf_inv b" and fits: "buffer_fits (unat len) b" and len: "unat len < 2 ^ 63"
  shows "\<exists>b'. ensureWriteableBytes len b = Inr b' \<and> buf_inv b' \<and> content b' = content b \<and>
    unat len \<le> unat (writeableBytes b') \<and> unat (writeIndex b') \<le> unat (writeIndex b)"
proof (cases "writeableBytes b < len")
  case True
  then have small: "unat (writeableBytes b) < unat len" by (simp add: less_size_iff)
  have "\<exists>b'. makespace len b = Inr b' \<and> buf_inv b' \<and> content b' = content b \<and>
    unat len \<le> unat (writeableBytes b') \<and> unat (writeIndex b') \<le> unat (writeIndex b)"
  proof (cases "unat len + 8 \<le> unat (writeableBytes b) + unat (readerIndex b)")
    case True
    from makespace_move [OF inv small len this] show ?thesis .
  next
    case False
    with fits makespace_grow [OF inv small] show ?thesis by (force simp: buffer_fits_def)
  qed
  with True show ?thesis by (auto simp: ensureWriteableBytes_def le_size_iff)
next
  case False
  then have "len \<le> writeableBytes b" by (rule leI)
  with inv show ?thesis
    by (simp add: ensureWriteableBytes_def leD word_le_nat_alt)
qed

lemma ensureWriteableBytes_too_long:
  assumes inv: "buf_inv b" and fits: "\<not> buffer_fits (unat len) b" and len: "unat len < 2 ^ 63"
  shows "ensureWriteableBytes len b = Inl LengthError"
proof -
  have "writeableBytes b < len"
    using fits unat_writeable [OF inv] buf_invD [OF inv] by (auto simp: buffer_fits_def less_size_iff)
  with makespace_too_long [OF inv len] fits show ?thesis
    by (simp add: ensureWriteableBytes_def buffer_fits_def)
qed

text \<open>Writing behind the write index and moving it over the new bytes.\<close>

lemma write_hasWritten:
  assumes inv: "buf_inv b" and room: "length data \<le> unat (writeableBytes b)"
  defines "b' \<equiv> b\<lparr>buffer_vec := splice (unat (writeIndex b)) data (buffer_vec b),
      writeIndex := writeIndex b + of_nat (length data)\<rparr>"
  shows "write_at (buffer_vec b) (writeIndex b) data =
      Inr (splice (unat (writeIndex b)) data (buffer_vec b))"
    and "buf_inv b'" and "content b' = content b @ data"
    and "unat (writeIndex b') = unat (writeIndex b) + length data"
proof -
  note D = buf_invD [OF inv]
  from room have le: "unat (writeIndex b) + length data \<le> length (buffer_vec b)"
    using D unat_writeable [OF inv] by simp
  then show "write_at (buffer_vec b) (writeIndex b) data =
      Inr (splice (unat (writeIndex b)) data (buffer_vec b))"
    by (simp add: write_at_def)
  have n: "unat (of_nat (length data) :: size_t) = length data"
    using le D by (intro unat_of_nat_size) simp
  show w: "unat (writeIndex b') = unat (writeIndex b) + length data"
    using le D n by (simp add: b'_def unat_add_size)
  show "buf_inv b'"
    using le D w by (intro buf_invI) (simp_all add: b'_def)
  show "content b' = content b @ data"
    using w D take_splice_end [OF D(2), of data]
    by (simp add: content_def b'_def)
qed

lemma hasWritten_ok:
  assumes "buf_inv b" and "unat len \<le> unat (writeableBytes b)"
  shows "hasWritten len b = Inr (b\<lparr>writeIndex := writeIndex b + len\<rparr>)"
  using assms by (simp add: hasWritten_def le_size_iff)

lemma append_ok:
  assumes inv: "buf_inv b" and fits: "buffer_fits (length data) b" and len: "length data < 2 ^ 63"
  shows "\<exists>b'. append data b = Inr b' \<and> buf_inv b' \<and> content b' = content b @ data \<and>
    unat (writeIndex b') \<le> unat (writeIndex b) + length data"
proof -
  have n: "unat (of_nat (length data) :: size_t) = length data"
    using len by (intro unat_of_nat_size) simp
  obtain b1 where b1: "ensureWriteableBytes (of_nat (length data)) b = Inr b1"
    and inv1: "buf_inv b1" and c1: "content b1 = content b"
    and room: "length data \<le> unat (writeableBytes b1)"
    and w1: "unat (writeIndex b1) \<le> unat (writeIndex b)"
    using ensureWriteableBytes_ok [OF inv, of "of_nat (length data)"] fits len n by auto
  note W = write_hasWritten [OF inv1 room]
  let ?b2 = "b1\<lparr>buffer_vec := splice (unat (writeIndex b1)) data (buffer_vec b1)\<rparr>"
  have "writeableBytes ?b2 = writeableBytes b1"
    using W(1) by (simp add: writeableBytes_def vector_size_def write_at_def split: if_splits)
  then have "hasWritten (of_nat (length data)) ?b2 =
      Inr (?b2\<lparr>writeIndex := writeIndex b1 + of_nat (length data)\<rparr>)"
    using room n by (simp add: hasWritten_def le_size_iff)
  then have "append data b = Inr (?b2\<lparr>writeIndex := writeIndex b1 + of_nat (length data)\<rparr>)"
    by (simp add: append_def b1 W(1))
  with W(2-4) c1 w1 show ?thesis by simp
qed

lemma append_too_long:
  assumes "buf_inv b" and "\<not> buffer_fits (length data) b" and "length data < 2 ^ 63"
  shows "append data b = Inl LengthError"
  using ensureWriteableBytes_too_long [of b "of_nat (length data)"] assms
  by (simp add: append_def unat_of_nat_size)

lemma buffer_fits_le_max:
  "buf_inv b \<Longrightarrow> unat (writeIndex b) + n \<le> vector_max_size \<Longrightarrow> buffer_fits n b \<and> n < 2 ^ 63"
  by (simp add: buffer_fits_def vector_max_size_def)

lemma retrieve_ok:
  assumes inv: "buf_inv b" and len: "unat len \<le> length (content b)"
  shows "\<exists>b'. retrieve len b = Inr b' \<and> buf_inv b' \<and> content b' = drop (unat len) (content b) \<and>
    unat (writeIndex b') \<le> max 8 (unat (writeIndex b))"
proof (cases "len < readableBytes b")
  case True
  note D = buf_invD [OF inv]
  have lt: "unat len < length (content b)"
    using True by (simp add: less_size_iff unat_readable [OF inv])
  then have r: "unat (readerIndex b + len) = unat (readerIndex b) + unat len"
    using D by (intro unat_add_size) (simp add: inv)
  have "retrieve len b = Inr (b\<lparr>readerIndex := readerIndex b + len\<rparr>)"
    using True by (simp add: retrieve_def less_imp_le)
  moreover have "buf_inv (b\<lparr>readerIndex := readerIndex b + len\<rparr>)"
    using D lt r by (intro buf_invI) (simp_all add: inv)
  moreover have "content (b\<lparr>readerIndex := readerIndex b + len\<rparr>) = drop (unat len) (content b)"
    using r by (simp add: content_def add.commute)
  ultimately show ?thesis by auto
next
  case False
  then have eq: "unat len = length (content b)"
    using len by (simp add: less_size_iff unat_readable [OF inv])
  then have "len \<le> readableBytes b" by (simp add: le_size_iff unat_readable [OF inv])
  with False have "retrieve len b = Inr (retrieveAll b)" by (simp add: retrieve_def)
  moreover have "buf_inv (retrieveAll b)"
    using buf_invD [OF inv] by (intro buf_invI) (simp_all add: retrieveAll_def)
  moreover have "content (retrieveAll b) = []"
    by (simp add: content_def retrieveAll_def)
  ultimately show ?thesis using eq by (simp add: retrieveAll_def)
qed

lemma retrieveAll_ok: "buf_inv b \<Longrightarrow> buf_inv (retrieveAll b) \<and> content (retrieveAll b) = []"
  using buf_invD [of b] by (auto intro!: buf_invI simp: retrieveAll_def content_def)

lemma read_at_ok:
  assumes inv: "buf_inv b" and len: "unat len \<le> length (content b)"
  shows "read_at (buffer_vec b) (readerIndex b) len = Inr (take (unat len) (content b))"
  using assms buf_invD [OF inv]
  by (simp add: read_at_def content_def take_drop_take drop_take)

lemma prepend_ok:
  assumes inv: "buf_inv b" and fits: "length data \<le> unat (readerIndex b)"
  shows "\<exists>b'. prepend data b = Inr b' \<and> buf_inv b' \<and> content b' = data @ content b \<and>
    writeIndex b' = writeIndex b"
proof -
  note D = buf_invD [OF inv]
  have n: "unat (of_nat (length data) :: size_t) = length data"
    using fits D by (intro unat_of_nat_size) simp
  have le: "of_nat (length data) \<le> prependableBytes b"
    using fits n by (simp add: le_size_iff prependableBytes_def)
  let ?r = "readerIndex b - of_nat (length data)"
  have r: "unat ?r = unat (readerIndex b) - length data"
    using fits n by (simp add: unat_sub_size le_size_iff)
  let ?v = "splice (unat ?r) data (buffer_vec b)"
  define b' where "b' = b\<lparr>readerIndex := ?r, buffer_vec := ?v\<rparr>"
  have wr: "write_at (buffer_vec b) ?r data = Inr ?v"
    using fits D r by (simp add: write_at_def)
  have "prepend data b = Inr b'"
    using le wr by (simp add: prepend_def b'_def)
  moreover have "buf_inv b'"
    using fits D r by (intro buf_invI) (simp_all add: b'_def)
  moreover have "content b' = data @ content b"
  proof -
    have "take (unat (writeIndex b)) ?v = take (unat ?r) (buffer_vec b) @ data @ content b"
      using fits D r by (simp add: splice_def content_def drop_take min_absorb1)
    moreover have "content b' = drop (unat ?r) (take (unat (writeIndex b)) ?v)"
      by (simp add: content_def b'_def)
    ultimately show ?thesis using fits D r by simp
  qed
  ultimately show ?thesis by (simp add: b'_def)
qed

section \<open>The interface of a byte stream\<close>

text \<open>
  What the users of a buffer rely on: bytes are appended at the back and taken from the
  front, and an operation within the capacity left never stops. \<open>room\<close> is the number of
  bytes that can still be appended before the vector reaches \<open>max_size\<close>.
\<close>

locale byte_stream =
  fixes ok :: "'b \<Rightarrow> bool"
    and bytes :: "'b \<Rightarrow> byte list"
    and room :: "'b \<Rightarrow> nat"
    and put :: "byte list \<Rightarrow> 'b \<Rightarrow> 'b res"
    and discard :: "size_t \<Rightarrow> 'b \<Rightarrow> 'b res"
  assumes put_ok: "ok b \<Longrightarrow> length d \<le> room b \<Longrightarrow>
      \<exists>b'. put d b = Inr b' \<and> ok b' \<and> bytes b' = bytes b @ d \<and> room b - length d \<le> room b'"
    and discard_ok: "ok b \<Longrightarrow> unat n \<le> length (bytes b) \<Longrightarrow>
      \<exists>b'. discard n b = Inr b' \<and> ok b' \<and> bytes b' = drop (unat n) (bytes b) \<and> room b \<le> room b'"
begin

text \<open>A message queued behind the unread bytes is read after them, in full and in order.\<close>

lemma put_then_discard:
  assumes "ok b" and "length d \<le> room b" and "unat n \<le> length (bytes b) + length d"
  shows "\<exists>b'. bind_res (put d b) (discard n) = Inr b' \<and> ok b' \<and>
    bytes b' = drop (unat n) (bytes b @ d)"
proof -
  from put_ok [OF assms(1,2)] obtain b1 where
    b1: "put d b = Inr b1" "ok b1" "bytes b1 = bytes b @ d" by auto
  with assms(3) have "unat n \<le> length (bytes b1)" by simp
  from discard_ok [OF b1(2) this] b1 show ?thesis by auto
qed

end

definition buffer_room :: "buffer \<Rightarrow> nat" where
  "buffer_room b = vector_max_size - max 8 (unat (writeIndex b))"

interpretation bs: byte_stream buf_inv content buffer_room append retrieve
proof unfold_locales
  fix b and d :: "byte list"
  assume "buf_inv b" and room: "length d \<le> buffer_room b"
  moreover have "unat (writeIndex b) + length d \<le> vector_max_size"
    using room buf_invD [OF \<open>buf_inv b\<close>] by (simp add: buffer_room_def)
  ultimately obtain b' where "append d b = Inr b'" "buf_inv b'" "content b' = content b @ d"
      "unat (writeIndex b') \<le> unat (writeIndex b) + length d"
    using append_ok [of b d] buffer_fits_le_max [of b "length d"] by auto
  then show "\<exists>b'. append d b = Inr b' \<and> buf_inv b' \<and> content b' = content b @ d \<and>
      buffer_room b - length d \<le> buffer_room b'"
    by (auto simp: buffer_room_def)
next
  fix b and n :: size_t
  assume "buf_inv b" and "unat n \<le> length (content b)"
  then obtain b' where "retrieve n b = Inr b'" "buf_inv b'" "content b' = drop (unat n) (content b)"
      "unat (writeIndex b') \<le> max 8 (unat (writeIndex b))"
    using retrieve_ok [of b n] by auto
  then show "\<exists>b'. retrieve n b = Inr b' \<and> buf_inv b' \<and> content b' = drop (unat n) (content b) \<and>
      buffer_room b \<le> buffer_room b'"
    by (auto simp: buffer_room_def)
qed

section \<open>Reading with the data, and the abstract queue\<close>

lemma retrieveAsString_ok:
  assumes inv: "buf_inv b" and len: "unat len \<le> length (content b)"
  shows "\<exists>b'. retrieveAsString len b = Inr (take (unat len) (content b), b') \<and> buf_inv b' \<and>
    content b' = drop (unat len) (content b) \<and> buffer_room b \<le> buffer_room b'"
  using bs.discard_ok [OF inv len] len
  by (auto simp: retrieveAsString_def read_at_ok [OF inv len] le_size_iff unat_readable [OF inv]
    assert_res_def)

text \<open>
  The operations of a client of the class, with a log of everything it has read, and
  the queue they implement. \<open>budget\<close> counts the bytes that may still be written.
\<close>

datatype buffer_op = OpAppend "byte list" | OpRead size_t | OpReadAll | OpClear | OpEnsure size_t

fun buffer_step :: "buffer_op \<Rightarrow> buffer \<times> byte list \<Rightarrow> (buffer \<times> byte list) res" where
  "buffer_step (OpAppend d) (b, log) = bind_res (append d b) (\<lambda>b'. Inr (b', log))"
| "buffer_step (OpRead n) (b, log) = bind_res (retrieveAsString n b) (\<lambda>(d, b'). Inr (b', log @ d))"
| "buffer_step OpReadAll (b, log) = bind_res (retrieveAllAsString b) (\<lambda>(d, b'). Inr (b', log @ d))"
| "buffer_step OpClear (b, log) = Inr (retrieveAll b, log)"
| "buffer_step (OpEnsure n) (b, log) = bind_res (ensureWriteableBytes n b) (\<lambda>b'. Inr (b', log))"

record byte_queue =
  queue :: "byte list"
  read_log :: "byte list"
  budget :: nat

fun queue_step :: "buffer_op \<Rightarrow> byte_queue \<Rightarrow> byte_queue option" where
  "queue_step (OpAppend d) q =
     (if length d \<le> budget q
      then Some (q\<lparr>queue := queue q @ d, budget := budget q - length d\<rparr>) else None)"
| "queue_step (OpRead n) q =
     (if unat n \<le> length (queue q)
      then Some (q\<lparr>queue := drop (unat n) (queue q), read_log := read_log q @ take (unat n) (queue q)\<rparr>)
      else None)"
| "queue_step OpReadAll q = Some (q\<lparr>queue := [], read_log := read_log q @ queue q\<rparr>)"
| "queue_step OpClear q = Some (q\<lparr>queue := []\<rparr>)"
| "queue_step (OpEnsure n) q = (if unat n \<le> budget q then Some q else None)"

definition buffer_rel :: "buffer \<times> byte list \<Rightarrow> byte_queue \<Rightarrow> bool" where
  "buffer_rel s q \<longleftrightarrow> buf_inv (fst s) \<and> content (fst s) = queue q \<and> snd s = read_log q \<and>
     budget q \<le> buffer_room (fst s)"

lemma ensure_room:
  assumes "buf_inv b" and "unat n \<le> buffer_room b"
  shows "\<exists>b'. ensureWriteableBytes n b = Inr b' \<and> buf_inv b' \<and> content b' = content b \<and>
    buffer_room b \<le> buffer_room b'"
  using ensureWriteableBytes_ok [of b n] buffer_fits_le_max [of b "unat n"] assms
    buf_invD [OF assms(1)]
  by (force simp: buffer_room_def)

lemma buffer_step_sim:
  assumes "buffer_rel s q" and "queue_step e q = Some q'"
  shows "\<exists>t. buffer_step e s = Inr t \<and> buffer_rel t q'"
proof -
  obtain b log where s: "s = (b, log)" by (cases s)
  with assms(1) have R: "buf_inv b" "content b = queue q" "log = read_log q"
      "budget q \<le> buffer_room b"
    by (auto simp: buffer_rel_def)
  show ?thesis
  proof (cases e)
    case (OpAppend d)
    then show ?thesis using assms(2) R bs.put_ok [OF R(1), of d]
      by (fastforce simp: s buffer_rel_def split: if_splits)
  next
    case (OpRead n)
    then show ?thesis using assms(2) R retrieveAsString_ok [OF R(1), of n]
      by (fastforce simp: s buffer_rel_def split: if_splits)
  next
    case OpReadAll
    then show ?thesis using assms(2) R retrieveAsString_ok [OF R(1), of "readableBytes b"]
      by (fastforce simp: s buffer_rel_def retrieveAllAsString_def unat_readable)
  next
    case OpClear
    then show ?thesis using assms(2) R retrieveAll_ok [OF R(1)]
      by (fastforce simp: s buffer_rel_def buffer_room_def retrieveAll_def)
  next
    case (OpEnsure n)
    then show ?thesis using assms(2) R ensure_room [OF R(1), of n]
      by (fastforce simp: s buffer_rel_def split: if_splits)
  qed
qed

interpretation bq: simulation buffer_step queue_step buffer_rel
  by unfold_locales (rule buffer_step_sim)

section \<open>readFd and the integers\<close>

lemma readv_capacity_ge: "unat extrabuf_size \<le> readv_capacity b"
  by (simp add: readv_capacity_def less_size_iff)

lemma readFd_ok:
  assumes inv: "buf_inv b" and cap: "length data \<le> readv_capacity b"
    and fits: "unat (writeIndex b) + length data \<le> vector_max_size"
  shows "\<exists>b'. readFd (Inr data) b = Inr (int (length data), None, b') \<and> buf_inv b' \<and>
    content b' = content b @ data \<and> unat (writeIndex b') \<le> unat (writeIndex b) + length data"
proof -
  note D = buf_invD [OF inv]
  let ?room = "unat (writeableBytes b)"
  have n: "unat (of_nat (length data) :: size_t) = length data"
    using fits by (intro unat_of_nat_size) (simp add: vector_max_size_def)
  show ?thesis
  proof (cases "length data \<le> ?room")
    case True
    note W = write_hasWritten [OF inv True]
    have "(of_nat (length data) :: size_t) \<le> writeableBytes b" using True n by (simp add: le_size_iff)
    moreover have "unat (writeIndex b + of_nat (length data)) \<le> unat (writeIndex b) + length data"
      using unat_add_le [of "writeIndex b" "of_nat (length data)"] n by simp
    ultimately show ?thesis using True W by (simp add: readFd_def Let_def)
  next
    case False
    then have len: "length (take ?room data) = ?room" by simp
    then have "length (take ?room data) \<le> ?room" by simp
    note W = write_hasWritten [OF inv this]
    let ?b1 = "b\<lparr>buffer_vec := splice (unat (writeIndex b)) (take ?room data) (buffer_vec b)\<rparr>"
    let ?b2 = "?b1\<lparr>writeIndex := vector_size ?b1\<rparr>"
    have size1: "length (buffer_vec ?b1) = length (buffer_vec b)"
      using D unat_writeable [OF inv] by simp
    then have vs: "vector_size ?b1 = vector_size b" by (simp add: vector_size_def)
    have "writeIndex b + of_nat (length (take ?room data)) = vector_size b"
      unfolding len by (simp add: writeableBytes_def)
    then have inv2: "buf_inv ?b2" and c2: "content ?b2 = content b @ take ?room data"
      using W(2,3) vs by simp_all
    have "unat (writeIndex ?b2) = length (buffer_vec b)"
      by (simp add: vs unat_vector_size [OF inv])
    then have end2: "unat (writeIndex ?b2) + length (drop ?room data) = unat (writeIndex b) + length data"
      using False D unat_writeable [OF inv] by (simp only: length_drop)
    with fits have "unat (writeIndex ?b2) + length (drop ?room data) \<le> vector_max_size" by simp
    with append_ok [OF inv2, of "drop ?room data"] buffer_fits_le_max [OF inv2]
    obtain b' where b': "append (drop ?room data) ?b2 = Inr b'" "buf_inv b'"
        "content b' = content ?b2 @ drop ?room data"
        "unat (writeIndex b') \<le> unat (writeIndex b) + length data"
      unfolding end2 [symmetric] by blast
    have "\<not> (of_nat (length data) :: size_t) \<le> writeableBytes b"
      using False n by (simp add: word_le_nat_alt)
    with W(1) b' c2 show ?thesis by (simp add: readFd_def Let_def)
  qed
qed

lemma appendInt32_ok:
  assumes "buf_inv b" and "buffer_fits 4 b"
  shows "\<exists>b'. appendInt32 h x b = Inr b' \<and> buf_inv b' \<and> content b' = content b @ rev (bytes_le 4 x) \<and>
    unat (writeIndex b') \<le> unat (writeIndex b) + 4"
  using append_ok [OF assms(1), of "rev (bytes_le 4 x)"] assms(2)
  by (simp add: appendInt32_def mem_host_to_net_32)

lemma appendInt64_ok:
  assumes "buf_inv b" and "buffer_fits 8 b"
  shows "\<exists>b'. appendInt64 h x b = Inr b' \<and> buf_inv b' \<and> content b' = content b @ bytes_le 8 x"
  using append_ok [OF assms(1), of "bytes_le 8 x"] assms(2)
  by (auto simp add: appendInt64_def mem_host_to_net_64)

lemma appendInt16_ok:
  assumes "buf_inv b" and "buffer_fits 2 b"
  shows "\<exists>b'. appendInt16 h x b = Inr b' \<and> buf_inv b' \<and> content b' = content b @ rev (bytes_le 2 x)"
  using append_ok [OF assms(1), of "rev (bytes_le 2 x)"] assms(2)
  by (auto simp add: appendInt16_def mem_host_to_net_16)

lemma peekInt32_content:
  assumes "buf_inv b" and "4 \<le> length (content b)"
  shows "peekInt32 h b = Inr (net_to_host_32 h (of_mem h (take 4 (content b))))"
  using read_at_ok [OF assms(1), of 4] assms
  by (simp add: peekInt32_def assert_res_def word_le_nat_alt unat_readable)

lemma peekInt64_content:
  assumes "buf_inv b" and "8 \<le> length (content b)"
  shows "peekInt64 h b = Inr (net_to_host_64 h (of_mem h (take 8 (content b))))"
  using read_at_ok [OF assms(1), of 8] assms
  by (simp add: peekInt64_def assert_res_def word_le_nat_alt unat_readable)

lemma peekInt16_content:
  assumes "buf_inv b" and "2 \<le> length (content b)"
  shows "peekInt16 h b = Inr (net_to_host_16 h (of_mem h (take 2 (content b))))"
  using read_at_ok [OF assms(1), of 2] assms
  by (simp add: peekInt16_def assert_res_def word_le_nat_alt unat_readable)

text \<open>The value whose network representation stands at the front of the readable bytes.\<close>

lemma peekInt32_be:
  assumes "buf_inv b" and "content b = rev (bytes_le 4 x) @ rest"
  shows "peekInt32 h b = Inr x"
proof -
  have "take 4 (content b) = mem h 4 (host_to_net_32 h x)"
    using assms(2) by (simp add: mem_host_to_net_32)
  moreover have "4 \<le> length (content b)" by (simp only: assms(2) length_append) simp
  ultimately show ?thesis using assms(1) by (simp add: peekInt32_content of_mem_mem)
qed

lemma peekInt64_le:
  assumes "buf_inv b" and "content b = bytes_le 8 x @ rest"
  shows "peekInt64 h b = Inr x"
proof -
  have "take 8 (content b) = mem h 8 (host_to_net_64 h x)"
    using assms(2) by (simp add: mem_host_to_net_64)
  moreover have "8 \<le> length (content b)" by (simp only: assms(2) length_append) simp
  ultimately show ?thesis using assms(1) by (simp add: peekInt64_content of_mem_mem)
qed

lemma peekInt16_be:
  assumes "buf_inv b" and "content b = rev (bytes_le 2 x) @ rest"
  shows "peekInt16 h b = Inr x"
proof -
  have "take 2 (content b) = mem h 2 (host_to_net_16 h x)"
    using assms(2) by (simp add: mem_host_to_net_16)
  moreover have "2 \<le> length (content b)" by (simp only: assms(2) length_append) simp
  ultimately show ?thesis using assms(1) by (simp add: peekInt16_content of_mem_mem)
qed

lemma readInt32_be:
  assumes "buf_inv b" and "content b = rev (bytes_le 4 x) @ rest"
  shows "\<exists>b'. readInt32 h b = Inr (x, b') \<and> buf_inv b' \<and> content b' = rest"
proof -
  have "length (content b) = 4 + length rest" by (simp only: assms(2) length_append) simp
  then have "unat (4 :: size_t) \<le> length (content b)" by simp
  from retrieve_ok [OF assms(1) this] assms show ?thesis
    by (auto simp: readInt32_def peekInt32_be retrieveInt32_def)
qed

lemma readInt64_le:
  assumes "buf_inv b" and "content b = bytes_le 8 x @ rest"
  shows "\<exists>b'. readInt64 h b = Inr (x, b') \<and> buf_inv b' \<and> content b' = rest"
proof -
  have "length (content b) = 8 + length rest" by (simp only: assms(2) length_append) simp
  then have "unat (8 :: size_t) \<le> length (content b)" by simp
  from retrieve_ok [OF assms(1) this] assms show ?thesis
    by (auto simp: readInt64_def peekInt64_le retrieveInt64_def)
qed

lemma readInt16_be:
  assumes "buf_inv b" and "content b = rev (bytes_le 2 x) @ rest"
  shows "\<exists>b'. readInt16 h b = Inr (x, b') \<and> buf_inv b' \<and> content b' = rest"
proof -
  have "length (content b) = 2 + length rest" by (simp only: assms(2) length_append) simp
  then have "unat (2 :: size_t) \<le> length (content b)" by simp
  from retrieve_ok [OF assms(1) this] assms show ?thesis
    by (auto simp: readInt16_def peekInt16_be retrieveInt16_def)
qed

lemma readInt8_ok:
  assumes "buf_inv b" and "content b = x # rest"
  shows "\<exists>b'. readInt8 b = Inr (x, b') \<and> buf_inv b' \<and> content b' = rest"
proof -
  have len: "unat (1 :: size_t) \<le> length (content b)" using assms(2) by simp
  have "1 \<le> readableBytes b"
    using assms by (simp add: word_le_nat_alt unat_readable)
  with retrieve_ok [OF assms(1) len] read_at_ok [OF assms(1) len] assms(2) show ?thesis
    by (auto simp: readInt8_def peekInt8_def retrieveInt8_def)
qed

section \<open>Properties\<close>

text \<open>A small buffer for the witnesses: sixteen bytes, nothing readable.\<close>

definition sample_buffer :: buffer where
  "sample_buffer = \<lparr>buffer_vec = replicate 16 0, readerIndex = 8, writeIndex = 8\<rparr>"

lemma sample_buffer_simps [simp]:
  "readerIndex sample_buffer = 8" "writeIndex sample_buffer = 8"
  "buffer_vec sample_buffer = replicate 16 0"
  by (simp_all add: sample_buffer_def)

lemma sample_buffer_inv [simp]: "buf_inv sample_buffer"
  by (simp add: buf_inv_def vector_max_size_def)

lemma sample_buffer_content [simp]: "content sample_buffer = []"
  by (simp add: content_def)

lemma sample_buffer_fits: "n < 2 ^ 62 \<Longrightarrow> buffer_fits n sample_buffer"
  by (simp add: buffer_fits_def vector_max_size_def)

text \<open>C4: Any sequence of appends, reads (with the data read logged), full reads, clears and
  reservations that respects the queue discipline (never read more than is readable, never
  write beyond the capacity left) runs on a Buffer without tripping an assert, without an
  access outside the vector and without an exception, and the buffer then holds exactly the
  bytes of the abstract FIFO queue, with the same bytes read.\<close>

theorem buffer_implements_queue:
  assumes "buffer_rel s q" and "run_opt queue_step ops q = Some q'"
  shows "\<exists>t. run_res buffer_step ops s = Inr t \<and> buffer_rel t q'"
  using assms by (rule bq.run_sim)

lemma buffer_implements_queue_witness:
  "\<exists>t. run_res buffer_step [OpAppend [1, 2, 3], OpRead 2, OpAppend [4], OpReadAll]
      (sample_buffer, []) = Inr t \<and>
    buffer_rel t \<lparr>queue = [], read_log = [1, 2, 3, 4], budget = 6\<rparr>"
proof (rule buffer_implements_queue)
  show "buffer_rel (sample_buffer, []) \<lparr>queue = [], read_log = [], budget = 10\<rparr>"
    by (simp add: buffer_rel_def buffer_room_def vector_max_size_def)
  show "run_opt queue_step [OpAppend [1, 2, 3], OpRead 2, OpAppend [4], OpReadAll]
      \<lparr>queue = [], read_log = [], budget = 10\<rparr> =
    Some \<lparr>queue = [], read_log = [1, 2, 3, 4], budget = 6\<rparr>"
    by simp
qed

text \<open>C31: append on a well-formed buffer never fails one of its asserts and never leaves the
  vector: it either puts the data behind the readable bytes, keeping the buffer well formed,
  or throws length_error, and the latter exactly when neither moving the readable bytes to
  the front nor a vector of at most max_size bytes gives enough room.\<close>

theorem append_outcome:
  assumes "buf_inv b" and "length data < 2 ^ 63"
  shows "case append data b of
      Inr b' \<Rightarrow> buffer_fits (length data) b \<and> buf_inv b' \<and> content b' = content b @ data
    | Inl e \<Rightarrow> e = LengthError \<and> \<not> buffer_fits (length data) b"
proof (cases "buffer_fits (length data) b")
  case True
  from append_ok [OF assms(1) True assms(2)] True show ?thesis by auto
next
  case False
  with append_too_long [OF assms(1) False assms(2)] show ?thesis by simp
qed

lemma append_outcome_witness:
  "case append [1, 2, 3, 4, 5, 6, 7, 8, 9, 10] sample_buffer of
      Inr b' \<Rightarrow> content b' = [1, 2, 3, 4, 5, 6, 7, 8, 9, 10] | Inl e \<Rightarrow> e = LengthError"
  using append_outcome [OF sample_buffer_inv, of "[1, 2, 3, 4, 5, 6, 7, 8, 9, 10]"]
  by (auto split: sum.splits)

text \<open>The element-by-element std::copy with which makespace moves the readable bytes to the
  front equals a move of the whole segment, although source and destination overlap.\<close>

theorem std_copy_is_move:
  assumes "dest \<le> src_first" and "src_first \<le> src_last" and "unat src_last \<le> length v"
  shows "std_copy v src_first src_last dest =
    Inr (splice (unat dest)
      (take (unat src_last - unat src_first) (drop (unat src_first) v)) v)"
  using assms by (simp add: std_copy_def le_size_iff copy_loop_left)

lemma std_copy_is_move_witness:
  "std_copy [1, 2, 3, 4, 5, 6] 2 6 1 = Inr [1, 3, 4, 5, 6, 6]"
proof -
  have le: "(1 :: size_t) \<le> 2" "(2 :: size_t) \<le> 6" by simp_all
  have "unat (6 :: size_t) \<le> length [1, 2, 3, 4, 5, 6 :: byte]" by simp
  from std_copy_is_move [OF le this] show ?thesis
    by (simp add: splice_def)
qed

text \<open>A read event delivers everything: for any bytes readv delivers within its iovecs, the
  vector's free space and the 1 MiB stack buffer, readFd returns their number
  and appends all of them in order to the readable bytes, in the case that spills into the
  stack buffer too.\<close>

theorem readFd_appends:
  assumes "buf_inv b" and "length data \<le> readv_capacity b"
    and "unat (writeIndex b) + length data \<le> vector_max_size"
  shows "\<exists>b'. readFd (Inr data) b = Inr (int (length data), None, b') \<and> buf_inv b' \<and>
    content b' = content b @ data"
  using readFd_ok [OF assms] by blast

lemma readFd_appends_witness:
  "\<exists>b'. readFd (Inr (replicate 100 7)) sample_buffer = Inr (100, None, b') \<and> buf_inv b' \<and>
    content b' = replicate 100 7"
proof -
  have "unat (writeableBytes sample_buffer) = 8"
    by (simp add: unat_writeable)
  then have "length (replicate 100 (7 :: byte)) \<le> readv_capacity sample_buffer"
    by (simp add: readv_capacity_def extrabuf_size_def less_size_iff)
  moreover have "unat (writeIndex sample_buffer) + length (replicate 100 (7 :: byte)) \<le> vector_max_size"
    by (simp add: vector_max_size_def)
  ultimately show ?thesis
    using readFd_appends [of sample_buffer "replicate 100 7"] by simp
qed

text \<open>A 32-bit integer travels in network byte order whatever the byte order of the host:
  appendInt32 puts its bytes, most significant first, behind the readable bytes, and
  readInt32 on a host of either kind gives the integer back and consumes exactly its four
  bytes.\<close>

theorem int32_network_order:
  assumes "buf_inv b" and "buffer_fits 4 b" and "content b = []"
  shows "\<exists>b1 b2. appendInt32 h x b = Inr b1 \<and> content b1 = rev (bytes_le 4 x) \<and>
    readInt32 h' b1 = Inr (x, b2) \<and> buf_inv b2 \<and> content b2 = []"
proof -
  from appendInt32_ok [OF assms(1,2), of h x] assms(3) obtain b1 where
    b1: "appendInt32 h x b = Inr b1" "buf_inv b1" "content b1 = rev (bytes_le 4 x)" by auto
  from readInt32_be [OF b1(2), of x "[]" h'] b1 show ?thesis by auto
qed

lemma int32_network_order_witness:
  "\<exists>b1 b2. appendInt32 LittleEndianHost 258 sample_buffer = Inr b1 \<and> content b1 = [0, 0, 1, 2] \<and>
    readInt32 BigEndianHost b1 = Inr (258, b2) \<and> buf_inv b2 \<and> content b2 = []"
proof -
  have byte: "(258 :: byte) = 2" by simp
  show ?thesis
    using int32_network_order [OF sample_buffer_inv sample_buffer_fits sample_buffer_content,
        of LittleEndianHost 258 BigEndianHost]
    by (simp add: bytes_le_numeral byte)
qed

text \<open>The 64-bit integer is the exception: appendInt64 goes through htole64, so on every
  host it travels least significant byte first, not in network order. Reading it back with
  readInt64 still gives the value, on a host of either kind.\<close>

theorem int64_little_endian:
  assumes "buf_inv b" and "buffer_fits 8 b" and "content b = []"
  shows "\<exists>b1 b2. appendInt64 h x b = Inr b1 \<and> content b1 = bytes_le 8 x \<and>
    readInt64 h' b1 = Inr (x, b2) \<and> buf_inv b2 \<and> content b2 = []"
proof -
  from appendInt64_ok [OF assms(1,2), of h x] assms(3) obtain b1 where
    b1: "appendInt64 h x b = Inr b1" "buf_inv b1" "content b1 = bytes_le 8 x" by auto
  from readInt64_le [OF b1(2), of x "[]" h'] b1 show ?thesis by auto
qed

lemma int64_little_endian_witness:
  "\<exists>b1 b2. appendInt64 BigEndianHost 1 sample_buffer = Inr b1 \<and>
    content b1 = [1, 0, 0, 0, 0, 0, 0, 0] \<and>
    readInt64 LittleEndianHost b1 = Inr (1, b2) \<and> buf_inv b2 \<and> content b2 = []"
  using int64_little_endian [OF sample_buffer_inv sample_buffer_fits sample_buffer_content,
      of BigEndianHost 1 LittleEndianHost]
  by (simp add: bytes_le_numeral)

text \<open>prepend puts a header in front of the readable bytes without touching them as long as
  the prependable space holds it, and fails its assert otherwise; a well-formed buffer that
  was just cleared always has room for an 8-byte header.\<close>

theorem prepend_outcome:
  assumes "buf_inv b" and "length data < 2 ^ 63"
  shows "case prepend data b of
      Inr b' \<Rightarrow> length data \<le> unat (readerIndex b) \<and> buf_inv b' \<and> content b' = data @ content b
    | Inl e \<Rightarrow> e = AssertFailed \<and> unat (readerIndex b) < length data"
proof (cases "length data \<le> unat (readerIndex b)")
  case True
  from prepend_ok [OF assms(1) True] True show ?thesis by auto
next
  case False
  with assms(2) have "\<not> of_nat (length data) \<le> prependableBytes b"
    by (simp add: prependableBytes_def word_le_nat_alt unat_of_nat_size)
  with False show ?thesis by (simp add: prepend_def)
qed

lemma prepend_outcome_witness:
  "case prepend [9, 8, 7, 6] sample_buffer of
      Inr b' \<Rightarrow> buf_inv b' \<and> content b' = [9, 8, 7, 6] | Inl e \<Rightarrow> False"
  using prepend_outcome [OF sample_buffer_inv, of "[9, 8, 7, 6]"]
  by (auto split: sum.splits)

end
