(* ===== verification/SocketOps.thy ===== *)
theory SocketOps
  imports Endian Text
begin

unbundle bit_operations_syntax

text \<open>
  namespace socketops (network/include/network/SocketOps.h, network/src/SocketOps.cc) and
  class Inet_address (network/include/network/Inet_address.h, network/src/Inet_address.cc).

  \<^item> An address is the 28 bytes of the union of \<open>sockaddr_in\<close> and \<open>sockaddr_in6\<close>, so that
    reading one member after writing the other is what it is in memory. The bytes a
    constructor does not write are an argument (\<open>garbage\<close>).
  \<^item> The system calls are arguments: their result and, where a failure is looked at, errno.
    \<open>inet_ntop\<close> and \<open>inet_pton\<close> are arguments too (\<open>ntop_contract\<close>).
  \<^item> Casts between the pointer types are the identity.
  \<^item> The buffers of \<open>toIp\<close> and \<open>toIpPort\<close> are zeroed by their callers, so they start as the
    empty C string; the functions return the string left in the buffer.
\<close>

section \<open>Address memory\<close>

type_synonym sockaddr = "byte list"

definition AF_INET :: "16 word" where "AF_INET = 2"
definition AF_INET6 :: "16 word" where "AF_INET6 = 10"

definition sa_family :: "host \<Rightarrow> sockaddr \<Rightarrow> 16 word" where
  "sa_family h a = of_mem h (take 2 a)"
definition sin_port :: "host \<Rightarrow> sockaddr \<Rightarrow> 16 word" where
  "sin_port h a = of_mem h (take 2 (drop 2 a))"
definition s_addr :: "host \<Rightarrow> sockaddr \<Rightarrow> 32 word" where
  "s_addr h a = of_mem h (take 4 (drop 4 a))"
definition sin_addr :: "sockaddr \<Rightarrow> byte list" where
  "sin_addr a = take 4 (drop 4 a)"
definition sin6_addr :: "sockaddr \<Rightarrow> byte list" where
  "sin6_addr a = take 16 (drop 8 a)"

definition set_family :: "host \<Rightarrow> 16 word \<Rightarrow> sockaddr \<Rightarrow> sockaddr" where
  "set_family h f a = splice 0 (mem h 2 f) a"
definition set_port :: "host \<Rightarrow> 16 word \<Rightarrow> sockaddr \<Rightarrow> sockaddr" where
  "set_port h p a = splice 2 (mem h 2 p) a"

lemma length_set [simp]:
  "length a = 28 \<Longrightarrow> length (set_family h f a) = 28"
  "length a = 28 \<Longrightarrow> length (set_port h p a) = 28"
  by (simp_all add: set_family_def set_port_def)

lemma take_drop_splice_same:
  "i + length xs \<le> length v \<Longrightarrow> take (length xs) (drop i (splice i xs v)) = xs"
  by (simp add: splice_def)

lemma take_drop_splice_other:
  "i + length xs \<le> length v \<Longrightarrow> j + n \<le> i \<or> i + length xs \<le> j \<Longrightarrow>
    take n (drop j (splice i xs v)) = take n (drop j v)"
  by (auto simp: splice_def min_absorb1 min_absorb2 drop_take)

text \<open>The memory of an address: which field a write leaves alone.\<close>

lemma set_port_fields [simp]:
  assumes "length a = 28"
  shows "sin_port h (set_port h p a) = p" and "sa_family h (set_port h p a) = sa_family h a"
    and "sin_addr (set_port h p a) = sin_addr a" and "sin6_addr (set_port h p a) = sin6_addr a"
  using assms take_drop_splice_same [of 2 "mem h 2 p" a]
    take_drop_splice_other [of 2 "mem h 2 p" a 0 2]
  by (simp_all add: sin_port_def set_port_def sa_family_def sin_addr_def sin6_addr_def
      take_drop_splice_other of_mem_mem)

lemma set_family_fields [simp]:
  assumes "length a = 28"
  shows "sa_family h (set_family h f a) = f" and "sin_port h (set_family h f a) = sin_port h a"
    and "sin_addr (set_family h f a) = sin_addr a" and "sin6_addr (set_family h f a) = sin6_addr a"
  using assms take_drop_splice_same [of 0 "mem h 2 f" a]
  by (simp_all add: sin_port_def set_family_def sa_family_def sin_addr_def sin6_addr_def
      take_drop_splice_other of_mem_mem)

lemma splice_addr_fields [simp]:
  assumes "length a = 28" and "i + length bs \<le> 28" and "4 \<le> i"
  shows "sin_port h (splice i bs a) = sin_port h a" and "sa_family h (splice i bs a) = sa_family h a"
  using assms take_drop_splice_other [of i bs a 0 2]
  by (simp_all add: sin_port_def sa_family_def take_drop_splice_other)

section \<open>Text form\<close>

text \<open>\<open>inet_ntop\<close> leaves the buffer alone when the text and its NUL do not fit.\<close>

type_synonym inet_ntop = "16 word \<Rightarrow> byte list \<Rightarrow> string"
type_synonym inet_pton = "16 word \<Rightarrow> string \<Rightarrow> byte list option"

definition ntop_into :: "inet_ntop \<Rightarrow> 16 word \<Rightarrow> byte list \<Rightarrow> nat \<Rightarrow> string" where
  "ntop_into ntop af bytes sz = (if length (ntop af bytes) < sz then ntop af bytes else [])"

definition toIp :: "inet_ntop \<Rightarrow> host \<Rightarrow> nat \<Rightarrow> sockaddr \<Rightarrow> string res" where
  "toIp ntop h sz addr =
     (if sa_family h addr = AF_INET then
        bind_res (assert_res (sz \<ge> 16)) (\<lambda>_. Inr (ntop_into ntop AF_INET (sin_addr addr) sz))
      else if sa_family h addr = AF_INET6 then
        bind_res (assert_res (sz \<ge> 46)) (\<lambda>_. Inr (ntop_into ntop AF_INET6 (sin6_addr addr) sz))
      else Inr [])"

definition toIpPort :: "inet_ntop \<Rightarrow> host \<Rightarrow> nat \<Rightarrow> sockaddr \<Rightarrow> string res" where
  "toIpPort ntop h sz addr =
     (if sa_family h addr = AF_INET6 then
        bind_res (toIp ntop h (sz - 1) addr) (\<lambda>ip.
        let buf = CHR ''['' # ip; len = length buf;
            port = net_to_host_16 h (sin_port h addr) in
        bind_res (assert_res (sz > len)) (\<lambda>_.
        Inr (buf @ snprintf (sz - len) ('']:'' @ dec (unat port)))))
      else
        bind_res (toIp ntop h sz addr) (\<lambda>buf.
        let len = length buf in
        bind_res (assert_res (sz > len)) (\<lambda>_.
        let port = net_to_host_16 h (sin_port h addr) in
        Inr (buf @ snprintf (sz - len) ('':'' @ dec (unat port))))))"

text \<open>\<open>pton\<close> gives \<open>None\<close> for a text that is no address; the member is then left alone.\<close>

definition fromIpPort_4 :: "inet_pton \<Rightarrow> host \<Rightarrow> string \<Rightarrow> 16 word \<Rightarrow> sockaddr \<Rightarrow> sockaddr" where
  "fromIpPort_4 pton h ip port addr =
     (let a = set_port h (host_to_net_16 h port) (set_family h AF_INET addr) in
      case pton AF_INET ip of None \<Rightarrow> a | Some bytes \<Rightarrow> splice 4 bytes a)"

definition fromIpPort_6 :: "inet_pton \<Rightarrow> host \<Rightarrow> string \<Rightarrow> 16 word \<Rightarrow> sockaddr \<Rightarrow> sockaddr" where
  "fromIpPort_6 pton h ip port addr =
     (let a = set_port h (host_to_net_16 h port) (set_family h AF_INET6 addr) in
      case pton AF_INET6 ip of None \<Rightarrow> a | Some bytes \<Rightarrow> splice 8 bytes a)"

section \<open>Inet_address\<close>

definition KInaddrAny :: "32 word" where "KInaddrAny = 0"
definition KInaddrLoopbacl :: "32 word" where "KInaddrLoopbacl = 0x7F000001"

definition in6addr_any :: "byte list" where "in6addr_any = replicate 16 0"
definition in6addr_loopback :: "byte list" where "in6addr_loopback = replicate 15 0 @ [1]"

definition Inet_address_port :: "host \<Rightarrow> byte list \<Rightarrow> 16 word \<Rightarrow> bool \<Rightarrow> bool \<Rightarrow> sockaddr" where
  "Inet_address_port h garbage port Loopbackonly ipv6 =
     (if ipv6 then
        let a = splice 0 (replicate 28 0) garbage;
            a1 = set_family h AF_INET6 a;
            ip = (if Loopbackonly then in6addr_loopback else in6addr_any);
            a2 = splice 8 ip a1 in
        set_port h (ucast (host_to_net_32 h (ucast port))) a2
      else
        let a = splice 0 (replicate 16 0) garbage;
            a1 = set_family h AF_INET a;
            ip = (if Loopbackonly then KInaddrLoopbacl else KInaddrAny);
            a2 = splice 4 (mem h 4 (host_to_net_32 h ip)) a1 in
        set_port h (host_to_net_16 h port) a2)"

definition Inet_address_ip ::
  "inet_pton \<Rightarrow> host \<Rightarrow> byte list \<Rightarrow> string \<Rightarrow> 16 word \<Rightarrow> bool \<Rightarrow> bool \<Rightarrow> sockaddr" where
  "Inet_address_ip pton h garbage ip port Loopbackonly ipv6 =
     (if ipv6 \<or> CHR '':'' \<in> set (c_str ip) then
        let a = set_family h AF_INET6 (splice 0 (replicate 28 0) garbage) in
        fromIpPort_6 pton h (c_str ip) port a
      else
        let a = set_family h AF_INET (splice 0 (replicate 16 0) garbage) in
        fromIpPort_4 pton h (c_str ip) port a)"

definition Ip_to_string :: "inet_ntop \<Rightarrow> host \<Rightarrow> sockaddr \<Rightarrow> string res" where
  "Ip_to_string ntop h a = toIp ntop h 64 a"

definition Ip_Port_to_string :: "inet_ntop \<Rightarrow> host \<Rightarrow> sockaddr \<Rightarrow> string res" where
  "Ip_Port_to_string ntop h a = toIpPort ntop h 64 a"

definition portNetEndian :: "host \<Rightarrow> sockaddr \<Rightarrow> 16 word" where
  "portNetEndian h a = sin_port h a"

definition address_port :: "host \<Rightarrow> sockaddr \<Rightarrow> 16 word" where
  "address_port h a = net_to_host_16 h (portNetEndian h a)"

definition ipv4NetEndian :: "host \<Rightarrow> sockaddr \<Rightarrow> 32 word res" where
  "ipv4NetEndian h a = bind_res (assert_res (sa_family h a = AF_INET)) (\<lambda>_. Inr (s_addr h a))"

definition setSockAddrInet6 :: "sockaddr \<Rightarrow> sockaddr \<Rightarrow> sockaddr" where
  "setSockAddrInet6 addr a = addr"

text \<open>
  \<open>found\<close> is gethostbyname_r's answer: its return value and, unless \<open>he\<close> is NULL, the
  address type, the address length and the first address.
\<close>

definition reslove ::
  "int \<times> (16 word \<times> nat \<times> byte list) option \<Rightarrow> sockaddr option \<Rightarrow> (bool \<times> sockaddr option) res"
where
  "reslove found result =
     bind_res (assert_res (result \<noteq> None)) (\<lambda>_.
     case (found, result) of
       ((ret, Some (addrtype, len, addr)), Some a) \<Rightarrow>
         (if ret = 0 then
            bind_res (assert_res (addrtype = AF_INET \<and> len = 4)) (\<lambda>_.
            Inr (True, Some (splice 4 addr a)))
          else Inr (False, Some a))
     | _ \<Rightarrow> Inr (False, result))"

section \<open>System calls\<close>

definition SOCK_STREAM :: "32 word" where "SOCK_STREAM = 1"
definition SOCK_NONBLOCK :: "32 word" where "SOCK_NONBLOCK = 0x800"
definition SOCK_CLOEXEC :: "32 word" where "SOCK_CLOEXEC = 0x80000"
definition IPPROTO_TCP :: "32 word" where "IPPROTO_TCP = 6"

definition createNoblocking_stop :: "(16 word \<Rightarrow> 32 word \<Rightarrow> int \<Rightarrow> int) \<Rightarrow> 16 word \<Rightarrow> int res" where
  "createNoblocking_stop sys_socket family =
     (let socketfd = sys_socket family
            (SOCK_STREAM OR SOCK_NONBLOCK OR SOCK_CLOEXEC OR IPPROTO_TCP) 0 in
      if socketfd \<ge> 0 then Inr socketfd else Inl FatalLog)"

definition EPERM :: int where "EPERM = 1"
definition EINTR :: int where "EINTR = 4"
definition EAGAIN :: int where "EAGAIN = 11"
definition EACCES :: int where "EACCES = 13"
definition EMFILE :: int where "EMFILE = 24"
definition EPIPE :: int where "EPIPE = 32"
definition EPROTO :: int where "EPROTO = 71"
definition ECONNABORTED :: int where "ECONNABORTED = 103"
definition ECONNRESET :: int where "ECONNRESET = 104"

lemmas errno_defs = EPERM_def EINTR_def EAGAIN_def EACCES_def EMFILE_def EPIPE_def EPROTO_def
  ECONNABORTED_def ECONNRESET_def

definition sock_accept :: "int \<Rightarrow> int \<Rightarrow> int res" where
  "sock_accept connfd errno =
     (if connfd < 0 then
        if errno \<in> {EAGAIN, ECONNABORTED, EINTR, EPROTO, EPERM, EMFILE} then Inr connfd
        else Inl FatalLog
      else Inr connfd)"

definition listen_stop :: "int \<Rightarrow> unit res" where
  "listen_stop ret = (if ret < 0 then Inl FatalLog else Inr ())"

definition getSocketError :: "int \<Rightarrow> int \<Rightarrow> int \<Rightarrow> int" where
  "getSocketError ret optionval errno = (if ret < 0 then errno else optionval)"

text \<open>\<open>name\<close> is getsockname or getpeername: the return value and the bytes it stored, if any.\<close>

definition getLocalAddr :: "int \<times> byte list \<Rightarrow> byte list \<Rightarrow> sockaddr" where
  "getLocalAddr name garbage = splice 0 (snd name) garbage"

definition getPeerAddr :: "int \<times> byte list \<Rightarrow> byte list \<Rightarrow> sockaddr" where
  "getPeerAddr name garbage = splice 0 (snd name) garbage"

definition isSelfConnect :: "host \<Rightarrow> sockaddr \<Rightarrow> sockaddr \<Rightarrow> bool" where
  "isSelfConnect h local peer =
     (if sa_family h local = AF_INET then
        (if s_addr h local = s_addr h peer \<and> sin_port h local = sin_port h peer then True else False)
      else if sa_family h local = AF_INET6 then
        (if sin_port h local = sin_port h peer \<and> sin6_addr local = sin6_addr peer then True else False)
      else False)"

section \<open>Contracts of the text conversions\<close>

text \<open>INET_ADDRSTRLEN is 16 and INET6_ADDRSTRLEN 46, the NUL included.\<close>

definition ntop_contract :: "inet_ntop \<Rightarrow> bool" where
  "ntop_contract ntop \<longleftrightarrow>
     (\<forall>bs. length (ntop AF_INET bs) < 16) \<and> (\<forall>bs. length (ntop AF_INET6 bs) < 46)"

definition pton_contract :: "inet_pton \<Rightarrow> bool" where
  "pton_contract pton \<longleftrightarrow>
     (\<forall>s bs. pton AF_INET s = Some bs \<longrightarrow> length bs = 4) \<and>
     (\<forall>s bs. pton AF_INET6 s = Some bs \<longrightarrow> length bs = 16)"

lemma length_cleared [simp]:
  "length g = 28 \<Longrightarrow> length (splice 0 (replicate 28 0) g) = 28"
  "length g = 28 \<Longrightarrow> length (splice 0 (replicate 16 0) g) = 28"
  by simp_all

lemma fromIpPort_port:
  assumes "pton_contract pton" and "length a = 28"
  shows "sin_port h (fromIpPort_4 pton h ip port a) = host_to_net_16 h port"
    and "sin_port h (fromIpPort_6 pton h ip port a) = host_to_net_16 h port"
    and "sa_family h (fromIpPort_4 pton h ip port a) = AF_INET"
    and "sa_family h (fromIpPort_6 pton h ip port a) = AF_INET6"
  using assms
  by (auto simp: fromIpPort_4_def fromIpPort_6_def Let_def pton_contract_def split: option.split)

text \<open>The 32-bit swap of a 16-bit port has nothing in its low half.\<close>

lemma ucast_swapped_port:
  "(ucast (host_to_net_32 h (ucast (port :: 16 word))) :: 16 word) =
    (case h of LittleEndianHost \<Rightarrow> 0 | BigEndianHost \<Rightarrow> port)"
proof (cases h)
  case LittleEndianHost
  have "(ucast (bswap 4 (ucast port :: 32 word)) :: 16 word) = 0"
    by (rule bit_word_eqI) (auto simp: bswap_def bytes_le_numeral bit_simps dest: bit_imp_le_length)
  with LittleEndianHost show ?thesis by (simp add: host_to_net_32_def htobe_def)
next
  case BigEndianHost
  have "(ucast (ucast port :: 32 word) :: 16 word) = port"
    by (rule bit_word_eqI) (auto simp: bit_simps)
  with BigEndianHost show ?thesis by (simp add: host_to_net_32_def htobe_def)
qed

section \<open>Properties\<close>

text \<open>C38: The port survives an address: on every host port() of an IPv4 address built from a
  port, and of an IPv4 or IPv6 address built from a text and a port, is that port. An IPv6
  address built from a port alone has it only on a big-endian host: it is swapped as a
  32-bit number and cut to 16 bits, which leaves port 0 on a little-endian one.\<close>

theorem address_port_roundtrip:
  assumes "length g = 28" and "pton_contract pton"
  shows "address_port h (Inet_address_port h g p lo False) = p \<and>
    address_port h (Inet_address_ip pton h g ip p lo v6) = p \<and>
    address_port h (Inet_address_port h g p lo True) =
      (case h of LittleEndianHost \<Rightarrow> 0 | BigEndianHost \<Rightarrow> p)"
proof (intro conjI)
  show "address_port h (Inet_address_port h g p lo False) = p"
    using assms(1) by (simp add: address_port_def portNetEndian_def Inet_address_port_def Let_def)
  show "address_port h (Inet_address_ip pton h g ip p lo v6) = p"
    using assms by (simp add: address_port_def portNetEndian_def Inet_address_ip_def Let_def fromIpPort_port)
  have "net_to_host_16 LittleEndianHost 0 = 0"
    by (simp add: net_to_host_16_def htobe_def bswap_def bytes_le_numeral)
  moreover have "net_to_host_16 BigEndianHost p = p"
    by (simp add: net_to_host_16_def htobe_def)
  ultimately show "address_port h (Inet_address_port h g p lo True) =
      (case h of LittleEndianHost \<Rightarrow> 0 | BigEndianHost \<Rightarrow> p)"
    using assms(1)
    by (simp add: address_port_def portNetEndian_def Inet_address_port_def Let_def
      in6addr_loopback_def in6addr_any_def ucast_swapped_port split: host.split)
qed

definition sample_pton :: inet_pton where
  "sample_pton af s = Some (if af = AF_INET then [10, 0, 0, 1] else replicate 16 1)"

lemma address_port_roundtrip_witness:
  "address_port LittleEndianHost (Inet_address_port LittleEndianHost (replicate 28 7) 8080 True False) = 8080 \<and>
   address_port LittleEndianHost (Inet_address_port LittleEndianHost (replicate 28 7) 8080 True True) = 0"
proof -
  have "pton_contract sample_pton"
    by (simp add: pton_contract_def sample_pton_def AF_INET_def AF_INET6_def)
  from address_port_roundtrip [OF _ this, of "replicate 28 7" LittleEndianHost 8080 True] show ?thesis
    by simp
qed

text \<open>The text form of an address is complete: the 64-byte buffer of Ip_Port_to_string is never
  too small and no assert trips, so an IPv4 address prints as "ip:port" and an IPv6 one as
  "[ip]:port", with the port in decimal.\<close>

theorem address_text_complete:
  assumes "ntop_contract ntop"
  shows "(sa_family h a = AF_INET \<longrightarrow>
      Ip_Port_to_string ntop h a = Inr (ntop AF_INET (sin_addr a) @ '':'' @ dec (unat (address_port h a)))) \<and>
    (sa_family h a = AF_INET6 \<longrightarrow>
      Ip_Port_to_string ntop h a =
        Inr (''['' @ ntop AF_INET6 (sin6_addr a) @ '']:'' @ dec (unat (address_port h a))))"
proof (intro conjI impI)
  let ?port = "dec (unat (address_port h a))"
  have port: "length ?port \<le> 5" by (rule length_dec_16)
  assume v4: "sa_family h a = AF_INET"
  let ?ip = "ntop AF_INET (sin_addr a)"
  have ip: "length ?ip < 16" using assms by (simp add: ntop_contract_def)
  with port have "snprintf (64 - length ?ip) ('':'' @ ?port) = '':'' @ ?port"
    by (intro snprintf_fits) simp
  with ip v4 show "Ip_Port_to_string ntop h a = Inr (?ip @ '':'' @ ?port)"
    by (simp add: Ip_Port_to_string_def toIpPort_def toIp_def ntop_into_def AF_INET_def AF_INET6_def
      address_port_def portNetEndian_def Let_def)
next
  let ?port = "dec (unat (address_port h a))"
  have port: "length ?port \<le> 5" by (rule length_dec_16)
  assume v6: "sa_family h a = AF_INET6"
  let ?ip = "ntop AF_INET6 (sin6_addr a)"
  have ip: "length ?ip < 46" using assms by (simp add: ntop_contract_def)
  with port have "snprintf (64 - Suc (length ?ip)) ('']:'' @ ?port) = '']:'' @ ?port"
    by (intro snprintf_fits) simp
  with ip v6 show "Ip_Port_to_string ntop h a = Inr (''['' @ ?ip @ '']:'' @ ?port)"
    by (simp add: Ip_Port_to_string_def toIpPort_def toIp_def ntop_into_def AF_INET_def AF_INET6_def
      address_port_def portNetEndian_def Let_def)
qed

definition sample_ntop :: inet_ntop where
  "sample_ntop af bs = (if af = AF_INET then ''10.0.0.1'' else ''::1'')"

lemma address_text_complete_witness:
  "Ip_Port_to_string sample_ntop BigEndianHost (Inet_address_port BigEndianHost (replicate 28 7) 80 True False) =
     Inr ''10.0.0.1:80''"
proof -
  have "ntop_contract sample_ntop"
    by (simp add: ntop_contract_def sample_ntop_def AF_INET_def AF_INET6_def)
  moreover have "sa_family BigEndianHost (Inet_address_port BigEndianHost (replicate 28 7) 80 True False) = AF_INET"
    "address_port BigEndianHost (Inet_address_port BigEndianHost (replicate 28 7) 80 True False) = 80"
    by (simp_all add: Inet_address_port_def Let_def address_port_def portNetEndian_def)
  ultimately show ?thesis using address_text_complete [of sample_ntop BigEndianHost]
    by (simp add: sample_ntop_def dec.simps)
qed

text \<open>No socket is ever created: createNoblocking_stop ors the protocol number into the socket
  type, which makes it 7, a type that does not exist. On every kernel that refuses unknown
  types it ends in LOG(FATAL), for every family.\<close>

theorem socket_type_unknown:
  assumes "\<And>family type proto. type AND 0xF \<notin> {1, 2, 3, 4, 5, 6, 10} \<Longrightarrow> sys_socket family type proto = -1"
  shows "createNoblocking_stop sys_socket family = Inl FatalLog"
  using assms [of "SOCK_STREAM OR SOCK_NONBLOCK OR SOCK_CLOEXEC OR IPPROTO_TCP" family 0]
  by (simp add: createNoblocking_stop_def SOCK_STREAM_def SOCK_NONBLOCK_def SOCK_CLOEXEC_def IPPROTO_TCP_def)

lemma socket_type_unknown_witness:
  "createNoblocking_stop (\<lambda>f t p. if t AND 0xF \<in> {1, 2, 3, 4, 5, 6, 10} then 3 else -1) AF_INET = Inl FatalLog"
  by (rule socket_type_unknown) simp

end
