(* ===== verification/Socket.thy ===== *)
theory Socket
  imports SocketOps "HOL-Library.Signed_Division"
begin

text \<open>
  class Socket (network/include/network/Socket.h, network/src/Socket.cc) and the functions of
  network/include/network/utill.h, network/src/utill.cc.

  \<^item> A Socket is its descriptor. \<open>setsockopt(2)\<close> is an argument with a state \<open>'k\<close> of its own
    (the options of the socket); the results of the other calls are arguments.
  \<^item> \<open>Socket::setTcpNoDelay(char*, int)\<close>, which the header does not declare, has the body of
    \<open>getTcpInfoString\<close>; both are \<open>getTcpInfoString\<close> here. The fields are read from
    \<open>info\<close> (the source writes \<open>tcpi\<close>).
\<close>

section \<open>Options\<close>

text \<open>Level, name, value and the length passed for the value.\<close>

type_synonym 'k setsockopt = "int \<Rightarrow> int \<Rightarrow> 32 word \<Rightarrow> nat \<Rightarrow> 'k \<Rightarrow> int \<times> 'k"

definition SOL_SOCKET :: int where "SOL_SOCKET = 1"
definition TCP_NODELAY :: int where "TCP_NODELAY = 1"
definition SO_REUSEADDR :: int where "SO_REUSEADDR = 2"
definition SO_KEEPALIVE :: int where "SO_KEEPALIVE = 9"
definition SO_REUSEPORT :: int where "SO_REUSEPORT = 15"

definition setTcpNoDelay :: "'k setsockopt \<Rightarrow> bool \<Rightarrow> 'k \<Rightarrow> 'k" where
  "setTcpNoDelay opt on k =
     (let optval = (if on then 1 else 0) in snd (opt 6 TCP_NODELAY optval (unat optval) k))"

definition setReuseAddr :: "'k setsockopt \<Rightarrow> bool \<Rightarrow> 'k \<Rightarrow> 'k" where
  "setReuseAddr opt on k =
     (let optval = (if on then 1 else 0) in snd (opt SOL_SOCKET SO_REUSEADDR optval (unat optval) k))"

definition setReusePort :: "'k setsockopt \<Rightarrow> bool \<Rightarrow> 'k \<Rightarrow> 'k" where
  "setReusePort opt on k =
     (let optval = (if on then 1 else 0) in snd (opt SOL_SOCKET SO_REUSEPORT optval (unat optval) k))"

definition setKeepAlive :: "'k setsockopt \<Rightarrow> bool \<Rightarrow> 'k \<Rightarrow> 'k" where
  "setKeepAlive opt on k =
     (let optval = (if on then 1 else 0) in snd (opt SOL_SOCKET SO_KEEPALIVE optval (unat optval) k))"

lemmas socket_option_defs = setTcpNoDelay_def setReuseAddr_def setReusePort_def setKeepAlive_def

section \<open>Calls\<close>

text \<open>The descriptors closed so far, in order; the destructor closes the socket's own.\<close>

definition Socket_dtor :: "int \<Rightarrow> int list \<Rightarrow> int list" where
  "Socket_dtor sockfd closed_fds = closed_fds @ [sockfd]"

definition BindAddress :: "int \<Rightarrow> unit res" where
  "BindAddress ret = (if ret < 0 then Inl FatalLog else Inr ())"

definition Listen :: "int \<Rightarrow> unit res" where
  "Listen ret = (if ret < 0 then Inl FatalLog else Inr ())"

text \<open>\<open>accepted\<close> is accept's return value and the address it stored.\<close>

definition Accept :: "int \<times> sockaddr \<Rightarrow> sockaddr \<Rightarrow> (int \<times> sockaddr) res" where
  "Accept accepted peeraddr =
     (let (connfd, addr) = accepted in
      if connfd < 0 then Inl FatalLog
      else Inr (connfd, if connfd \<ge> 0 then setSockAddrInet6 addr peeraddr else peeraddr))"

record tcp_info =
  tcpi_retransmits :: "8 word"
  tcpi_rto :: "32 word"
  tcpi_ato :: "32 word"
  tcpi_snd_mss :: "32 word"
  tcpi_rcv_mss :: "32 word"
  tcpi_lost :: "32 word"
  tcpi_retrans :: "32 word"
  tcpi_rtt :: "32 word"
  tcpi_rttvar :: "32 word"
  tcpi_snd_ssthresh :: "32 word"
  tcpi_snd_cwnd :: "32 word"
  tcpi_total_retrans :: "32 word"

definition getTcpInfo :: "int \<Rightarrow> tcp_info \<Rightarrow> tcp_info option" where
  "getTcpInfo ret info = (if ret = 0 then Some info else None)"

definition tcp_info_text :: "tcp_info \<Rightarrow> string" where
  "tcp_info_text i =
     ''unrecovered='' @ dec (unat (tcpi_retransmits i)) @ '' '' @
     ''rto='' @ dec (unat (tcpi_rto i)) @ '' ato='' @ dec (unat (tcpi_ato i)) @
     '' snd_mss='' @ dec (unat (tcpi_snd_mss i)) @ '' rcv_mss='' @ dec (unat (tcpi_rcv_mss i)) @ '' '' @
     ''lost='' @ dec (unat (tcpi_lost i)) @ '' retrans='' @ dec (unat (tcpi_retrans i)) @
     '' rtt='' @ dec (unat (tcpi_rtt i)) @ '' rttvar='' @ dec (unat (tcpi_rttvar i)) @ '' '' @
     ''sshthresh='' @ dec (unat (tcpi_snd_ssthresh i)) @ '' cwnd='' @ dec (unat (tcpi_snd_cwnd i)) @
     '' total_retrans='' @ dec (unat (tcpi_total_retrans i))"

text \<open>The string left in \<open>buf\<close>, and the result.\<close>

definition getTcpInfoString :: "int \<Rightarrow> tcp_info \<Rightarrow> nat \<Rightarrow> string \<Rightarrow> string \<times> bool" where
  "getTcpInfoString ret info len buf =
     (case getTcpInfo ret info of
        Some i \<Rightarrow> (snprintf len (tcp_info_text i), True)
      | None \<Rightarrow> (buf, False))"

text \<open>The text never needs the 1024 bytes of the caller.\<close>

lemma length_dec_8: "length (dec (unat (w :: 8 word))) \<le> 3"
proof -
  have "unat w < 2 ^ 8" using unsigned_less [of w, where 'a = nat] by simp
  then have "unat w < 10 ^ Suc 2" by simp
  from length_dec_le [OF this] show ?thesis by simp
qed

lemma length_tcp_info_text: "length (tcp_info_text i) < 256"
  unfolding tcp_info_text_def
  using length_dec_8 [of "tcpi_retransmits i"] length_dec_32 [of "tcpi_rto i"]
    length_dec_32 [of "tcpi_ato i"] length_dec_32 [of "tcpi_snd_mss i"]
    length_dec_32 [of "tcpi_rcv_mss i"] length_dec_32 [of "tcpi_lost i"]
    length_dec_32 [of "tcpi_retrans i"] length_dec_32 [of "tcpi_rtt i"]
    length_dec_32 [of "tcpi_rttvar i"] length_dec_32 [of "tcpi_snd_ssthresh i"]
    length_dec_32 [of "tcpi_snd_cwnd i"] length_dec_32 [of "tcpi_total_retrans i"]
  by simp

lemma getTcpInfoString_whole:
  "256 \<le> len \<Longrightarrow> getTcpInfoString 0 i len buf = (tcp_info_text i, True)"
  using length_tcp_info_text [of i]
  by (simp add: getTcpInfoString_def getTcpInfo_def snprintf_fits)

section \<open>utill\<close>

text \<open>
  \<open>g_pid\<close> and \<open>t_pid\<close> are the caches. \<open>getpid\<close> and \<open>gettid\<close> are the system's answers.
\<close>

definition GetPid :: "int \<Rightarrow> int \<Rightarrow> int" where
  "GetPid getpid g_pid = (if g_pid \<noteq> 0 then g_pid else getpid)"

definition GetThreadId :: "int \<Rightarrow> int \<Rightarrow> int" where
  "GetThreadId gettid t_pid = (if t_pid \<noteq> 0 then t_pid else gettid)"

definition GetCurrentTime :: "64 word \<Rightarrow> 64 word \<Rightarrow> 64 word" where
  "GetCurrentTime tv_sec tv_usec = tv_sec * 1000 + of_int (sint tv_usec sdiv 1000)"

definition GetInt32FromNetByte :: "host \<Rightarrow> byte list \<Rightarrow> 32 word" where
  "GetInt32FromNetByte h buf = net_to_host_32 h (of_mem h (take 4 buf))"

lemma GetInt32FromNetByte_put:
  "GetInt32FromNetByte h (mem h 4 (host_to_net_32 h x) @ rest) = x"
  by (simp add: GetInt32FromNetByte_def of_mem_mem)

lemma sint_small:
  assumes "0 \<le> n" and "n < 2 ^ 63"
  shows "sint (of_int n :: 64 word) = n"
proof -
  have "sint (of_int n :: 64 word) = signed_take_bit 63 n" by (simp add: signed_of_int)
  also have "\<dots> = n" by (rule signed_take_bit_int_eq_self) (use assms in simp_all)
  finally show ?thesis .
qed

lemma GetCurrentTime_ms:
  assumes "sint s = sec" and "sint u = usec" and "0 \<le> usec" and "usec < 1000000"
    and "0 \<le> sec" and "sec < 2 ^ 53"
  shows "sint (GetCurrentTime s u) = sec * 1000 + usec div 1000"
proof -
  have div: "usec sdiv 1000 = usec div 1000"
    using assms(3) by (auto simp: signed_divide_int_def sgn_if)
  have "GetCurrentTime s u = of_int (sint s) * 1000 + of_int (usec sdiv 1000)"
    by (simp add: GetCurrentTime_def assms(2))
  then have eq: "GetCurrentTime s u = of_int (sec * 1000 + usec div 1000)"
    by (simp only: assms(1) div of_int_add of_int_mult of_int_numeral)
  show ?thesis unfolding eq using assms(3-6) by (intro sint_small) auto
qed

section \<open>Properties\<close>

text \<open>No socket option is ever set: each setter passes the value 0 or 1 as the length of the
  option value, so a kernel that refuses a value shorter than an int leaves the options as
  they were: no TCP_NODELAY, SO_REUSEADDR, SO_REUSEPORT or SO_KEEPALIVE takes effect.\<close>

theorem socket_options_never_set:
  assumes "\<And>level name v len k. len < 4 \<Longrightarrow> opt level name v len k = (-1, k)"
  shows "setTcpNoDelay opt on k = k \<and> setReuseAddr opt on k = k \<and> setReusePort opt on k = k \<and>
    setKeepAlive opt on k = k"
  by (simp add: socket_option_defs assms)

lemma socket_options_never_set_witness:
  "setKeepAlive (\<lambda>level name v len k. if len < 4 then (-1, k) else (0, k(name := v))) True (\<lambda>n. 0) = (\<lambda>n. 0)"
  using socket_options_never_set
    [of "\<lambda>level name v len (k :: int \<Rightarrow> 32 word). if len < 4 then (-1, k) else (0, k(name := v))" True "\<lambda>n. 0"]
  by simp

end
