(* ===== verification/TcpConnection.thy ===== *)
theory TcpConnection
  imports Channel Buffer Socket
begin

text \<open>
  class TcpConnection (network/include/network/TcpConnection.h, network/src/TcpConnection.cc).

  \<^item> \<open>connection\<close> is the object together with the loop it lives on: the record extends
    \<open>event_loop\<close>, whose functors are the tasks a connection queues (\<open>task\<close>).
  \<^item> The user's callbacks are functions on the connection that may fail (\<open>callbacks\<close>);
    calling an empty one is \<open>NullDeref\<close> (\<open>std::bad_function_call\<close>).
  \<^item> The kernel's side: \<open>sock_sent\<close> is what \<open>write\<close> has taken, \<open>sock_shut\<close> tells whether the
    write side is shut. A \<open>write\<close> is answered by the argument \<open>wr\<close> (result and errno),
    \<open>read\<close> by the argument of \<open>handleRead\<close>.
  \<^item> Two fields record the history for the theorems: \<open>accepted\<close>, the bytes handed to
    \<open>sendInLoop\<close> while not disconnected, and \<open>calls\<close>, the user callbacks run.
  \<^item> \<open>std::bind(&TcpConnection::writecompletecallback, ..)\<close> in \<open>handleWrite\<close> binds the data
    member, so running the functor only reads the member (\<open>TReadMember\<close>); \<open>sendInLoop\<close>
    binds the callback itself (\<open>TWriteComplete\<close>).
  \<^item> Object lifetime (\<open>shared_from_this\<close>) and \<open>context_\<close> are not modelled;
    \<open>forceCloseWithDelay\<close> has no definition in the source.
\<close>

section \<open>The object\<close>

datatype conn_state = KDisconnected | KConnecting | KConnected | KDisconnecting

datatype task = TSend "byte list" | TShutdown | TForceClose | TStartRead | TStopRead
  | TWriteComplete | TReadMember

datatype handler = HRead | HWrite | HError | HClose

datatype user_call = CallConnection conn_state | CallMessage | CallClose | CallWriteComplete

record connection = "task event_loop" +
  conn_name :: string
  conn_state :: conn_state
  reading :: bool
  channel_this :: channel_ptr
  conn_channel :: "handler channel"
  localaddr :: sockaddr
  peeraddr :: sockaddr
  inputbuffer :: buffer
  outputbuffer :: buffer
  sock_sent :: "byte list"
  sock_shut :: bool
  accepted :: "byte list"
  calls :: "user_call list"

type_synonym user_fun = "connection \<Rightarrow> connection res"

record callbacks =
  connectioncallback :: "user_fun option"
  messagecallback :: "user_fun option"
  closecallback :: "user_fun option"
  writecompletecallback :: "user_fun option"

type_synonym write_result = "connection \<Rightarrow> byte list \<Rightarrow> int \<times> int"

definition invoke :: "user_call \<Rightarrow> user_fun option \<Rightarrow> connection \<Rightarrow> connection res" where
  "invoke what cb c =
     (case cb of None \<Rightarrow> Inl NullDeref | Some f \<Rightarrow> f (c\<lparr>calls := calls c @ [what]\<rparr>))"

definition on_channel ::
  "(handler channel \<Rightarrow> handler channel res) \<Rightarrow> connection \<Rightarrow> connection res" where
  "on_channel f c = bind_res (f (conn_channel c)) (\<lambda>ch. Inr (c\<lparr>conn_channel := ch\<rparr>))"

definition TcpConnection_ctor ::
  "'k setsockopt \<Rightarrow> task event_loop option \<Rightarrow> channel_ptr \<Rightarrow> string \<Rightarrow> int \<Rightarrow> sockaddr \<Rightarrow> sockaddr \<Rightarrow>
   buffer \<Rightarrow> buffer \<Rightarrow> 'k \<Rightarrow> (connection \<times> 'k) res" where
  "TcpConnection_ctor opt loop ch_this name sockfd local peer inbuf outbuf k =
     (case loop of
        None \<Rightarrow> Inl FatalLog
      | Some l \<Rightarrow>
          let ch = new_channel (loop_this l) sockfd;
              ch1 = setCloseCallback (Some HClose) (setWriteEventCallback (Some HWrite)
                (setReadEventCallback (Some HRead) (setErrorEventCallback (Some HError) ch)));
              c = event_loop.extend l
                \<lparr>conn_name = name, conn_state = KConnecting, reading = True, channel_this = ch_this,
                 conn_channel = ch1, localaddr = local, peeraddr = peer, inputbuffer = inbuf,
                 outputbuffer = outbuf, sock_sent = [], sock_shut = False, accepted = [],
                 calls = []\<rparr> in
          Inr (c, setKeepAlive opt True k))"

text \<open>
  After the body of the destructor the members go, the channel and then the socket, which is on
  the channel's descriptor; the result are the descriptors closed.
\<close>

definition TcpConnection_dtor :: "pid \<Rightarrow> connection \<Rightarrow> int list res" where
  "TcpConnection_dtor tid c =
     bind_res (assert_res (conn_state c = KDisconnected)) (\<lambda>_.
     bind_res (channel_dtor tid c (channel_this c) (conn_channel c)) (\<lambda>_.
     Inr (Socket_dtor (ch_fd (conn_channel c)) [])))"

definition isconnected :: "connection \<Rightarrow> bool" where
  "isconnected c \<longleftrightarrow> conn_state c = KConnected"

definition isdisconnected :: "connection \<Rightarrow> bool" where
  "isdisconnected c \<longleftrightarrow> conn_state c = KDisconnected"

definition getIcpInfoString :: "int \<Rightarrow> tcp_info \<Rightarrow> string" where
  "getIcpInfoString ret info = fst (getTcpInfoString ret info 1024 [])"

definition stateToString :: "connection \<Rightarrow> string" where
  "stateToString c =
     (case conn_state c of KConnected \<Rightarrow> ''KConnected'' | KConnecting \<Rightarrow> ''KConnecting''
      | KDisconnecting \<Rightarrow> ''KDisconnecting'' | KDisconnected \<Rightarrow> ''KDisconnected'')"

text \<open>The default connection callback only logs.\<close>

definition defaultConnectionCallback :: user_fun where
  "defaultConnectionCallback c = Inr c"

definition defaultMessageCallback :: user_fun where
  "defaultMessageCallback c = Inr (c\<lparr>inputbuffer := retrieveAll (inputbuffer c)\<rparr>)"

definition setConnectionCallback :: "user_fun option \<Rightarrow> callbacks \<Rightarrow> callbacks" where
  "setConnectionCallback cb cbs = cbs\<lparr>connectioncallback := cb\<rparr>"

definition setMessageCallback :: "user_fun option \<Rightarrow> callbacks \<Rightarrow> callbacks" where
  "setMessageCallback cb cbs = cbs\<lparr>messagecallback := cb\<rparr>"

definition setWriteCompleteCallback :: "user_fun option \<Rightarrow> callbacks \<Rightarrow> callbacks" where
  "setWriteCompleteCallback cb cbs = cbs\<lparr>writecompletecallback := cb\<rparr>"

definition setClosecallback :: "user_fun option \<Rightarrow> callbacks \<Rightarrow> callbacks" where
  "setClosecallback cb cbs = cbs\<lparr>closecallback := cb\<rparr>"

definition connection_setTcpNoDelay :: "'k setsockopt \<Rightarrow> bool \<Rightarrow> 'k \<Rightarrow> 'k" where
  "connection_setTcpNoDelay opt on k = setTcpNoDelay opt on k"

definition connection_getTcpInfo :: "int \<Rightarrow> tcp_info \<Rightarrow> tcp_info option" where
  "connection_getTcpInfo ret info = getTcpInfo ret info"

section \<open>Sending\<close>

definition sendInLoop ::
  "pid \<Rightarrow> callbacks \<Rightarrow> write_result \<Rightarrow> byte list \<Rightarrow> connection \<Rightarrow> connection res" where
  "sendInLoop tid cbs wr message c =
     bind_res (assertInLoopThread tid c) (\<lambda>_.
     let len = length message in
     if conn_state c = KDisconnected then Inr c
     else
       let c0 = c\<lparr>accepted := accepted c @ message\<rparr>;
           (nwrote, remaining, faultError, c1) =
             (if \<not> isWriting (conn_channel c0) \<and> readableBytes (outputbuffer c0) = 0 then
                let (nw, err) = wr c0 message in
                if nw \<ge> 0 then
                  let c' = c0\<lparr>sock_sent := sock_sent c0 @ take (nat nw) message\<rparr>;
                      rem = len - nat nw in
                  (nat nw, rem, False,
                   if rem = 0 \<and> writecompletecallback cbs \<noteq> None
                   then queueInLoop tid TWriteComplete c' else c')
                else
                  (0, len, err \<noteq> EAGAIN \<and> (err = EPIPE \<or> err = ECONNRESET), c0)
              else (0, len, False, c0)) in
       if \<not> faultError \<and> remaining > 0 then
         bind_res (Buffer.append (take remaining (drop nwrote message)) (outputbuffer c1)) (\<lambda>out.
         let c2 = c1\<lparr>outputbuffer := out\<rparr> in
         if \<not> isWriting (conn_channel c2) then on_channel (enableWriting tid c2) c2 else Inr c2)
       else Inr c1)"

definition shutdownInLoop :: "pid \<Rightarrow> connection \<Rightarrow> connection res" where
  "shutdownInLoop tid c =
     bind_res (assertInLoopThread tid c) (\<lambda>_.
     if \<not> isWriting (conn_channel c) then Inr (c\<lparr>sock_shut := True\<rparr>) else Inr c)"

definition handleWrite :: "pid \<Rightarrow> callbacks \<Rightarrow> write_result \<Rightarrow> connection \<Rightarrow> connection res" where
  "handleWrite tid cbs wr c =
     bind_res (assertInLoopThread tid c) (\<lambda>_.
     if isWriting (conn_channel c) then
       let n = fst (wr c (content (outputbuffer c))) in
       if n > 0 then
         let c0 = c\<lparr>sock_sent := sock_sent c @ take (nat n) (content (outputbuffer c))\<rparr> in
         bind_res (retrieve (of_int n) (outputbuffer c0)) (\<lambda>out.
         let c1 = c0\<lparr>outputbuffer := out\<rparr> in
         if readableBytes (outputbuffer c1) = 0 then
           bind_res (on_channel (disableWriting tid c1) c1) (\<lambda>c2.
           let c3 = (if writecompletecallback cbs \<noteq> None then queueInLoop tid TReadMember c2 else c2) in
           if conn_state c3 = KDisconnecting then shutdownInLoop tid c3 else Inr c3)
         else Inr c1)
       else Inr c
     else Inr c)"

section \<open>Reading and closing\<close>

definition handleError :: "int \<Rightarrow> connection \<Rightarrow> connection res" where
  "handleError err c = Inr c"

definition handleClose :: "pid \<Rightarrow> callbacks \<Rightarrow> connection \<Rightarrow> connection res" where
  "handleClose tid cbs c =
     bind_res (assertInLoopThread tid c) (\<lambda>_.
     bind_res (assert_res (conn_state c = KConnected \<or> conn_state c = KDisconnecting)) (\<lambda>_.
     let c1 = c\<lparr>conn_state := KDisconnected\<rparr> in
     bind_res (on_channel (disableall tid c1) c1) (\<lambda>c2.
     bind_res (invoke (CallConnection (conn_state c2)) (connectioncallback cbs) c2) (\<lambda>c3.
     invoke CallClose (closecallback cbs) c3))))"

definition handleRead ::
  "pid \<Rightarrow> callbacks \<Rightarrow> int + byte list \<Rightarrow> int \<Rightarrow> connection \<Rightarrow> connection res" where
  "handleRead tid cbs outcome sockerr c =
     bind_res (assertInLoopThread tid c) (\<lambda>_.
     bind_res (readFd outcome (inputbuffer c)) (\<lambda>(n, savedErrno, inbuf).
     let c1 = c\<lparr>inputbuffer := inbuf\<rparr> in
     if n > 0 then invoke CallMessage (messagecallback cbs) c1
     else if n = 0 then handleClose tid cbs c1
     else handleError sockerr c1))"

definition forceCloseInLoop :: "pid \<Rightarrow> callbacks \<Rightarrow> connection \<Rightarrow> connection res" where
  "forceCloseInLoop tid cbs c =
     bind_res (assertInLoopThread tid c) (\<lambda>_.
     if conn_state c = KConnected \<or> conn_state c = KConnecting then handleClose tid cbs c else Inr c)"

definition startReadInLoop :: "pid \<Rightarrow> connection \<Rightarrow> connection res" where
  "startReadInLoop tid c =
     bind_res (assertInLoopThread tid c) (\<lambda>_.
     if \<not> reading c \<or> \<not> isReading (conn_channel c) then
       bind_res (on_channel (enableReading tid c) c) (\<lambda>c1. Inr (c1\<lparr>reading := True\<rparr>))
     else Inr c)"

definition stopReadInLoop :: "pid \<Rightarrow> connection \<Rightarrow> connection res" where
  "stopReadInLoop tid c =
     bind_res (assertInLoopThread tid c) (\<lambda>_.
     if reading c \<and> isReading (conn_channel c) then
       bind_res (on_channel (disenableReading tid c) c) (\<lambda>c1. Inr (c1\<lparr>reading := False\<rparr>))
     else Inr c)"

definition connectEstablished :: "pid \<Rightarrow> callbacks \<Rightarrow> connection \<Rightarrow> connection res" where
  "connectEstablished tid cbs c =
     bind_res (assertInLoopThread tid c) (\<lambda>_.
     bind_res (assert_res (conn_state c = KConnecting)) (\<lambda>_.
     let c1 = c\<lparr>conn_state := KConnected\<rparr> in
     bind_res (on_channel (enableReading tid c1) c1) (\<lambda>c2.
     invoke (CallConnection (conn_state c2)) (connectioncallback cbs) c2)))"

definition connectDestroyed :: "pid \<Rightarrow> callbacks \<Rightarrow> connection \<Rightarrow> connection res" where
  "connectDestroyed tid cbs c =
     bind_res (assertInLoopThread tid c) (\<lambda>_.
     bind_res
       (if conn_state c = KConnected then
          let c1 = c\<lparr>conn_state := KDisconnected\<rparr> in
          bind_res (on_channel (disableall tid c1) c1) (\<lambda>c2.
          invoke (CallConnection (conn_state c2)) (connectioncallback cbs) c2)
        else Inr c)
       (\<lambda>c3. on_channel (channel_remove tid c3 (channel_this c3)) c3))"

section \<open>Operations callable from any thread\<close>

definition exec_task ::
  "pid \<Rightarrow> callbacks \<Rightarrow> write_result \<Rightarrow> task \<Rightarrow> connection \<Rightarrow> connection res" where
  "exec_task tid cbs wr t c =
     (case t of
        TSend m \<Rightarrow> sendInLoop tid cbs wr m c
      | TShutdown \<Rightarrow> shutdownInLoop tid c
      | TForceClose \<Rightarrow> forceCloseInLoop tid cbs c
      | TStartRead \<Rightarrow> startReadInLoop tid c
      | TStopRead \<Rightarrow> stopReadInLoop tid c
      | TWriteComplete \<Rightarrow> invoke CallWriteComplete (writecompletecallback cbs) c
      | TReadMember \<Rightarrow> Inr c)"

definition send ::
  "pid \<Rightarrow> callbacks \<Rightarrow> write_result \<Rightarrow> buffer \<Rightarrow> connection \<Rightarrow> (buffer \<times> connection) res" where
  "send tid cbs wr buf c =
     (if conn_state c = KConnected then
        if isInloopthread tid c then
          bind_res (read_at (buffer_vec buf) (readerIndex buf) (readableBytes buf)) (\<lambda>message.
          bind_res (sendInLoop tid cbs wr message c) (\<lambda>c1. Inr (retrieveAll buf, c1)))
        else
          bind_res (retrieveAllAsString buf) (\<lambda>(msg, buf1).
          bind_res (runInLoop tid (exec_task tid cbs wr) (TSend msg) c) (\<lambda>c1. Inr (buf1, c1)))
      else Inr (buf, c))"

definition shutdown ::
  "pid \<Rightarrow> callbacks \<Rightarrow> write_result \<Rightarrow> connection \<Rightarrow> connection res" where
  "shutdown tid cbs wr c =
     (if conn_state c = KConnected
      then runInLoop tid (exec_task tid cbs wr) TShutdown (c\<lparr>conn_state := KDisconnecting\<rparr>)
      else Inr c)"

definition forceClose :: "pid \<Rightarrow> connection \<Rightarrow> connection" where
  "forceClose tid c =
     (if conn_state c = KConnected \<or> conn_state c = KConnecting
      then queueInLoop tid TForceClose (c\<lparr>conn_state := KDisconnecting\<rparr>)
      else c)"

definition startRead ::
  "pid \<Rightarrow> callbacks \<Rightarrow> write_result \<Rightarrow> connection \<Rightarrow> connection res" where
  "startRead tid cbs wr c = runInLoop tid (exec_task tid cbs wr) TStartRead c"

definition stopRead ::
  "pid \<Rightarrow> callbacks \<Rightarrow> write_result \<Rightarrow> connection \<Rightarrow> connection res" where
  "stopRead tid cbs wr c = runInLoop tid (exec_task tid cbs wr) TStopRead c"

section \<open>Runs of a connection\<close>

datatype conn_op = OTask task | OSend buffer | OShutdown | OForceClose | OStartRead | OStopRead
  | OEstablished | ODestroyed | ORead "int + byte list" | OWrite | OClose | OError int

fun conn_step ::
  "pid \<Rightarrow> callbacks \<Rightarrow> write_result \<Rightarrow> conn_op \<Rightarrow> connection \<Rightarrow> connection res" where
  "conn_step tid cbs wr (OTask t) c = exec_task tid cbs wr t c"
| "conn_step tid cbs wr (OSend buf) c = bind_res (send tid cbs wr buf c) (\<lambda>(b, c'). Inr c')"
| "conn_step tid cbs wr OShutdown c = shutdown tid cbs wr c"
| "conn_step tid cbs wr OForceClose c = Inr (forceClose tid c)"
| "conn_step tid cbs wr OStartRead c = startRead tid cbs wr c"
| "conn_step tid cbs wr OStopRead c = stopRead tid cbs wr c"
| "conn_step tid cbs wr OEstablished c = connectEstablished tid cbs c"
| "conn_step tid cbs wr ODestroyed c = connectDestroyed tid cbs c"
| "conn_step tid cbs wr (ORead r) c = handleRead tid cbs r 0 c"
| "conn_step tid cbs wr OWrite c = handleWrite tid cbs wr c"
| "conn_step tid cbs wr OClose c = handleClose tid cbs c"
| "conn_step tid cbs wr (OError e) c = handleError e c"

text \<open>Simplifications for the extended record.\<close>

lemma queueInLoop_conn [simp]:
  fixes c :: connection
  shows "conn_state (queueInLoop tid t c) = conn_state c"
    and "conn_channel (queueInLoop tid t c) = conn_channel c"
    and "outputbuffer (queueInLoop tid t c) = outputbuffer c"
    and "inputbuffer (queueInLoop tid t c) = inputbuffer c"
    and "sock_sent (queueInLoop tid t c) = sock_sent c"
    and "sock_shut (queueInLoop tid t c) = sock_shut c"
    and "accepted (queueInLoop tid t c) = accepted c"
    and "calls (queueInLoop tid t c) = calls c"
    and "reading (queueInLoop tid t c) = reading c"
    and "channel_this (queueInLoop tid t c) = channel_this c"
    and "eventHanding (queueInLoop tid t c) = eventHanding c"
  by (simp_all add: queueInLoop_def wakeup_def Let_def)

lemma on_channel_Inr:
  "on_channel f c = Inr c' \<longleftrightarrow> (\<exists>ch. f (conn_channel c) = Inr ch \<and> c' = c\<lparr>conn_channel := ch\<rparr>)"
  by (auto simp: on_channel_def bind_res_eq_Inr)

lemma invoke_Inr:
  "invoke what cb c = Inr c' \<longleftrightarrow> (\<exists>f. cb = Some f \<and> f (c\<lparr>calls := calls c @ [what]\<rparr>) = Inr c')"
  by (simp add: invoke_def split: option.split)

text \<open>A callback that succeeds keeps a property of the connection.\<close>

definition cbs_keep :: "callbacks \<Rightarrow> (connection \<Rightarrow> connection \<Rightarrow> bool) \<Rightarrow> bool" where
  "cbs_keep cbs R \<longleftrightarrow>
     (\<forall>f \<in> set_option (connectioncallback cbs) \<union> set_option (messagecallback cbs) \<union>
        set_option (closecallback cbs) \<union> set_option (writecompletecallback cbs).
        \<forall>c c'. f c = Inr c' \<longrightarrow> R c c')"

lemma cbs_keepD:
  assumes "cbs_keep cbs R" and "f c = Inr c'"
    and "connectioncallback cbs = Some f \<or> messagecallback cbs = Some f \<or>
      closecallback cbs = Some f \<or> writecompletecallback cbs = Some f"
  shows "R c c'"
  using assms by (auto simp: cbs_keep_def)

section \<open>The outgoing stream\<close>

text \<open>
  Everything accepted is either taken by the kernel or in the output buffer, in order; and
  as long as the connection is not disconnected, write interest is on exactly while there
  is something to write.
\<close>

definition stream_ok :: "connection \<Rightarrow> bool" where
  "stream_ok c \<longleftrightarrow> buf_inv (outputbuffer c) \<and>
     accepted c = sock_sent c @ content (outputbuffer c) \<and>
     (conn_state c \<noteq> KDisconnected \<longrightarrow>
        (isWriting (conn_channel c) \<longleftrightarrow> content (outputbuffer c) \<noteq> []))"

lemma stream_ok_cong:
  assumes "outputbuffer c' = outputbuffer c" and "accepted c' = accepted c"
    and "sock_sent c' = sock_sent c" and "conn_channel c' = conn_channel c"
    and "conn_state c' = conn_state c"
  shows "stream_ok c' = stream_ok c"
  by (simp add: stream_ok_def assms)

text \<open>The kernel's contract: \<open>write\<close> takes at most what it is given; no broken connection.\<close>

definition write_contract :: "write_result \<Rightarrow> bool" where
  "write_contract wr \<longleftrightarrow>
     (\<forall>c m. fst (wr c m) \<le> int (length m) \<and> snd (wr c m) \<notin> {EPIPE, ECONNRESET})"

lemma append_Inr:
  assumes "buf_inv b" and "length d < 2 ^ 63" and "Buffer.append d b = Inr b'"
  shows "buf_inv b' \<and> content b' = content b @ d"
proof (cases "buffer_fits (length d) b")
  case True
  from append_ok [OF assms(1) this assms(2)] assms(3) show ?thesis by auto
next
  case False
  from append_too_long [OF assms(1) False assms(2)] assms(3) show ?thesis by simp
qed

lemma mask_bit_1: "m AND WriteEvernt \<noteq> 0 \<longleftrightarrow> bit m 1"
proof
  assume nz: "m AND WriteEvernt \<noteq> 0"
  show "bit m 1"
  proof (rule ccontr)
    assume "\<not> bit m 1"
    then have "m AND WriteEvernt = 0"
      by (intro bit_word_eqI) (auto simp: bit_simps WriteEvernt_def bit_2_iff)
    with nz show False by simp
  qed
next
  assume "bit m 1"
  then have "bit (m AND WriteEvernt) 1" by (simp add: bit_and_iff WriteEvernt_def bit_2_iff)
  then show "m AND WriteEvernt \<noteq> 0" by force
qed

lemma isWriting_bit: "isWriting ch \<longleftrightarrow> bit (events ch) 1"
  by (simp add: isWriting_def mask_bit_1)

lemma isWriting_ops [simp]:
  "isWriting (ch\<lparr>events := events ch OR WriteEvernt, addedToLoop := b\<rparr>)"
  "\<not> isWriting (ch\<lparr>events := events ch AND NOT WriteEvernt, addedToLoop := b\<rparr>)"
  "isWriting (ch\<lparr>events := events ch OR ReadEvent, addedToLoop := b\<rparr>) = isWriting ch"
  "isWriting (ch\<lparr>events := events ch AND NOT ReadEvent, addedToLoop := b\<rparr>) = isWriting ch"
  by (auto simp: isWriting_bit bit_simps WriteEvernt_def ReadEvent_def bit_2_iff bit_1_iff)

lemma readable_zero: "buf_inv b \<Longrightarrow> readableBytes b = 0 \<longleftrightarrow> content b = []"
  by (metis length_0_conv unat_eq_zero unat_readable)

text \<open>The tail of \<open>sendInLoop\<close>: what is left over goes to the output buffer.\<close>

definition send_rest :: "pid \<Rightarrow> byte list \<Rightarrow> connection \<Rightarrow> connection res" where
  "send_rest tid rest c =
     (if rest \<noteq> [] then
        bind_res (Buffer.append rest (outputbuffer c)) (\<lambda>out.
        let c2 = c\<lparr>outputbuffer := out\<rparr> in
        if \<not> isWriting (conn_channel c2) then on_channel (enableWriting tid c2) c2 else Inr c2)
      else Inr c)"

lemma sendInLoop_buffered:
  assumes "isWriting (conn_channel c) \<or> readableBytes (outputbuffer c) \<noteq> 0"
    and "threadPid c \<noteq> tid" and "conn_state c \<noteq> KDisconnected"
  shows "sendInLoop tid cbs wr m c = send_rest tid m (c\<lparr>accepted := accepted c @ m\<rparr>)"
  using assms by (auto simp: sendInLoop_def assertInLoopThread_pass Let_def send_rest_def)

lemma sendInLoop_cases:
  assumes "write_contract wr" and "threadPid c \<noteq> tid" and "conn_state c \<noteq> KDisconnected"
  obtains (direct) n c1 where "\<not> isWriting (conn_channel c)" "readableBytes (outputbuffer c) = 0"
      "n \<le> length m" "c1 = c\<lparr>accepted := accepted c @ m, sock_sent := sock_sent c @ take n m\<rparr>"
      "sendInLoop tid cbs wr m c =
         send_rest tid (drop n m) (if n = length m \<and> writecompletecallback cbs \<noteq> None
           then queueInLoop tid TWriteComplete c1 else c1) \<or>
       n = 0 \<and> sendInLoop tid cbs wr m c = send_rest tid (drop n m) c1"
  | (buffered) "isWriting (conn_channel c) \<or> readableBytes (outputbuffer c) \<noteq> 0"
      "sendInLoop tid cbs wr m c = send_rest tid m (c\<lparr>accepted := accepted c @ m\<rparr>)"
proof (cases "isWriting (conn_channel c) \<or> readableBytes (outputbuffer c) \<noteq> 0")
  case True
  show ?thesis by (rule buffered [OF True sendInLoop_buffered [OF True assms(2,3)]])
next
  case False
  let ?c0 = "c\<lparr>accepted := accepted c @ m\<rparr>"
  obtain nw err where w: "wr ?c0 m = (nw, err)" by (cases "wr ?c0 m")
  with assms(1) have nw: "nw \<le> int (length m)" and err: "err \<notin> {EPIPE, ECONNRESET}"
    unfolding write_contract_def by (metis fst_conv, metis snd_conv)
  show ?thesis
  proof (cases "0 \<le> nw")
    case True
    let ?c1 = "?c0\<lparr>sock_sent := sock_sent c @ take (nat nw) m\<rparr>"
    have le: "nat nw \<le> length m" using nw by linarith
    have "sendInLoop tid cbs wr m c =
        send_rest tid (drop (nat nw) m) (if nat nw = length m \<and> writecompletecallback cbs \<noteq> None
          then queueInLoop tid TWriteComplete ?c1 else ?c1)"
      using False True assms(2,3) w le
      by (cases "nat nw = length m")
        (simp_all add: sendInLoop_def assertInLoopThread_pass Let_def send_rest_def)
    with False nw show ?thesis by (intro direct [of "nat nw" ?c1]) auto
  next
    case neg: False
    have "sendInLoop tid cbs wr m c = send_rest tid m ?c0"
      using False neg assms(2,3) w err
      by (simp add: sendInLoop_def assertInLoopThread_pass Let_def send_rest_def)
    with False show ?thesis by (intro direct [of 0 "?c0\<lparr>sock_sent := sock_sent c\<rparr>"]) auto
  qed
qed

lemma send_rest_stream:
  assumes out: "buf_inv (outputbuffer c)" and len: "length rest < 2 ^ 63"
    and acc: "accepted c = sock_sent c @ content (outputbuffer c) @ rest"
    and live: "isWriting (conn_channel c) \<longleftrightarrow> content (outputbuffer c) \<noteq> []"
    and run: "send_rest tid rest c = Inr c'"
  shows "stream_ok c' \<and> accepted c' = accepted c \<and> sock_sent c' = sock_sent c \<and>
    conn_state c' = conn_state c \<and> sock_shut c' = sock_shut c \<and> calls c' = calls c"
proof (cases "rest = []")
  case True
  with run acc out live show ?thesis by (auto simp: send_rest_def stream_ok_def)
next
  case False
  with run obtain b where b: "Buffer.append rest (outputbuffer c) = Inr b"
    by (auto simp: send_rest_def elim: bind_res_InrE)
  from append_Inr [OF out len b] have b': "buf_inv b" "content b = content (outputbuffer c) @ rest"
    by auto
  let ?c2 = "c\<lparr>outputbuffer := b\<rparr>"
  show ?thesis
  proof (cases "isWriting (conn_channel c)")
    case True
    with run b False have "c' = ?c2" by (simp add: send_rest_def Let_def)
    with True b' acc False show ?thesis by (simp add: stream_ok_def)
  next
    case writing: False
    with run b False obtain ch where ch: "enableWriting tid ?c2 (conn_channel c) = Inr ch"
      and c': "c' = ?c2\<lparr>conn_channel := ch\<rparr>"
      by (auto simp: send_rest_def Let_def on_channel_Inr)
    from ch have "isWriting ch"
      by (auto simp: enableWriting_def channel_update_Inr)
    with b' acc False c' show ?thesis by (simp add: stream_ok_def)
  qed
qed

lemma sendInLoop_stream:
  assumes ok: "stream_ok c" and con: "write_contract wr" and len: "length m < 2 ^ 63"
    and run: "sendInLoop tid cbs wr m c = Inr c'"
  shows "stream_ok c' \<and> conn_state c' = conn_state c \<and> sock_shut c' = sock_shut c \<and>
    calls c' = calls c \<and>
    accepted c' = accepted c @ (if conn_state c = KDisconnected then [] else m)"
proof -
  have guard: "threadPid c \<noteq> tid"
    using run by (auto simp: sendInLoop_def bind_res_eq_Inr)
  show ?thesis
  proof (cases "conn_state c = KDisconnected")
    case True
    with run guard ok show ?thesis by (simp add: sendInLoop_def assertInLoopThread_pass)
  next
    case live: False
    with ok have out: "buf_inv (outputbuffer c)" and acc: "accepted c = sock_sent c @ content (outputbuffer c)"
      and wr: "isWriting (conn_channel c) \<longleftrightarrow> content (outputbuffer c) \<noteq> []"
      by (auto simp: stream_ok_def)
    from con guard live show ?thesis
    proof (cases rule: sendInLoop_cases [where m = m and cbs = cbs])
      case (direct n c1)
      then have empty: "content (outputbuffer c) = []" using wr by simp
      obtain c2 where c2: "send_rest tid (drop n m) c2 = Inr c'"
        and same: "c2 = c1 \<or> c2 = queueInLoop tid TWriteComplete c1"
        using direct(5) run by (auto split: if_splits)
      have "accepted c2 = sock_sent c2 @ content (outputbuffer c2) @ drop n m"
        using same direct(4) acc empty by auto
      moreover have "isWriting (conn_channel c2) \<longleftrightarrow> content (outputbuffer c2) \<noteq> []"
        "buf_inv (outputbuffer c2)" using same direct(4) wr out by auto
      ultimately have "stream_ok c' \<and> accepted c' = accepted c2 \<and> sock_sent c' = sock_sent c2 \<and>
          conn_state c' = conn_state c2 \<and> sock_shut c' = sock_shut c2 \<and> calls c' = calls c2"
        using send_rest_stream [OF _ _ _ _ c2] len by simp
      with same direct(4) live show ?thesis by auto
    next
      case buffered
      have "stream_ok c' \<and> accepted c' = accepted c @ m \<and> conn_state c' = conn_state c \<and>
          sock_shut c' = sock_shut c \<and> calls c' = calls c"
        using send_rest_stream [of "c\<lparr>accepted := accepted c @ m\<rparr>" m tid c'] buffered(2) run out acc wr len
        by simp
      with live show ?thesis by simp
    qed
  qed
qed

text \<open>What a user callback is expected to leave alone: the stream and the write side.\<close>

definition keeps_stream :: "connection \<Rightarrow> connection \<Rightarrow> bool" where
  "keeps_stream c c' \<longleftrightarrow> (stream_ok c \<longrightarrow> stream_ok c') \<and> sock_shut c' = sock_shut c"

lemma invoke_stream:
  assumes "cbs_keep cbs keeps_stream" and "invoke what cb c = Inr c'" and "stream_ok c"
    and "cb = connectioncallback cbs \<or> cb = messagecallback cbs \<or> cb = closecallback cbs \<or>
      cb = writecompletecallback cbs"
  shows "stream_ok c' \<and> sock_shut c' = sock_shut c"
proof -
  let ?c1 = "c\<lparr>calls := calls c @ [what]\<rparr>"
  from assms(2) obtain f where f: "cb = Some f" and run: "f ?c1 = Inr c'"
    by (auto simp: invoke_Inr)
  have "keeps_stream ?c1 c'" by (rule cbs_keepD [where f = f, OF assms(1) run]) (use assms(4) f in auto)
  moreover have "stream_ok ?c1" using assms(3) by (simp add: stream_ok_def)
  ultimately show ?thesis by (simp add: keeps_stream_def)
qed

lemma shutdownInLoop_stream:
  assumes "stream_ok c" and "shutdownInLoop tid c = Inr c'"
  shows "stream_ok c' \<and> conn_state c' = conn_state c \<and> accepted c' = accepted c \<and>
    sock_sent c' = sock_sent c \<and>
    (sock_shut c' \<longrightarrow> sock_shut c \<or> conn_state c = KDisconnected \<or> accepted c = sock_sent c)"
  using assms
  by (auto simp: shutdownInLoop_def bind_res_eq_Inr stream_ok_def split: if_splits)

lemma handleClose_stream:
  assumes "cbs_keep cbs keeps_stream" and "stream_ok c" and "handleClose tid cbs c = Inr c'"
  shows "stream_ok c' \<and> sock_shut c' = sock_shut c"
proof -
  let ?c1 = "c\<lparr>conn_state := KDisconnected\<rparr>"
  from assms(3) obtain c2 c3 where c2: "on_channel (disableall tid ?c1) ?c1 = Inr c2"
    and c3: "invoke (CallConnection (conn_state c2)) (connectioncallback cbs) c2 = Inr c3"
    and c': "invoke CallClose (closecallback cbs) c3 = Inr c'"
    by (auto simp: handleClose_def Let_def bind_res_eq_Inr)
  from c2 assms(2) have s2: "stream_ok c2" "sock_shut c2 = sock_shut c"
    by (auto simp: on_channel_Inr stream_ok_def)
  with invoke_stream [OF assms(1) c3] invoke_stream [OF assms(1) c'] show ?thesis by simp
qed

text \<open>The three ways \<open>handleWrite\<close> returns: nothing done, part written, everything written.\<close>

lemma handleWrite_cases:
  assumes run: "handleWrite tid cbs wr c = Inr c'"
  defines "n \<equiv> fst (wr c (content (outputbuffer c)))"
  obtains (idle) "c' = c"
    | (part) b where "0 < n" "retrieve (of_int n) (outputbuffer c) = Inr b" "readableBytes b \<noteq> 0"
        "c' = c\<lparr>sock_sent := sock_sent c @ take (nat n) (content (outputbuffer c)), outputbuffer := b\<rparr>"
        "isWriting (conn_channel c)"
    | (flushed) b c2 c3 where "0 < n" "retrieve (of_int n) (outputbuffer c) = Inr b \<and> readableBytes b = 0"
        "on_channel (disableWriting tid (c\<lparr>sock_sent := sock_sent c @ take (nat n) (content (outputbuffer c)),
           outputbuffer := b\<rparr>)) (c\<lparr>sock_sent := sock_sent c @ take (nat n) (content (outputbuffer c)),
           outputbuffer := b\<rparr>) = Inr c2"
        "c3 = (if writecompletecallback cbs \<noteq> None then queueInLoop tid TReadMember c2 else c2)"
        "c' = c3 \<or> shutdownInLoop tid c3 = Inr c'"
proof -
  have guard: "threadPid c \<noteq> tid" using run by (auto simp: handleWrite_def bind_res_eq_Inr)
  show thesis
  proof (cases "isWriting (conn_channel c) \<and> 0 < n")
    case False
    with run guard have "c' = c"
      by (auto simp: handleWrite_def assertInLoopThread_pass Let_def n_def split: if_splits)
    then show thesis by (rule idle)
  next
    case True
    let ?c0 = "c\<lparr>sock_sent := sock_sent c @ take (nat n) (content (outputbuffer c))\<rparr>"
    from run guard True obtain b where b: "retrieve (of_int n) (outputbuffer c) = Inr b"
      by (auto simp: handleWrite_def assertInLoopThread_pass Let_def n_def elim: bind_res_InrE)
    show thesis
    proof (cases "readableBytes b = 0")
      case False
      with run guard True b have "c' = ?c0\<lparr>outputbuffer := b\<rparr>"
        by (simp add: handleWrite_def assertInLoopThread_pass Let_def n_def)
      with True False b show thesis by (intro part) auto
    next
      case empty: True
      let ?c1 = "?c0\<lparr>outputbuffer := b\<rparr>"
      from run guard True b empty obtain c2 where
        c2: "on_channel (disableWriting tid ?c1) ?c1 = Inr c2"
        and c': "(let c3 = (if writecompletecallback cbs \<noteq> None then queueInLoop tid TReadMember c2 else c2) in
          if conn_state c3 = KDisconnecting then shutdownInLoop tid c3 else Inr c3) = Inr c'"
        by (auto simp: handleWrite_def assertInLoopThread_pass Let_def n_def elim!: bind_res_InrE)
      define c3 where "c3 = (if writecompletecallback cbs \<noteq> None then queueInLoop tid TReadMember c2 else c2)"
      have "c' = c3 \<or> shutdownInLoop tid c3 = Inr c'"
        using c' unfolding c3_def [symmetric] Let_def by (simp split: if_splits)
      with True b empty c2 c3_def show thesis by (intro flushed [of b c2 c3]) auto
    qed
  qed
qed

text \<open>Taking what the kernel has written off the output buffer.\<close>

lemma retrieve_written:
  assumes inv: "buf_inv b" and "0 < n" and le: "n \<le> int (length (content b))"
  shows "\<exists>b'. retrieve (of_int n) b = Inr b' \<and> buf_inv b' \<and> content b' = drop (nat n) (content b)"
proof -
  have nle: "nat n \<le> length (content b)" using le by simp
  moreover have "length (content b) < 2 ^ 64"
    using unat_readable [OF inv] unat_size_lt [of "readableBytes b"] by simp
  ultimately have "unat (of_int n :: size_t) = nat n"
    using unat_of_nat_size [of "nat n"] assms(2) by simp
  with retrieve_ok [OF inv, of "of_int n"] nle show ?thesis by auto
qed

lemma handleWrite_stream:
  assumes ok: "stream_ok c" and con: "write_contract wr" and run: "handleWrite tid cbs wr c = Inr c'"
  shows "stream_ok c' \<and> accepted c' = accepted c \<and>
    (sock_shut c' \<longrightarrow> sock_shut c \<or> conn_state c = KDisconnected \<or> accepted c' = sock_sent c')"
proof -
  let ?out = "content (outputbuffer c)" and ?n = "fst (wr c (content (outputbuffer c)))"
  let ?c0 = "c\<lparr>sock_sent := sock_sent c @ take (nat ?n) ?out\<rparr>"
  have inv: "buf_inv (outputbuffer c)" using ok by (simp add: stream_ok_def)
  have "?n \<le> int (length ?out)" using con unfolding write_contract_def by blast
  then have taken: "buf_inv b \<and> content b = drop (nat ?n) ?out"
    if "0 < ?n" "retrieve (of_int ?n) (outputbuffer c) = Inr b" for b
    using retrieve_written [OF inv that(1)] that(2) by auto
  from run show ?thesis
  proof (cases rule: handleWrite_cases)
    case idle
    with ok show ?thesis by simp
  next
    case (part b)
    with taken [OF part(1,2)] ok readable_zero [of b] show ?thesis
      by (auto simp: stream_ok_def)
  next
    case (flushed b c2 c3)
    then have "buf_inv b \<and> content b = drop (nat ?n) ?out" and r0: "readableBytes b = 0"
      using taken [of b] by blast+
    then have b: "buf_inv b" "content b = drop (nat ?n) ?out" by blast+
    with r0 have nil: "content b = []" using readable_zero by blast
    let ?c1 = "?c0\<lparr>outputbuffer := b\<rparr>"
    have acc: "accepted c = sock_sent ?c1" using ok b(2) nil by (simp add: stream_ok_def)
    have "\<not> isWriting (conn_channel c2) \<and> outputbuffer c2 = b \<and> accepted c2 = accepted c \<and>
        sock_sent c2 = sock_sent ?c1 \<and> sock_shut c2 = sock_shut c \<and> conn_state c2 = conn_state c"
      using flushed(3) by (auto simp: on_channel_Inr disableWriting_def channel_update_Inr)
    then have s3: "\<not> isWriting (conn_channel c3)" "outputbuffer c3 = b" "accepted c3 = accepted c"
        "sock_sent c3 = sock_sent ?c1" "sock_shut c3 = sock_shut c" "conn_state c3 = conn_state c"
      by (simp_all add: flushed(4))
    have ok3: "stream_ok c3" using s3 b(1) nil acc by (simp add: stream_ok_def)
    with flushed(5) shutdownInLoop_stream [OF ok3] s3 acc show ?thesis by auto
  qed
qed

lemma on_channel_reading_stream:
  assumes "stream_ok c" and "on_channel (enableReading tid c1) c1 = Inr c2 \<or>
      on_channel (disenableReading tid c1) c1 = Inr c2"
    and "c1 = c \<or> conn_state c \<noteq> KDisconnected \<and> c1 = c\<lparr>conn_state := st\<rparr>"
  shows "stream_ok c2 \<and> sock_shut c2 = sock_shut c"
  using assms
  by (auto simp: on_channel_Inr stream_ok_def enableReading_def disenableReading_def channel_update_Inr)

lemma connectDestroyed_stream:
  assumes keep: "cbs_keep cbs keeps_stream" and ok: "stream_ok c"
    and run: "connectDestroyed tid cbs c = Inr c'"
  shows "stream_ok c' \<and> sock_shut c' = sock_shut c"
proof -
  obtain c3 where c3: "stream_ok c3 \<and> sock_shut c3 = sock_shut c"
    and rem: "on_channel (channel_remove tid c3 (channel_this c3)) c3 = Inr c'"
  proof (cases "conn_state c = KConnected")
    case True
    let ?c1 = "c\<lparr>conn_state := KDisconnected\<rparr>"
    from True run obtain c2 c3 where c2: "on_channel (disableall tid ?c1) ?c1 = Inr c2"
      and c3: "invoke (CallConnection (conn_state c2)) (connectioncallback cbs) c2 = Inr c3"
      and rem: "on_channel (channel_remove tid c3 (channel_this c3)) c3 = Inr c'"
      by (auto simp: connectDestroyed_def Let_def bind_res_eq_Inr)
    from c2 ok have "stream_ok c2" "sock_shut c2 = sock_shut c"
      by (auto simp: on_channel_Inr stream_ok_def)
    with invoke_stream [OF keep c3] rem that show ?thesis by simp
  next
    case False
    with run have "on_channel (channel_remove tid c (channel_this c)) c = Inr c'"
      by (auto simp: connectDestroyed_def bind_res_eq_Inr)
    with ok that show ?thesis by blast
  qed
  from rem obtain ch where ch: "channel_remove tid c3 (channel_this c3) (conn_channel c3) = Inr ch"
    and c': "c' = c3\<lparr>conn_channel := ch\<rparr>" by (auto simp: on_channel_Inr)
  from channel_remove_Inr [OF ch] have "isWriting ch = isWriting (conn_channel c3)"
    by (simp add: isWriting_def)
  with c3 c' show ?thesis by (auto simp: stream_ok_def)
qed

lemma handleRead_stream:
  assumes keep: "cbs_keep cbs keeps_stream" and ok: "stream_ok c"
    and run: "handleRead tid cbs r e c = Inr c'"
  shows "stream_ok c' \<and> sock_shut c' = sock_shut c"
proof -
  from run obtain n en b where "readFd r (inputbuffer c) = Inr (n, en, b)"
    and rest: "(if n > 0 then invoke CallMessage (messagecallback cbs) (c\<lparr>inputbuffer := b\<rparr>)
     else if n = 0 then handleClose tid cbs (c\<lparr>inputbuffer := b\<rparr>)
     else handleError e (c\<lparr>inputbuffer := b\<rparr>)) = Inr c'"
    by (auto simp: handleRead_def Let_def bind_res_eq_Inr)
  let ?c1 = "c\<lparr>inputbuffer := b\<rparr>"
  have ok1: "stream_ok ?c1" using ok by (simp add: stream_ok_def)
  from rest show ?thesis
    using invoke_stream [OF keep _ ok1, of CallMessage "messagecallback cbs" c']
      handleClose_stream [OF keep ok1, of tid c'] ok1
    by (auto simp: handleError_def split: if_splits)
qed

definition op_ok :: "conn_op \<Rightarrow> bool" where
  "op_ok op \<longleftrightarrow> (\<forall>m. op = OTask (TSend m) \<longrightarrow> length m < 2 ^ 63)"

lemma exec_task_stream:
  assumes keep: "cbs_keep cbs keeps_stream" and con: "write_contract wr" and ok: "stream_ok c"
    and small: "op_ok (OTask t)" and run: "exec_task tid cbs wr t c = Inr c'"
  shows "stream_ok c' \<and>
    (sock_shut c' \<longrightarrow> sock_shut c \<or> conn_state c = KDisconnected \<or> accepted c' = sock_sent c')"
proof (cases t)
  case (TSend m)
  with sendInLoop_stream [OF ok con, of m tid cbs c'] small run show ?thesis
    by (simp add: exec_task_def op_ok_def)
next
  case TShutdown
  with run have "shutdownInLoop tid c = Inr c'" by (simp add: exec_task_def)
  from shutdownInLoop_stream [OF ok this] show ?thesis by auto
next
  case TForceClose
  with run handleClose_stream [OF keep ok] ok show ?thesis
    by (auto simp: exec_task_def forceCloseInLoop_def bind_res_eq_Inr split: if_splits)
next
  case TStartRead
  have "stream_ok c'' \<Longrightarrow> stream_ok (c''\<lparr>reading := b\<rparr>)" for c'' b by (simp add: stream_ok_def)
  with TStartRead run ok on_channel_reading_stream [OF ok, of tid c] show ?thesis
    by (auto simp: exec_task_def startReadInLoop_def bind_res_eq_Inr split: if_splits)
next
  case TStopRead
  have "stream_ok c'' \<Longrightarrow> stream_ok (c''\<lparr>reading := b\<rparr>)" for c'' b by (simp add: stream_ok_def)
  with TStopRead run ok on_channel_reading_stream [OF ok, of tid c] show ?thesis
    by (auto simp: exec_task_def stopReadInLoop_def bind_res_eq_Inr split: if_splits)
next
  case TWriteComplete
  with run invoke_stream [OF keep _ ok] show ?thesis by (auto simp: exec_task_def)
next
  case TReadMember
  with run ok show ?thesis by (simp add: exec_task_def)
qed

lemma queue_stream [simp]: "stream_ok (queueInLoop tid t c) = stream_ok c"
  by (rule stream_ok_cong) simp_all

lemma conn_step_stream:
  assumes keep: "cbs_keep cbs keeps_stream" and con: "write_contract wr" and ok: "stream_ok c"
    and small: "op_ok op" and run: "conn_step tid cbs wr op c = Inr c'"
  shows "stream_ok c' \<and>
    (sock_shut c' \<longrightarrow> sock_shut c \<or> conn_state c = KDisconnected \<or> accepted c' = sock_sent c')"
proof -
  have task: "stream_ok c' \<and>
      (sock_shut c' \<longrightarrow> sock_shut d \<or> conn_state d = KDisconnected \<or> accepted c' = sock_sent c')"
    if "runInLoop tid (exec_task tid cbs wr) t d = Inr c'" "stream_ok d" "op_ok (OTask t)" for t d
    using that exec_task_stream [OF keep con that(2,3), of tid c']
    by (auto simp: runInLoop_def split: if_splits)
  show ?thesis
  proof (cases op)
    case (OTask t)
    with exec_task_stream [OF keep con ok, of t tid c'] small run show ?thesis by simp
  next
    case (OSend buf)
    from run OSend obtain b where b: "send tid cbs wr buf c = Inr (b, c')"
      by (auto simp: bind_res_eq_Inr)
    show ?thesis
    proof (cases "conn_state c = KConnected \<and> isInloopthread tid c")
      case True
      with b have False
        by (auto simp: send_def bind_res_eq_Inr sendInLoop_def isInloopthread_def)
      then show ?thesis ..
    next
      case False
      with b have "c' = c \<or> (\<exists>m. c' = queueInLoop tid (TSend m) c)"
        by (auto simp: send_def bind_res_eq_Inr runInLoop_def split: if_splits)
      with ok show ?thesis by auto
    qed
  next
    case OShutdown
    show ?thesis
    proof (cases "conn_state c = KConnected")
      case True
      with ok have "stream_ok (c\<lparr>conn_state := KDisconnecting\<rparr>)" by (simp add: stream_ok_def)
      with task [OF _ this, of TShutdown] run OShutdown True show ?thesis
        by (simp add: shutdown_def op_ok_def)
    qed (use run OShutdown ok in \<open>simp add: shutdown_def\<close>)
  next
    case OForceClose
    have "conn_state c \<noteq> KDisconnected \<Longrightarrow> stream_ok (c\<lparr>conn_state := KDisconnecting\<rparr>)"
      using ok by (simp add: stream_ok_def)
    with run OForceClose ok show ?thesis by (auto simp: forceClose_def split: if_splits)
  next
    case OEstablished
    let ?c1 = "c\<lparr>conn_state := KConnected\<rparr>"
    from run OEstablished obtain c2 where "conn_state c = KConnecting"
      and c2: "on_channel (enableReading tid ?c1) ?c1 = Inr c2"
      and inv: "invoke (CallConnection (conn_state c2)) (connectioncallback cbs) c2 = Inr c'"
      by (auto simp: connectEstablished_def Let_def bind_res_eq_Inr)
    then have "stream_ok c2 \<and> sock_shut c2 = sock_shut c"
      using on_channel_reading_stream [OF ok, of tid ?c1 c2 KConnected] by simp
    with invoke_stream [OF keep inv] show ?thesis by simp
  next
    case OWrite
    with run handleWrite_stream [OF ok con, of tid cbs c'] show ?thesis by auto
  qed (use run ok task [OF _ ok] connectDestroyed_stream [OF keep ok] handleRead_stream [OF keep ok]
      handleClose_stream [OF keep ok]
      in \<open>auto simp: startRead_def stopRead_def handleError_def op_ok_def\<close>)
qed

definition stream_good :: "callbacks \<Rightarrow> write_result \<Rightarrow> connection \<Rightarrow> bool" where
  "stream_good cbs wr c \<longleftrightarrow> cbs_keep cbs keeps_stream \<and> write_contract wr \<and> stream_ok c"

interpretation stm: machine "checked op_ok (conn_step tid cbs wr)" "stream_good cbs wr" for tid cbs wr
  by unfold_locales (auto simp: stream_good_def checked_Inr dest: conn_step_stream)

lemma TcpConnection_ctor_stream:
  assumes "TcpConnection_ctor opt loop chp nm fd la pa ib ob k = Inr (c, k')"
    and "buf_inv ob" and "content ob = []"
  shows "stream_ok c" and "conn_state c = KConnecting" and "calls c = []" and "\<not> sock_shut c"
  using assms
  by (auto simp: TcpConnection_ctor_def Let_def stream_ok_def event_loop.defs isWriting_def
    channel_setter_defs new_channel_def setKeepAlive_def split: option.splits)

text \<open>With room in the output buffer and the channel on its own loop, sending returns.\<close>

lemma send_rest_returns:
  assumes "buf_inv (outputbuffer c)" and "length rest \<le> buffer_room (outputbuffer c)"
    and "ch_loop (conn_channel c) = loop_this c" and "threadPid c \<noteq> tid"
  shows "\<exists>c'. send_rest tid rest c = Inr c'"
proof -
  from bs.put_ok [OF assms(1,2)] obtain b where "Buffer.append rest (outputbuffer c) = Inr b" by blast
  with assms(3,4) show ?thesis
    by (auto simp: send_rest_def Let_def on_channel_def enableWriting_def channel_update_eq)
qed

lemma sendInLoop_returns:
  assumes ok: "stream_ok c" and con: "write_contract wr" and guard: "threadPid c \<noteq> tid"
    and room: "length m \<le> buffer_room (outputbuffer c)"
    and own: "ch_loop (conn_channel c) = loop_this c"
  shows "\<exists>c'. sendInLoop tid cbs wr m c = Inr c'"
proof (cases "conn_state c = KDisconnected")
  case True
  with guard show ?thesis by (simp add: sendInLoop_def assertInLoopThread_pass)
next
  case False
  have out: "buf_inv (outputbuffer c)" using ok by (simp add: stream_ok_def)
  have ret: "\<exists>c'. send_rest tid (drop n m) d = Inr c'"
    if "outputbuffer d = outputbuffer c" "conn_channel d = conn_channel c" "threadPid d = threadPid c"
      "loop_this d = loop_this c" for n d
    using that room own guard out by (intro send_rest_returns) auto
  from con guard False show ?thesis
  proof (cases rule: sendInLoop_cases [where m = m and cbs = cbs])
    case (direct n c1)
    then show ?thesis
      using ret [of c1 n] ret [of "queueInLoop tid TWriteComplete c1" n] by auto
  next
    case buffered
    then show ?thesis using ret [of "c\<lparr>accepted := accepted c @ m\<rparr>" 0] by simp
  qed
qed

section \<open>The life of a connection\<close>

text \<open>The connection and close callbacks run so far.\<close>

fun life_call :: "user_call \<Rightarrow> bool" where
  "life_call (CallConnection s) = True"
| "life_call CallClose = True"
| "life_call _ = False"

definition life_log :: "connection \<Rightarrow> user_call list" where
  "life_log c = filter life_call (calls c)"

definition UP :: user_call where "UP = CallConnection KConnected"
definition DOWN :: user_call where "DOWN = CallConnection KDisconnected"

fun life_spec :: "conn_state \<Rightarrow> user_call list \<Rightarrow> bool" where
  "life_spec KConnecting log = (log = [])"
| "life_spec KConnected log = (log = [UP])"
| "life_spec KDisconnecting log = (log = [] \<or> log = [UP])"
| "life_spec KDisconnected log =
     (log \<in> {[DOWN], [DOWN, CallClose], [UP, DOWN], [UP, DOWN, CallClose]})"

definition life_ok :: "connection \<Rightarrow> bool" where
  "life_ok c \<longleftrightarrow> life_spec (conn_state c) (life_log c)"

text \<open>A user callback runs no callbacks itself and at most starts the closing.\<close>

definition keeps_life :: "connection \<Rightarrow> connection \<Rightarrow> bool" where
  "keeps_life c c' \<longleftrightarrow> calls c' = calls c \<and>
     (conn_state c' = conn_state c \<or> conn_state c = KConnected \<and> conn_state c' = KDisconnecting)"

lemma life_ok_cong:
  "calls c' = calls c \<Longrightarrow> conn_state c' = conn_state c \<Longrightarrow> life_ok c' = life_ok c"
  by (simp add: life_ok_def life_log_def)

lemma keeps_life_ok: "keeps_life c c' \<Longrightarrow> life_ok c \<Longrightarrow> life_ok c'"
  by (auto simp: keeps_life_def life_ok_def life_log_def)

lemma invoke_life:
  assumes "cbs_keep cbs keeps_life" and "invoke what cb c = Inr c'"
    and "cb = connectioncallback cbs \<or> cb = messagecallback cbs \<or> cb = closecallback cbs \<or>
      cb = writecompletecallback cbs"
  shows "keeps_life (c\<lparr>calls := calls c @ [what]\<rparr>) c'"
proof -
  from assms(2) obtain f where f: "cb = Some f" and run: "f (c\<lparr>calls := calls c @ [what]\<rparr>) = Inr c'"
    by (auto simp: invoke_Inr)
  show ?thesis by (rule cbs_keepD [where f = f, OF assms(1) run]) (use assms(3) f in auto)
qed

lemma on_channel_life:
  assumes "on_channel f c = Inr c'"
  shows "conn_state c' = conn_state c" and "calls c' = calls c"
  using assms by (auto simp: on_channel_Inr)

lemma send_rest_life:
  assumes "send_rest tid rest c = Inr c'"
  shows "conn_state c' = conn_state c \<and> calls c' = calls c"
proof (cases "rest = []")
  case False
  with assms obtain b where "(if \<not> isWriting (conn_channel (c\<lparr>outputbuffer := b\<rparr>))
      then on_channel (enableWriting tid (c\<lparr>outputbuffer := b\<rparr>)) (c\<lparr>outputbuffer := b\<rparr>)
      else Inr (c\<lparr>outputbuffer := b\<rparr>)) = Inr c'"
    unfolding send_rest_def Let_def by (auto elim: bind_res_InrE)
  then show ?thesis by (auto simp: on_channel_Inr split: if_splits)
qed (use assms in \<open>simp add: send_rest_def\<close>)

lemma sendInLoop_shape:
  assumes "threadPid c \<noteq> tid" and "conn_state c \<noteq> KDisconnected"
  shows "\<exists>rest c1. sendInLoop tid cbs wr m c = send_rest tid rest c1 \<and>
    conn_state c1 = conn_state c \<and> calls c1 = calls c \<and> conn_channel c1 = conn_channel c \<and>
    threadPid c1 = threadPid c \<and> loop_this c1 = loop_this c \<and> eventHanding c1 = eventHanding c"
proof -
  let ?c0 = "c\<lparr>accepted := accepted c @ m\<rparr>"
  obtain nw err where w: "wr ?c0 m = (nw, err)" by (cases "wr ?c0 m")
  let ?c1 = "?c0\<lparr>sock_sent := sock_sent c @ take (nat nw) m\<rparr>"
  let ?q = "if length m - nat nw = 0 \<and> writecompletecallback cbs \<noteq> None
    then queueInLoop tid TWriteComplete ?c1 else ?c1"
  consider (buffered) "isWriting (conn_channel c) \<or> readableBytes (outputbuffer c) \<noteq> 0"
    | (wrote) "\<not> (isWriting (conn_channel c) \<or> readableBytes (outputbuffer c) \<noteq> 0)" "0 \<le> nw"
    | (failed) "\<not> (isWriting (conn_channel c) \<or> readableBytes (outputbuffer c) \<noteq> 0)" "\<not> 0 \<le> nw"
    by blast
  then show ?thesis
  proof cases
    case buffered
    from sendInLoop_buffered [OF this assms] have "sendInLoop tid cbs wr m c = send_rest tid m ?c0" .
    then show ?thesis by (intro exI conjI) (assumption, simp_all)
  next
    case wrote
    with assms w have "sendInLoop tid cbs wr m c = send_rest tid (drop (nat nw) m) ?q"
      by (cases "nat nw < length m")
        (simp_all add: sendInLoop_def assertInLoopThread_pass Let_def send_rest_def)
    then show ?thesis by (intro exI conjI) (assumption, simp_all)
  next
    case failed
    let ?rest = "if err \<noteq> EAGAIN \<and> (err = EPIPE \<or> err = ECONNRESET) then [] else m"
    from failed assms w have "sendInLoop tid cbs wr m c = send_rest tid ?rest ?c0"
      by (cases "err = EPIPE \<or> err = ECONNRESET") (auto simp: sendInLoop_def assertInLoopThread_pass Let_def send_rest_def)
    then show ?thesis by (intro exI conjI) (assumption, simp_all)
  qed
qed

lemma sendInLoop_life:
  assumes "sendInLoop tid cbs wr m c = Inr c'"
  shows "conn_state c' = conn_state c" and "calls c' = calls c"
proof -
  have guard: "threadPid c \<noteq> tid"
    using assms by (auto simp: sendInLoop_def bind_res_eq_Inr)
  have "conn_state c' = conn_state c \<and> calls c' = calls c"
  proof (cases "conn_state c = KDisconnected")
    case True
    with assms guard show ?thesis by (simp add: sendInLoop_def assertInLoopThread_pass)
  next
    case False
    from sendInLoop_shape [OF guard False] assms send_rest_life show ?thesis by metis
  qed
  then show "conn_state c' = conn_state c" and "calls c' = calls c" by auto
qed

lemma shutdownInLoop_life:
  assumes "shutdownInLoop tid c = Inr c'"
  shows "conn_state c' = conn_state c" and "calls c' = calls c"
  using assms by (auto simp: shutdownInLoop_def bind_res_eq_Inr split: if_splits)

lemma handleWrite_life:
  assumes "handleWrite tid cbs wr c = Inr c'"
  shows "conn_state c' = conn_state c" and "calls c' = calls c"
proof -
  have "conn_state c' = conn_state c \<and> calls c' = calls c"
    using assms
  proof (cases rule: handleWrite_cases)
    case (flushed b c2 c3)
    then have "conn_state c3 = conn_state c \<and> calls c3 = calls c"
      by (simp add: on_channel_life [OF flushed(3)])
    with flushed(5) shutdownInLoop_life [of tid c3 c'] show ?thesis by auto
  qed simp_all
  then show "conn_state c' = conn_state c" and "calls c' = calls c" by auto
qed

lemma handleClose_life:
  assumes keep: "cbs_keep cbs keeps_life" and ok: "life_ok c" and run: "handleClose tid cbs c = Inr c'"
  shows "life_ok c'"
proof -
  let ?c1 = "c\<lparr>conn_state := KDisconnected\<rparr>"
  from run obtain c2 c3 where st: "conn_state c = KConnected \<or> conn_state c = KDisconnecting"
    and c2: "on_channel (disableall tid ?c1) ?c1 = Inr c2"
    and c3: "invoke (CallConnection (conn_state c2)) (connectioncallback cbs) c2 = Inr c3"
    and c': "invoke CallClose (closecallback cbs) c3 = Inr c'"
    by (auto simp: handleClose_def Let_def bind_res_eq_Inr)
  from on_channel_life [OF c2] have s2: "conn_state c2 = KDisconnected" "calls c2 = calls c" by simp_all
  with invoke_life [OF keep c3] have s3: "conn_state c3 = KDisconnected" "calls c3 = calls c @ [DOWN]"
    by (auto simp: keeps_life_def DOWN_def)
  with invoke_life [OF keep c'] have "conn_state c' = KDisconnected" "calls c' = calls c @ [DOWN, CallClose]"
    by (auto simp: keeps_life_def)
  with ok st show ?thesis by (auto simp: life_ok_def life_log_def DOWN_def)
qed

lemma connectDestroyed_life:
  assumes keep: "cbs_keep cbs keeps_life" and ok: "life_ok c" and run: "connectDestroyed tid cbs c = Inr c'"
  shows "life_ok c'"
proof (cases "conn_state c = KConnected")
  case True
  let ?c1 = "c\<lparr>conn_state := KDisconnected\<rparr>"
  from True run obtain c2 c3 where c2: "on_channel (disableall tid ?c1) ?c1 = Inr c2"
    and c3: "invoke (CallConnection (conn_state c2)) (connectioncallback cbs) c2 = Inr c3"
    and rem: "on_channel (channel_remove tid c3 (channel_this c3)) c3 = Inr c'"
    by (auto simp: connectDestroyed_def Let_def bind_res_eq_Inr)
  from on_channel_life [OF c2] have "conn_state c2 = KDisconnected" "calls c2 = calls c" by simp_all
  with invoke_life [OF keep c3] have "conn_state c3 = KDisconnected" "calls c3 = calls c @ [DOWN]"
    by (auto simp: keeps_life_def DOWN_def)
  with on_channel_life [OF rem] ok True show ?thesis by (auto simp: life_ok_def life_log_def DOWN_def)
next
  case False
  with run have "on_channel (channel_remove tid c (channel_this c)) c = Inr c'"
    by (auto simp: connectDestroyed_def bind_res_eq_Inr)
  from on_channel_life [OF this] ok show ?thesis using life_ok_cong by blast
qed

lemma connectEstablished_life:
  assumes keep: "cbs_keep cbs keeps_life" and ok: "life_ok c" and run: "connectEstablished tid cbs c = Inr c'"
  shows "life_ok c'"
proof -
  let ?c1 = "c\<lparr>conn_state := KConnected\<rparr>"
  from run obtain c2 where st: "conn_state c = KConnecting"
    and c2: "on_channel (enableReading tid ?c1) ?c1 = Inr c2"
    and c': "invoke (CallConnection (conn_state c2)) (connectioncallback cbs) c2 = Inr c'"
    by (auto simp: connectEstablished_def Let_def bind_res_eq_Inr)
  from on_channel_life [OF c2] have s2: "conn_state c2 = KConnected" "calls c2 = calls c" by simp_all
  have "life_ok (c2\<lparr>calls := calls c2 @ [CallConnection (conn_state c2)]\<rparr>)"
    using ok st s2 by (simp add: life_ok_def life_log_def UP_def)
  from keeps_life_ok [OF invoke_life [OF keep c'] this] show ?thesis by simp
qed

lemma handleRead_life:
  assumes keep: "cbs_keep cbs keeps_life" and ok: "life_ok c" and run: "handleRead tid cbs r e c = Inr c'"
  shows "life_ok c'"
proof -
  from run obtain n en b where "readFd r (inputbuffer c) = Inr (n, en, b)"
    and rest: "(if n > 0 then invoke CallMessage (messagecallback cbs) (c\<lparr>inputbuffer := b\<rparr>)
     else if n = 0 then handleClose tid cbs (c\<lparr>inputbuffer := b\<rparr>)
     else handleError e (c\<lparr>inputbuffer := b\<rparr>)) = Inr c'"
    by (auto simp: handleRead_def Let_def bind_res_eq_Inr)
  let ?c1 = "c\<lparr>inputbuffer := b\<rparr>"
  have ok1: "life_ok ?c1" using ok by (simp add: life_ok_def life_log_def)
  have "life_ok c'" if "invoke CallMessage (messagecallback cbs) ?c1 = Inr c'"
  proof (rule keeps_life_ok [OF invoke_life [OF keep that]])
    show "life_ok (?c1\<lparr>calls := calls ?c1 @ [CallMessage]\<rparr>)"
      using ok1 by (simp add: life_ok_def life_log_def)
  qed simp
  with rest handleClose_life [OF keep ok1, of tid c'] ok1 show ?thesis
    by (auto simp: handleError_def split: if_splits)
qed

lemma exec_task_life:
  assumes keep: "cbs_keep cbs keeps_life" and ok: "life_ok c" and run: "exec_task tid cbs wr t c = Inr c'"
  shows "life_ok c'"
proof (cases t)
  case (TSend m)
  with run sendInLoop_life [of tid cbs wr m c c'] ok show ?thesis
    by (simp add: exec_task_def life_ok_cong [of c' c])
next
  case TShutdown
  with run shutdownInLoop_life [of tid c c'] ok show ?thesis
    by (simp add: exec_task_def life_ok_cong [of c' c])
next
  case TForceClose
  with run handleClose_life [OF keep ok, of tid c'] ok show ?thesis
    by (auto simp: exec_task_def forceCloseInLoop_def bind_res_eq_Inr split: if_splits)
next
  case TStartRead
  with run have "calls c' = calls c \<and> conn_state c' = conn_state c"
    by (auto simp: exec_task_def startReadInLoop_def bind_res_eq_Inr on_channel_Inr split: if_splits)
  with ok show ?thesis by (simp add: life_ok_cong [of c' c])
next
  case TStopRead
  with run have "calls c' = calls c \<and> conn_state c' = conn_state c"
    by (auto simp: exec_task_def stopReadInLoop_def bind_res_eq_Inr on_channel_Inr split: if_splits)
  with ok show ?thesis by (simp add: life_ok_cong [of c' c])
next
  case TWriteComplete
  with run have inv: "invoke CallWriteComplete (writecompletecallback cbs) c = Inr c'"
    by (simp add: exec_task_def)
  have "life_ok (c\<lparr>calls := calls c @ [CallWriteComplete]\<rparr>)"
    using ok by (simp add: life_ok_def life_log_def)
  with invoke_life [OF keep inv] show ?thesis using keeps_life_ok by blast
next
  case TReadMember
  with run ok show ?thesis by (simp add: exec_task_def)
qed

lemma queue_life [simp]: "life_ok (queueInLoop tid t c) = life_ok c"
  by (rule life_ok_cong) simp_all

lemma closing_life:
  assumes "life_ok c" and "conn_state c = KConnected \<or> conn_state c = KConnecting"
  shows "life_ok (c\<lparr>conn_state := KDisconnecting\<rparr>)"
  using assms by (auto simp: life_ok_def life_log_def)

lemma conn_step_life:
  assumes keep: "cbs_keep cbs keeps_life" and ok: "life_ok c" and run: "conn_step tid cbs wr op c = Inr c'"
  shows "life_ok c'"
proof -
  have task: "life_ok c'" if "runInLoop tid (exec_task tid cbs wr) t d = Inr c'" "life_ok d" for t d
    using that exec_task_life [OF keep that(2), of tid wr t c'] by (auto simp: runInLoop_def split: if_splits)
  show ?thesis
  proof (cases op)
    case (OSend buf)
    from run OSend obtain b where b: "send tid cbs wr buf c = Inr (b, c')"
      by (auto simp: bind_res_eq_Inr)
    then consider "c' = c" | m where "sendInLoop tid cbs wr m c = Inr c'"
      | m where "runInLoop tid (exec_task tid cbs wr) (TSend m) c = Inr c'"
      by (auto simp: send_def bind_res_eq_Inr split: if_splits)
    then show ?thesis
    proof cases
      case (2 m)
      with sendInLoop_life [OF 2] ok show ?thesis by (simp add: life_ok_cong [of c' c])
    qed (use ok task in auto)
  next
    case OShutdown
    with run ok closing_life [OF ok] show ?thesis
      by (cases "conn_state c = KConnected") (auto simp: shutdown_def intro: task)
  next
    case OForceClose
    with run ok closing_life [OF ok] show ?thesis by (auto simp: forceClose_def split: if_splits)
  next
    case OWrite
    with run handleWrite_life [of tid cbs wr c c'] ok show ?thesis by (simp add: life_ok_cong [of c' c])
  qed (use run ok exec_task_life [OF keep ok] task [OF _ ok] connectEstablished_life [OF keep ok]
      connectDestroyed_life [OF keep ok] handleRead_life [OF keep ok] handleClose_life [OF keep ok]
      in \<open>auto simp: startRead_def stopRead_def handleError_def\<close>)
qed

definition life_good :: "callbacks \<Rightarrow> connection \<Rightarrow> bool" where
  "life_good cbs c \<longleftrightarrow> cbs_keep cbs keeps_life \<and> life_ok c"

interpretation lfm: machine "conn_step tid cbs wr" "life_good cbs" for tid cbs wr
  by unfold_locales (auto simp: life_good_def dest: conn_step_life)

section \<open>Properties\<close>

definition sample_event_loop :: "task event_loop" where
  "sample_event_loop = \<lparr>loop_this = 0, looping = False, quit_flag = False, eventHanding = False,
     callingPendingFunctors = False, iteration = 0, threadPid = 7, wakeup_writes = 0,
     pendingFunctors = [], currentActiveChannel = None, activeChannels = []\<rparr>"

definition sample_callbacks :: callbacks where
  "sample_callbacks = \<lparr>connectioncallback = Some Inr, messagecallback = Some Inr,
     closecallback = Some Inr, writecompletecallback = None\<rparr>"

definition sample_connection :: connection where
  "sample_connection = event_loop.extend sample_event_loop
     \<lparr>conn_name = [], conn_state = KConnecting, reading = True, channel_this = 1,
      conn_channel = (new_channel 0 5)\<lparr>errorCallback := Some HError, readCallback := Some HRead,
        writeCallback := Some HWrite, closeCallback := Some HClose\<rparr>,
      localaddr = [], peeraddr = [], inputbuffer = sample_buffer, outputbuffer = sample_buffer,
      sock_sent = [], sock_shut = False, accepted = [], calls = []\<rparr>"

lemma sample_connection_ctor:
  "TcpConnection_ctor (\<lambda>level name v len k. (0, k)) (Some sample_event_loop) 1 [] 5 [] [] sample_buffer
     sample_buffer () = Inr (sample_connection, ())"
  by (simp add: TcpConnection_ctor_def sample_connection_def sample_event_loop_def Let_def
    new_channel_def channel_setter_defs setKeepAlive_def event_loop.defs)

lemma sample_callbacks_keep: "(\<And>c. R c c) \<Longrightarrow> cbs_keep sample_callbacks R"
  by (simp add: cbs_keep_def sample_callbacks_def)

text \<open>A kernel that takes at most two bytes of every \<open>write\<close>.\<close>

definition two_bytes :: write_result where
  "two_bytes c m = (int (min 2 (length m)), 0)"

lemma two_bytes_contract: "write_contract two_bytes"
  by (simp add: write_contract_def two_bytes_def errno_defs)

lemma sample_connection_run:
  "\<exists>c. run_res (conn_step 8 sample_callbacks two_bytes) [OEstablished, OTask (TSend [1, 2]), OShutdown]
     sample_connection = Inr c \<and> conn_state c = KDisconnecting \<and> sock_sent c = [1, 2] \<and>
     \<not> sock_shut c \<and> threadPid c = 7 \<and> \<not> isWriting (conn_channel c)"
proof -
  let ?c1 = "sample_connection\<lparr>conn_state := KConnected, conn_channel := (conn_channel sample_connection)\<lparr>
    events := 1, addedToLoop := True\<rparr>, calls := [UP]\<rparr>"
  have e: "connectEstablished 8 sample_callbacks sample_connection = Inr ?c1"
    by (simp add: connectEstablished_def assertInLoopThread_pass sample_connection_def sample_event_loop_def
      on_channel_def enableReading_def channel_update_eq new_channel_def invoke_def sample_callbacks_def
      ReadEvent_def UP_def event_loop.defs)
  have "readableBytes sample_buffer = 0"
    by (simp add: readable_zero)
  then have s: "sendInLoop 8 sample_callbacks two_bytes [1, 2] ?c1 =
      Inr (?c1\<lparr>accepted := [1, 2], sock_sent := [1, 2]\<rparr>)"
    by (simp add: sendInLoop_def assertInLoopThread_pass sample_connection_def sample_event_loop_def
      isWriting_def WriteEvernt_def two_bytes_def sample_callbacks_def event_loop.defs Let_def)
  from e s show ?thesis
    by (simp add: exec_task_def shutdown_def runInLoop_def isInloopthread_def sample_connection_def
      sample_event_loop_def event_loop.defs queueInLoop_def wakeup_def isWriting_def WriteEvernt_def)
qed

lemma stream_run:
  assumes "TcpConnection_ctor opt loop chp nm fd la pa ib ob k = Inr (c0, k')"
    and "buf_inv ob" and "content ob = []"
    and "cbs_keep cbs keeps_stream" and "write_contract wr" and "\<forall>op \<in> set ops. op_ok op"
    and "run_res (conn_step tid cbs wr) ops c0 = Inr c"
  shows "stream_ok c"
proof -
  have "stream_good cbs wr c0"
    using TcpConnection_ctor_stream [OF assms(1-3)] assms(4,5) by (simp add: stream_good_def)
  moreover have "run_res (checked op_ok (conn_step tid cbs wr)) ops c0 = Inr c"
    by (simp only: run_checked [OF assms(6)] assms(7))
  ultimately have "stream_good cbs wr c" by (rule stm.run_inv)
  then show ?thesis by (simp add: stream_good_def)
qed



text \<open>sendInLoop returns and takes the whole message: on a connection that is not disconnected,
  whose channel is on its own loop and whose output buffer has room, in a thread that passes
  the guard, the message is appended behind everything sent and buffered before, whatever
  part of it the kernel takes at once. In the loop's own thread the guard aborts instead.\<close>

theorem sendInLoop_outcome:
  assumes "stream_ok c" and "write_contract wr" and "conn_state c \<noteq> KDisconnected"
    and "length m \<le> buffer_room (outputbuffer c)" and "ch_loop (conn_channel c) = loop_this c"
  shows "if threadPid c = tid then sendInLoop tid cbs wr m c = Inl FatalLog
    else \<exists>c'. sendInLoop tid cbs wr m c = Inr c' \<and>
      sock_sent c' @ content (outputbuffer c') = sock_sent c @ content (outputbuffer c) @ m \<and>
      conn_state c' = conn_state c \<and>
      (isWriting (conn_channel c') \<longleftrightarrow> content (outputbuffer c') \<noteq> [])"
proof (cases "threadPid c = tid")
  case True
  then show ?thesis by (simp add: sendInLoop_def assertInLoopThread_abort)
next
  case False
  from sendInLoop_returns [OF assms(1,2) False assms(4,5)] obtain c' where
    c': "sendInLoop tid cbs wr m c = Inr c'" by blast
  have "length m < 2 ^ 63" using assms(4) by (simp add: buffer_room_def vector_max_size_def)
  from sendInLoop_stream [OF assms(1,2) this c'] assms(1,3) c' False show ?thesis
    by (auto simp: stream_ok_def)
qed

lemma sendInLoop_outcome_witness:
  "\<exists>c'. sendInLoop 8 sample_callbacks two_bytes [1, 2, 3] sample_connection = Inr c' \<and>
    sock_sent c' @ content (outputbuffer c') = [1, 2, 3]"
proof -
  have s: "stream_ok sample_connection" "conn_state sample_connection \<noteq> KDisconnected"
    using TcpConnection_ctor_stream [OF sample_connection_ctor] by simp_all
  have "length [1, 2, 3 :: byte] \<le> buffer_room (outputbuffer sample_connection)"
    and "ch_loop (conn_channel sample_connection) = loop_this sample_connection"
    and "threadPid sample_connection \<noteq> 8" and "sock_sent sample_connection = []"
    and "content (outputbuffer sample_connection) = []"
    by (simp_all add: sample_connection_def sample_event_loop_def event_loop.defs new_channel_def
      buffer_room_def vector_max_size_def)
  with sendInLoop_outcome [OF s(1) two_bytes_contract s(2) this(1,2), of 8 sample_callbacks]
  show ?thesis by auto
qed



text \<open>C14: The life of a connection as its user sees it: in every run, with callbacks that run no
  callbacks themselves and at most start closing the connection, the user hears UP at most
  once and only when the connection is established, DOWN at most once and after that the
  close callback at most once, and nothing of the kind again; and what has been heard fits
  the state: nothing while connecting, only UP while connected, and DOWN exactly when the
  connection is disconnected.\<close>

theorem callback_lifecycle:
  assumes "TcpConnection_ctor opt loop chp nm fd la pa ib ob k = Inr (c0, k')"
    and "cbs_keep cbs keeps_life" and "run_res (conn_step tid cbs wr) ops c0 = Inr c"
  shows "(life_log c = take (length (life_log c)) [UP, DOWN, CallClose] \<or>
      life_log c = take (length (life_log c)) [DOWN, CallClose]) \<and>
    (conn_state c = KConnecting \<longrightarrow> life_log c = []) \<and>
    (conn_state c = KConnected \<longrightarrow> life_log c = [UP]) \<and>
    (conn_state c = KDisconnected \<longleftrightarrow> DOWN \<in> set (life_log c))"
proof -
  have "life_good cbs c0"
    using assms(1,2)
    by (auto simp: TcpConnection_ctor_def Let_def life_good_def life_ok_def life_log_def
      event_loop.defs split: option.splits)
  from lfm.run_inv [OF this assms(3)] have "life_spec (conn_state c) (life_log c)"
    by (simp add: life_good_def life_ok_def)
  then show ?thesis by (cases "conn_state c") (auto simp: UP_def DOWN_def)
qed

lemma callback_lifecycle_witness:
  "\<exists>c. run_res (conn_step 8 sample_callbacks two_bytes) [OEstablished, OTask (TSend [1, 2]), OShutdown]
     sample_connection = Inr c \<and> conn_state c = KDisconnecting \<and> DOWN \<notin> set (life_log c)"
proof -
  obtain c where c: "run_res (conn_step 8 sample_callbacks two_bytes)
      [OEstablished, OTask (TSend [1, 2]), OShutdown] sample_connection = Inr c"
    and st: "conn_state c = KDisconnecting"
    using sample_connection_run by blast
  have "cbs_keep sample_callbacks keeps_life"
    by (rule sample_callbacks_keep) (simp add: keeps_life_def)
  from callback_lifecycle [OF sample_connection_ctor this c] c st show ?thesis by auto
qed

text \<open>forceClose never closes: it moves the connection to KDisconnecting before the task it
  queues looks for KConnected or KConnecting, so running that task changes nothing: no
  callback runs and the channel stays registered. And when the connection is then
  destroyed while it is still reading, the assert in Channel::remove aborts.\<close>

theorem forceClose_never_closes:
  assumes "conn_state c = KConnected" and "threadPid c \<noteq> tid" and "pendingFunctors c = []"
    and "ch_loop (conn_channel c) = loop_this c" and "isReading (conn_channel c)"
  shows "\<exists>c'. dopendingFunctors (exec_task tid cbs wr) (forceClose tid c) = Inr c' \<and>
    conn_state c' = KDisconnecting \<and> calls c' = calls c \<and> conn_channel c' = conn_channel c \<and>
    pendingFunctors c' = [] \<and> connectDestroyed tid cbs c' = Inl AssertFailed"
proof -
  let ?c1 = "queueInLoop tid TForceClose (c\<lparr>conn_state := KDisconnecting\<rparr>)"
  have c1: "forceClose tid c = ?c1" using assms(1) by (simp add: forceClose_def)
  let ?c2 = "?c1\<lparr>callingPendingFunctors := True, pendingFunctors := []\<rparr>"
  have s2: "conn_state ?c2 = KDisconnecting" "calls ?c2 = calls c" "conn_channel ?c2 = conn_channel c"
      "threadPid ?c2 = threadPid c" "pendingFunctors ?c1 = [TForceClose]"
    using assms(3) by (simp_all add: queueInLoop_def wakeup_def Let_def)
  then have run: "exec_task tid cbs wr TForceClose ?c2 = Inr ?c2"
    using assms(2) by (simp add: exec_task_def forceCloseInLoop_def assertInLoopThread_pass)
  let ?c' = "?c2\<lparr>callingPendingFunctors := False\<rparr>"
  have d: "dopendingFunctors (exec_task tid cbs wr) ?c1 = Inr ?c'"
    using s2(5) run by (simp add: dopendingFunctors_def Let_def)
  have "\<not> isNoneEvent (conn_channel c)"
    using assms(5) by (auto simp: isReading_def isNoneEvent_def NoneEvent_def)
  then have "connectDestroyed tid cbs ?c' = Inl AssertFailed"
    using s2 assms(2)
    by (simp add: connectDestroyed_def assertInLoopThread_pass on_channel_def channel_remove_def)
  with c1 d s2 show ?thesis by simp
qed

lemma forceClose_never_closes_witness:
  "\<exists>c'. dopendingFunctors (exec_task 8 sample_callbacks two_bytes)
      (forceClose 8 (sample_connection\<lparr>conn_state := KConnected,
         conn_channel := (new_channel 0 5)\<lparr>events := 1\<rparr>\<rparr>)) = Inr c' \<and>
    conn_state c' = KDisconnecting \<and> connectDestroyed 8 sample_callbacks c' = Inl AssertFailed"
proof -
  let ?c = "sample_connection\<lparr>conn_state := KConnected, conn_channel := (new_channel 0 5)\<lparr>events := 1\<rparr>\<rparr>"
  have "\<exists>c'. dopendingFunctors (exec_task 8 sample_callbacks two_bytes) (forceClose 8 ?c) = Inr c' \<and>
      conn_state c' = KDisconnecting \<and> calls c' = calls ?c \<and> conn_channel c' = conn_channel ?c \<and>
      pendingFunctors c' = [] \<and> connectDestroyed 8 sample_callbacks c' = Inl AssertFailed"
    by (rule forceClose_never_closes)
      (simp_all add: sample_connection_def sample_event_loop_def event_loop.defs new_channel_def
        isReading_def ReadEvent_def)
  then show ?thesis by blast
qed

end
