(* ===== verification/ConnectionStates.thy ===== *)
theory ConnectionStates
  imports TcpConnection
begin

text \<open>
  The states of a connection in the order in which they are passed through: connecting,
  connected, disconnecting, disconnected. No operation of TcpConnection
  (network/src/TcpConnection.cc) ever goes back.
\<close>

section \<open>The order\<close>

fun stage :: "conn_state \<Rightarrow> nat" where
  "stage KConnecting = 0"
| "stage KConnected = 1"
| "stage KDisconnecting = 2"
| "stage KDisconnected = 3"

lemma stage_eq: "stage s = stage t \<longleftrightarrow> s = t"
  by (cases s; cases t) simp_all

instantiation conn_state :: linorder
begin

definition less_eq_conn_state :: "conn_state \<Rightarrow> conn_state \<Rightarrow> bool" where
  "less_eq_conn_state s t \<longleftrightarrow> stage s \<le> stage t"

definition less_conn_state :: "conn_state \<Rightarrow> conn_state \<Rightarrow> bool" where
  "less_conn_state s t \<longleftrightarrow> stage s < stage t"

instance
proof
  fix s t u :: conn_state
  show "s \<le> t \<Longrightarrow> t \<le> s \<Longrightarrow> s = t" by (simp add: less_eq_conn_state_def stage_eq)
qed (auto simp: less_eq_conn_state_def less_conn_state_def)

end

lemma stage_simps [simp]:
  "KConnecting \<le> (s :: conn_state)" "(s :: conn_state) \<le> KDisconnected"
  "KDisconnected \<le> s \<longleftrightarrow> s = KDisconnected"
  "KConnected \<le> KDisconnecting"
  by (cases s; simp add: less_eq_conn_state_def)+

section \<open>Every operation advances\<close>

definition advances :: "connection \<Rightarrow> connection \<Rightarrow> bool" where
  "advances c c' \<longleftrightarrow> conn_state c \<le> conn_state c'"

lemma advances_same: "conn_state c' = conn_state c \<Longrightarrow> advances c c'"
  by (simp add: advances_def)

lemma invoke_advances:
  assumes "cbs_keep cbs advances" and "invoke what cb c = Inr c'"
    and "cb = connectioncallback cbs \<or> cb = messagecallback cbs \<or> cb = closecallback cbs \<or>
      cb = writecompletecallback cbs"
  shows "conn_state c \<le> conn_state c'"
proof -
  from assms(2) obtain f where f: "cb = Some f" and run: "f (c\<lparr>calls := calls c @ [what]\<rparr>) = Inr c'"
    by (auto simp: invoke_Inr)
  have "advances (c\<lparr>calls := calls c @ [what]\<rparr>) c'"
    by (rule cbs_keepD [where f = f, OF assms(1) run]) (use assms(3) f in auto)
  then show ?thesis by (simp add: advances_def)
qed

lemma handleClose_advances:
  assumes keep: "cbs_keep cbs advances" and run: "handleClose tid cbs c = Inr c'"
  shows "conn_state c' = KDisconnected"
proof -
  let ?c1 = "c\<lparr>conn_state := KDisconnected\<rparr>"
  from run obtain c2 c3 where c2: "on_channel (disableall tid ?c1) ?c1 = Inr c2"
    and c3: "invoke (CallConnection (conn_state c2)) (connectioncallback cbs) c2 = Inr c3"
    and c': "invoke CallClose (closecallback cbs) c3 = Inr c'"
    by (auto simp: handleClose_def Let_def bind_res_eq_Inr)
  from on_channel_life(1) [OF c2] invoke_advances [OF keep c3] have "conn_state c3 = KDisconnected" by simp
  with invoke_advances [OF keep c'] show ?thesis by simp
qed

lemma connectEstablished_advances:
  assumes keep: "cbs_keep cbs advances" and run: "connectEstablished tid cbs c = Inr c'"
  shows "advances c c'"
  using run by (auto simp: connectEstablished_def bind_res_eq_Inr advances_def)

lemma connectDestroyed_advances:
  assumes keep: "cbs_keep cbs advances" and run: "connectDestroyed tid cbs c = Inr c'"
  shows "advances c c'"
proof (cases "conn_state c = KConnected")
  case True
  let ?c1 = "c\<lparr>conn_state := KDisconnected\<rparr>"
  from True run obtain c2 c3 where c2: "on_channel (disableall tid ?c1) ?c1 = Inr c2"
    and c3: "invoke (CallConnection (conn_state c2)) (connectioncallback cbs) c2 = Inr c3"
    and rem: "on_channel (channel_remove tid c3 (channel_this c3)) c3 = Inr c'"
    by (auto simp: connectDestroyed_def Let_def bind_res_eq_Inr)
  from on_channel_life(1) [OF c2] invoke_advances [OF keep c3] have "conn_state c3 = KDisconnected" by simp
  with on_channel_life(1) [OF rem] show ?thesis by (simp add: advances_def)
next
  case False
  with run have "on_channel (channel_remove tid c (channel_this c)) c = Inr c'"
    by (auto simp: connectDestroyed_def bind_res_eq_Inr)
  from on_channel_life(1) [OF this] show ?thesis by (rule advances_same)
qed

lemma handleRead_advances:
  assumes keep: "cbs_keep cbs advances" and run: "handleRead tid cbs r e c = Inr c'"
  shows "advances c c'"
proof -
  from run obtain n en b where "readFd r (inputbuffer c) = Inr (n, en, b)"
    and rest: "(if n > 0 then invoke CallMessage (messagecallback cbs) (c\<lparr>inputbuffer := b\<rparr>)
     else if n = 0 then handleClose tid cbs (c\<lparr>inputbuffer := b\<rparr>)
     else handleError e (c\<lparr>inputbuffer := b\<rparr>)) = Inr c'"
    by (auto simp: handleRead_def Let_def bind_res_eq_Inr)
  from rest consider "invoke CallMessage (messagecallback cbs) (c\<lparr>inputbuffer := b\<rparr>) = Inr c'"
    | "handleClose tid cbs (c\<lparr>inputbuffer := b\<rparr>) = Inr c'" | "c' = c\<lparr>inputbuffer := b\<rparr>"
    by (auto simp: handleError_def split: if_splits)
  then show ?thesis
  proof cases
    case 1
    from invoke_advances [OF keep 1] show ?thesis by (simp add: advances_def)
  next
    case 2
    from handleClose_advances [OF keep 2] show ?thesis by (simp add: advances_def)
  next
    case 3
    then show ?thesis by (simp add: advances_def)
  qed
qed

lemma exec_task_advances:
  assumes keep: "cbs_keep cbs advances" and run: "exec_task tid cbs wr t c = Inr c'"
  shows "advances c c'"
proof (cases t)
  case (TSend m)
  with run sendInLoop_life(1) [of tid cbs wr m c c'] show ?thesis by (simp add: exec_task_def advances_same)
next
  case TShutdown
  with run shutdownInLoop_life(1) [of tid c c'] show ?thesis by (simp add: exec_task_def advances_same)
next
  case TForceClose
  with run handleClose_advances [OF keep, of tid c c'] show ?thesis
    by (auto simp: exec_task_def forceCloseInLoop_def bind_res_eq_Inr advances_def split: if_splits)
next
  case TWriteComplete
  with run have "invoke CallWriteComplete (writecompletecallback cbs) c = Inr c'"
    by (simp add: exec_task_def)
  from invoke_advances [OF keep this] show ?thesis by (simp add: advances_def)
qed (use run in \<open>auto simp: exec_task_def startReadInLoop_def stopReadInLoop_def bind_res_eq_Inr
    on_channel_Inr advances_def split: if_splits\<close>)

lemma runInLoop_advances:
  assumes "cbs_keep cbs advances" and "runInLoop tid (exec_task tid cbs wr) t c = Inr c'"
  shows "conn_state c \<le> conn_state c'"
  using assms exec_task_advances [OF assms(1), of tid wr t c c']
  by (auto simp: runInLoop_def advances_def split: if_splits)

lemma conn_step_advances:
  assumes keep: "cbs_keep cbs advances" and run: "conn_step tid cbs wr op c = Inr c'"
  shows "conn_state c \<le> conn_state c'"
proof (cases op)
  case (OSend buf)
  from run OSend obtain b where b: "send tid cbs wr buf c = Inr (b, c')"
    by (auto simp: bind_res_eq_Inr)
  then consider "c' = c" | m where "sendInLoop tid cbs wr m c = Inr c'"
    | m where "runInLoop tid (exec_task tid cbs wr) (TSend m) c = Inr c'"
    by (auto simp: send_def bind_res_eq_Inr split: if_splits)
  then show ?thesis by cases (auto simp: sendInLoop_life(1) dest: runInLoop_advances [OF keep])
next
  case OShutdown
  with run show ?thesis
    using runInLoop_advances [OF keep, of tid wr TShutdown "c\<lparr>conn_state := KDisconnecting\<rparr>" c']
    by (cases "conn_state c = KConnected") (auto simp: shutdown_def intro: order_trans [of _ KDisconnecting])
next
  case OForceClose
  with run show ?thesis by (auto simp: forceClose_def split: if_splits)
next
  case OWrite
  with run handleWrite_life(1) [of tid cbs wr c c'] show ?thesis by simp
qed (use run exec_task_advances [OF keep] runInLoop_advances [OF keep] connectEstablished_advances [OF keep]
    connectDestroyed_advances [OF keep] handleRead_advances [OF keep] handleClose_advances [OF keep]
    in \<open>auto simp: startRead_def stopRead_def handleError_def advances_def\<close>)

definition past :: "callbacks \<Rightarrow> conn_state \<Rightarrow> connection \<Rightarrow> bool" where
  "past cbs s c \<longleftrightarrow> cbs_keep cbs advances \<and> s \<le> conn_state c"

interpretation adv: machine "conn_step tid cbs wr" "past cbs s" for tid cbs wr s
  by unfold_locales (auto simp: past_def dest: conn_step_advances intro: order_trans)

section \<open>Properties\<close>

text \<open>C15: The state of a connection only moves forward: in every run, in whatever state it starts and
  whatever operations, tasks and events come in whatever order, the state goes from connecting
  over connected and disconnecting to disconnected and never back (if the user's callbacks keep to
  it), and a disconnected connection stays disconnected.\<close>

theorem connection_state_advances:
  assumes "cbs_keep cbs advances" and "run_res (conn_step tid cbs wr) ops c = Inr c'"
  shows "conn_state c \<le> conn_state c' \<and> (conn_state c = KDisconnected \<longrightarrow> conn_state c' = KDisconnected)"
proof -
  have "past cbs (conn_state c) c" using assms(1) by (simp add: past_def)
  from adv.run_inv [OF this assms(2)] show ?thesis by (auto simp: past_def)
qed

lemma connection_state_advances_witness:
  "\<exists>c. run_res (conn_step 8 sample_callbacks two_bytes) [OEstablished, OTask (TSend [1, 2]), OShutdown]
     sample_connection = Inr c \<and> KConnecting < conn_state c"
proof -
  obtain c where c: "run_res (conn_step 8 sample_callbacks two_bytes)
      [OEstablished, OTask (TSend [1, 2]), OShutdown] sample_connection = Inr c"
    and st: "conn_state c = KDisconnecting"
    using sample_connection_run by blast
  have "cbs_keep sample_callbacks advances"
    by (rule sample_callbacks_keep) (simp add: advances_def)
  from connection_state_advances [OF this c] have "conn_state sample_connection \<le> conn_state c" by blast
  with c st show ?thesis by (auto simp: less_conn_state_def)
qed

end
