(* ===== verification/ConnectionEvents.thy ===== *)
theory ConnectionEvents
  imports ConnectionStates Poller "HOL-Library.Sublist"
begin

text \<open>
  A connection together with its channel: an event that the poller reports reaches
  Channel::handleEvent (network/src/Channel.cc), which runs the handlers that the constructor of
  TcpConnection has bound (network/src/TcpConnection.cc). The output that the loop drains by itself
  and the output that stays.
\<close>

section \<open>Events and calls\<close>

text \<open>
  The four functions bound in the constructor. \<open>r\<close> answers the \<open>read\<close> of \<open>handleRead\<close>, \<open>err\<close> the
  \<open>getsockopt\<close> of \<open>handleError\<close>.
\<close>

fun exec_handler ::
  "pid \<Rightarrow> callbacks \<Rightarrow> write_result \<Rightarrow> int + byte list \<Rightarrow> int \<Rightarrow> handler \<Rightarrow> connection \<Rightarrow> connection res" where
  "exec_handler tid cbs wr r err HRead c = handleRead tid cbs r err c"
| "exec_handler tid cbs wr r err HWrite c = handleWrite tid cbs wr c"
| "exec_handler tid cbs wr r err HError c = handleError err c"
| "exec_handler tid cbs wr r err HClose c = handleClose tid cbs c"

definition upd_channel :: "(handler channel \<Rightarrow> handler channel) \<Rightarrow> connection \<Rightarrow> connection" where
  "upd_channel f c = c\<lparr>conn_channel := f (conn_channel c)\<rparr>"

text \<open>
  One report: \<open>fillActiveChannels\<close> hands the reported mask, which the kernel keeps within the interest
  and the two bits it always reports, to \<open>setRevent\<close>; then the loop calls \<open>handleEvent\<close>.
\<close>

definition conn_event ::
  "pid \<Rightarrow> callbacks \<Rightarrow> write_result \<Rightarrow> mask \<Rightarrow> int + byte list \<Rightarrow> int \<Rightarrow> connection \<Rightarrow> connection res" where
  "conn_event tid cbs wr m r err c =
     handleEvent conn_channel upd_channel (exec_handler tid cbs wr r err)
       (upd_channel (\<lambda>ch. setRevent (m AND (events ch OR POLLERR OR POLLHUP)) ch) c)"

datatype live_op = Event mask "int + byte list" int | Call conn_op

text \<open>A handler runs only when an event calls for it.\<close>

fun handler_op :: "conn_op \<Rightarrow> bool" where
  "handler_op (ORead r) = True"
| "handler_op OWrite = True"
| "handler_op OClose = True"
| "handler_op (OError e) = True"
| "handler_op _ = False"

fun live_ok :: "live_op \<Rightarrow> bool" where
  "live_ok (Event m r err) = True"
| "live_ok (Call op) = (\<not> handler_op op \<and> op_ok op)"

fun live_step ::
  "pid \<Rightarrow> callbacks \<Rightarrow> write_result \<Rightarrow> live_op \<Rightarrow> connection \<Rightarrow> connection res" where
  "live_step tid cbs wr (Event m r err) c = conn_event tid cbs wr m r err c"
| "live_step tid cbs wr (Call op) c = conn_step tid cbs wr op c"

section \<open>Predicates kept by the dispatch\<close>

text \<open>No event of the channel runs \<open>handleWrite\<close>.\<close>

definition deaf :: "handler channel \<Rightarrow> bool" where
  "deaf ch \<longleftrightarrow> never_writable ch \<and>
     HWrite \<notin> set_option (readCallback ch) \<union> set_option (errorCallback ch) \<union> set_option (closeCallback ch)"

lemma fire_keeps:
  assumes "\<And>h t t'. h \<noteq> HWrite \<Longrightarrow> I t \<Longrightarrow> exec h t = Inr t' \<Longrightarrow> I t'"
    and "HWrite \<notin> set_option (callback s)" and "I s"
    and "(if p then fire callback exec s else Inr s) = Inr s'"
  shows "I s'"
  using assms(2-4) assms(1) [of "the (callback s)" s s']
  by (auto simp: fire_def split: if_splits option.splits)

lemma handleEvent_keeps:
  assumes exec: "\<And>h s t. h \<noteq> HWrite \<Longrightarrow> I s \<Longrightarrow> exec h s = Inr t \<Longrightarrow> I t"
    and flag: "\<And>b s. I s \<Longrightarrow> I (upd (\<lambda>ch. ch\<lparr>eventHandling := b\<rparr>) s)"
    and deaf: "\<And>s. I s \<Longrightarrow> deaf (get s)"
    and inv: "I s" and run: "handleEvent get upd exec s = Inr t"
  shows "I t"
proof -
  let ?s0 = "upd (\<lambda>c. c\<lparr>eventHandling := True\<rparr>) s"
  from run obtain s1 s2 s3 s4 where
    s1: "(if revents (get ?s0) AND POLLHUP \<noteq> 0 \<and> \<not> (revents (get ?s0) AND POLLIN \<noteq> 0)
      then fire (\<lambda>s. closeCallback (get s)) exec ?s0 else Inr ?s0) = Inr s1"
    and s2: "(if revents (get s1) AND (POLLIN OR POLLPRI OR POLLRDHUP) \<noteq> 0
      then fire (\<lambda>s. readCallback (get s)) exec s1 else Inr s1) = Inr s2"
    and s3: "(if revents (get s2) AND (POLLERR OR POLLNVAL) \<noteq> 0
      then fire (\<lambda>s. errorCallback (get s)) exec s2 else Inr s2) = Inr s3"
    and s4: "(if revents (get s3) AND POLLOUT \<noteq> 0
      then fire (\<lambda>s. writeCallback (get s)) exec s3 else Inr s3) = Inr s4"
    and t: "t = upd (\<lambda>c. c\<lparr>eventHandling := False\<rparr>) s4"
    unfolding handleEvent_def Let_def by (auto simp: bind_res_eq_Inr simp del: not_not)
  note slots = deaf [unfolded deaf_def]
  note fired = fire_keeps [where I = I and exec = exec, OF exec]
  have i0: "I ?s0" by (rule flag [OF inv])
  have i1: "I s1" by (rule fired [OF _ _ _ _ i0 s1]) (use slots [OF i0] in auto)
  have i2: "I s2" by (rule fired [OF _ _ _ _ i1 s2]) (use slots [OF i1] in auto)
  have i3: "I s3" by (rule fired [OF _ _ _ _ i2 s3]) (use slots [OF i2] in auto)
  have "revents (get s3) AND POLLOUT = 0" using slots [OF i3] by (simp add: never_writable_def)
  with s4 have "s4 = s3" by simp
  with flag [OF i3] t show ?thesis by simp
qed

lemma deaf_channel_step: "channel_step tid l this op ch = Inr ch' \<Longrightarrow> deaf ch \<Longrightarrow> deaf ch'"
proof -
  assume run: "channel_step tid l this op ch = Inr ch'" and d: "deaf ch"
  have "never_writable ch'"
    using watch_step_writable [of ch tid l this "Op op" ch'] run d by (simp add: deaf_def)
  moreover have "readCallback ch' = readCallback ch \<and> errorCallback ch' = errorCallback ch \<and>
      closeCallback ch' = closeCallback ch"
    using run by (cases op) (auto simp: channel_op_defs channel_update_Inr dest: channel_remove_Inr(2))
  ultimately show "deaf ch'" using d by (simp add: deaf_def)
qed

lemmas deaf_channel_ops =
  deaf_channel_step [of _ _ _ EnableReading, simplified] deaf_channel_step [of _ _ _ DisableReading, simplified]
  deaf_channel_step [of _ _ _ EnableWriting, simplified] deaf_channel_step [of _ _ _ DisableAll, simplified]
  deaf_channel_step [of _ _ _ Remove, simplified]

lemma deaf_report: "deaf ch \<Longrightarrow> deaf (setRevent (m AND (events ch OR POLLERR OR POLLHUP)) ch)"
proof -
  assume d: "deaf ch"
  with watch_step_writable [of ch _ _ _ "Report m"] have
    "never_writable (setRevent (m AND (events ch OR POLLERR OR POLLHUP)) ch)" by (simp add: deaf_def)
  with d show ?thesis by (simp add: deaf_def setRevent_def)
qed

lemma deaf_flag: "deaf (ch\<lparr>eventHandling := b\<rparr>) = deaf ch"
  by (simp add: deaf_def never_writable_def channel_inv_def isNoneEvent_def)

section \<open>What a connection does to its channel\<close>

text \<open>Any number of channel operations.\<close>

definition channel_moves :: "handler channel \<Rightarrow> handler channel \<Rightarrow> bool" where
  "channel_moves = rtranclp (\<lambda>ch ch'. \<exists>tid l this op. channel_step tid (l :: connection) this op ch = Inr ch')"

lemma moves_refl [simp]: "channel_moves ch ch"
  by (simp add: channel_moves_def)

lemma moves_trans: "channel_moves ch ch1 \<Longrightarrow> channel_moves ch1 ch2 \<Longrightarrow> channel_moves ch ch2"
  unfolding channel_moves_def by (rule rtranclp_trans)

lemma moves_deaf: "channel_moves ch ch' \<Longrightarrow> deaf ch \<Longrightarrow> deaf ch'"
  unfolding channel_moves_def by (induction rule: rtranclp_induct) (auto dest: deaf_channel_step)

lemma moves_on_channel:
  assumes "on_channel f c = Inr c'"
    and "f (conn_channel c) = channel_step tid (l :: connection) this op (conn_channel c)"
  shows "channel_moves (conn_channel c) (conn_channel c')"
proof -
  from assms obtain ch where "channel_step tid l this op (conn_channel c) = Inr ch"
    and c': "c' = c\<lparr>conn_channel := ch\<rparr>" by (auto simp: on_channel_Inr)
  then have "\<exists>tid (l :: connection) this op. channel_step tid l this op (conn_channel c) = Inr ch" by blast
  then show ?thesis unfolding channel_moves_def c' by (simp add: r_into_rtranclp)
qed

text \<open>What a user callback is expected to leave alone here: the output, the channel, the kernel's side.\<close>

definition leaves_output :: "connection \<Rightarrow> connection \<Rightarrow> bool" where
  "leaves_output c c' \<longleftrightarrow> outputbuffer c' = outputbuffer c \<and> conn_channel c' = conn_channel c \<and>
     accepted c' = accepted c \<and> sock_sent c' = sock_sent c \<and> sock_shut c' = sock_shut c \<and>
     (conn_state c' = conn_state c \<or> conn_state c = KConnected \<and> conn_state c' = KDisconnecting)"

lemma moves_ops:
  fixes l :: connection
  shows "on_channel (enableReading tid l) c = Inr c' \<Longrightarrow> channel_moves (conn_channel c) (conn_channel c')"
    and "on_channel (disenableReading tid l) c = Inr c' \<Longrightarrow> channel_moves (conn_channel c) (conn_channel c')"
    and "on_channel (enableWriting tid l) c = Inr c' \<Longrightarrow> channel_moves (conn_channel c) (conn_channel c')"
    and "on_channel (disableWriting tid l) c = Inr c' \<Longrightarrow> channel_moves (conn_channel c) (conn_channel c')"
    and "on_channel (disableall tid l) c = Inr c' \<Longrightarrow> channel_moves (conn_channel c) (conn_channel c')"
    and "on_channel (channel_remove tid l this) c = Inr c' \<Longrightarrow> channel_moves (conn_channel c) (conn_channel c')"
  using moves_on_channel [of _ c c' tid l this EnableReading] moves_on_channel [of _ c c' tid l this DisableReading]
    moves_on_channel [of _ c c' tid l this EnableWriting] moves_on_channel [of _ c c' tid l this DisableWriting]
    moves_on_channel [of _ c c' tid l this DisableAll] moves_on_channel [of _ c c' tid l this Remove] by simp_all

lemma invoke_channel:
  assumes "cbs_keep cbs leaves_output" and "invoke what cb c = Inr c'"
    and "cb = connectioncallback cbs \<or> cb = messagecallback cbs \<or> cb = closecallback cbs \<or>
      cb = writecompletecallback cbs"
  shows "leaves_output c c'"
proof -
  let ?c1 = "c\<lparr>calls := calls c @ [what]\<rparr>"
  from assms(2) obtain f where f: "cb = Some f" and run: "f ?c1 = Inr c'"
    by (auto simp: invoke_Inr)
  have "leaves_output ?c1 c'" by (rule cbs_keepD [where f = f, OF assms(1) run]) (use assms(3) f in auto)
  then show ?thesis by (simp add: leaves_output_def)
qed

lemma invoke_moves:
  assumes "cbs_keep cbs leaves_output" and "invoke what cb c = Inr c'"
    and "cb = connectioncallback cbs \<or> cb = messagecallback cbs \<or> cb = closecallback cbs \<or>
      cb = writecompletecallback cbs"
  shows "conn_channel c' = conn_channel c"
  using invoke_channel [OF assms] by (simp add: leaves_output_def)

lemma handleClose_moves:
  assumes keep: "cbs_keep cbs leaves_output" and run: "handleClose tid cbs c = Inr c'"
  shows "channel_moves (conn_channel c) (conn_channel c')"
proof -
  let ?c1 = "c\<lparr>conn_state := KDisconnected\<rparr>"
  from run obtain c2 c3 where c2: "on_channel (disableall tid ?c1) ?c1 = Inr c2"
    and c3: "invoke (CallConnection (conn_state c2)) (connectioncallback cbs) c2 = Inr c3"
    and c': "invoke CallClose (closecallback cbs) c3 = Inr c'"
    by (auto simp: handleClose_def Let_def bind_res_eq_Inr)
  from moves_ops(5) [OF c2] invoke_moves [OF keep c3] invoke_moves [OF keep c'] show ?thesis by simp
qed

lemma connectEstablished_moves:
  assumes keep: "cbs_keep cbs leaves_output" and run: "connectEstablished tid cbs c = Inr c'"
  shows "channel_moves (conn_channel c) (conn_channel c')"
proof -
  let ?c1 = "c\<lparr>conn_state := KConnected\<rparr>"
  from run obtain c2 where c2: "on_channel (enableReading tid ?c1) ?c1 = Inr c2"
    and c': "invoke (CallConnection (conn_state c2)) (connectioncallback cbs) c2 = Inr c'"
    by (auto simp: connectEstablished_def Let_def bind_res_eq_Inr)
  from moves_ops(1) [OF c2] invoke_moves [OF keep c'] show ?thesis by simp
qed

lemma connectDestroyed_moves:
  assumes keep: "cbs_keep cbs leaves_output" and run: "connectDestroyed tid cbs c = Inr c'"
  shows "channel_moves (conn_channel c) (conn_channel c')"
proof (cases "conn_state c = KConnected")
  case True
  let ?c1 = "c\<lparr>conn_state := KDisconnected\<rparr>"
  from True run obtain c2 c3 where c2: "on_channel (disableall tid ?c1) ?c1 = Inr c2"
    and c3: "invoke (CallConnection (conn_state c2)) (connectioncallback cbs) c2 = Inr c3"
    and rem: "on_channel (channel_remove tid c3 (channel_this c3)) c3 = Inr c'"
    by (auto simp: connectDestroyed_def Let_def bind_res_eq_Inr)
  from moves_ops(5) [OF c2] invoke_moves [OF keep c3] moves_ops(6) [OF rem] show ?thesis
    by (auto intro: moves_trans)
next
  case False
  with run have "on_channel (channel_remove tid c (channel_this c)) c = Inr c'"
    by (auto simp: connectDestroyed_def bind_res_eq_Inr)
  then show ?thesis by (rule moves_ops(6))
qed

lemma send_rest_moves:
  "send_rest tid rest c = Inr c' \<Longrightarrow> channel_moves (conn_channel c) (conn_channel c')"
  by (auto simp: send_rest_def bind_res_eq_Inr Let_def dest: moves_ops(3) split: if_splits)

lemma sendInLoop_moves:
  assumes "sendInLoop tid cbs wr m c = Inr c'"
  shows "channel_moves (conn_channel c) (conn_channel c')"
proof (cases "conn_state c = KDisconnected")
  case True
  with assms have "c' = c" by (auto simp: sendInLoop_def bind_res_eq_Inr)
  then show ?thesis by simp
next
  case False
  have "threadPid c \<noteq> tid" using assms by (auto simp: sendInLoop_def bind_res_eq_Inr)
  from sendInLoop_shape [OF this False, of cbs wr m] obtain rest c1 where
    "sendInLoop tid cbs wr m c = send_rest tid rest c1" "conn_channel c1 = conn_channel c" by blast
  with send_rest_moves [of tid rest c1 c'] assms show ?thesis by simp
qed

lemma handleWrite_moves:
  assumes "handleWrite tid cbs wr c = Inr c'"
  shows "channel_moves (conn_channel c) (conn_channel c')"
  using assms
proof (cases rule: handleWrite_cases)
  case (flushed b c2 c3)
  then have "conn_channel c' = conn_channel c2"
    by (auto simp: shutdownInLoop_def bind_res_eq_Inr split: if_splits)
  with moves_ops(4) [OF flushed(3)] show ?thesis by simp
qed simp_all

lemma handleRead_moves:
  assumes keep: "cbs_keep cbs leaves_output" and run: "handleRead tid cbs r e c = Inr c'"
  shows "channel_moves (conn_channel c) (conn_channel c')"
proof -
  from run obtain n en b where "readFd r (inputbuffer c) = Inr (n, en, b)"
    and rest: "(if n > 0 then invoke CallMessage (messagecallback cbs) (c\<lparr>inputbuffer := b\<rparr>)
     else if n = 0 then handleClose tid cbs (c\<lparr>inputbuffer := b\<rparr>)
     else handleError e (c\<lparr>inputbuffer := b\<rparr>)) = Inr c'"
    by (auto simp: handleRead_def Let_def bind_res_eq_Inr)
  from rest show ?thesis
    using invoke_moves [OF keep, of CallMessage "messagecallback cbs" "c\<lparr>inputbuffer := b\<rparr>" c']
      handleClose_moves [OF keep, of tid "c\<lparr>inputbuffer := b\<rparr>" c']
    by (auto simp: handleError_def split: if_splits)
qed

lemma reading_moves:
  assumes "startReadInLoop tid c = Inr c' \<or> stopReadInLoop tid c = Inr c'"
  shows "channel_moves (conn_channel c) (conn_channel c')"
  using assms
proof
  assume "startReadInLoop tid c = Inr c'"
  then have "c' = c \<or> (\<exists>c1. on_channel (enableReading tid c) c = Inr c1 \<and> conn_channel c' = conn_channel c1)"
    by (auto simp: startReadInLoop_def bind_res_eq_Inr split: if_splits)
  then show ?thesis by (auto dest: moves_ops(1))
next
  assume "stopReadInLoop tid c = Inr c'"
  then have "c' = c \<or> (\<exists>c1. on_channel (disenableReading tid c) c = Inr c1 \<and> conn_channel c' = conn_channel c1)"
    by (auto simp: stopReadInLoop_def bind_res_eq_Inr split: if_splits)
  then show ?thesis by (auto dest: moves_ops(2))
qed

lemma exec_task_moves:
  assumes keep: "cbs_keep cbs leaves_output" and run: "exec_task tid cbs wr t c = Inr c'"
  shows "channel_moves (conn_channel c) (conn_channel c')"
proof (cases t)
  case TShutdown
  with run have "conn_channel c' = conn_channel c"
    by (auto simp: exec_task_def shutdownInLoop_def bind_res_eq_Inr split: if_splits)
  then show ?thesis by simp
next
  case TForceClose
  with run show ?thesis using handleClose_moves [OF keep, of tid c c']
    by (auto simp: exec_task_def forceCloseInLoop_def bind_res_eq_Inr split: if_splits)
next
  case TWriteComplete
  with run have "invoke CallWriteComplete (writecompletecallback cbs) c = Inr c'"
    by (simp add: exec_task_def)
  from invoke_moves [OF keep this] show ?thesis by simp
qed (use run sendInLoop_moves reading_moves [OF disjI1] reading_moves [OF disjI2] in \<open>auto simp: exec_task_def\<close>)

lemma runInLoop_moves:
  assumes "cbs_keep cbs leaves_output" and "runInLoop tid (exec_task tid cbs wr) t c = Inr c'"
  shows "channel_moves (conn_channel c) (conn_channel c')"
  using assms exec_task_moves [OF assms(1), of tid wr t c c'] by (auto simp: runInLoop_def split: if_splits)

text \<open>A connection touches its channel only through the channel's own operations.\<close>

lemma conn_step_moves:
  assumes keep: "cbs_keep cbs leaves_output" and run: "conn_step tid cbs wr op c = Inr c'"
  shows "channel_moves (conn_channel c) (conn_channel c')"
proof (cases op)
  case (OSend buf)
  from run OSend obtain b where b: "send tid cbs wr buf c = Inr (b, c')"
    by (auto simp: bind_res_eq_Inr)
  then consider "c' = c" | m where "sendInLoop tid cbs wr m c = Inr c'"
    | m where "runInLoop tid (exec_task tid cbs wr) (TSend m) c = Inr c'"
    by (auto simp: send_def bind_res_eq_Inr split: if_splits)
  then show ?thesis by cases (auto dest: sendInLoop_moves runInLoop_moves [OF keep])
next
  case OShutdown
  with run show ?thesis
    using runInLoop_moves [OF keep, of tid wr TShutdown "c\<lparr>conn_state := KDisconnecting\<rparr>" c']
    by (auto simp: shutdown_def split: if_splits)
next
  case OForceClose
  with run show ?thesis by (auto simp: forceClose_def split: if_splits)
next
  case OWrite
  with run handleWrite_moves [of tid cbs wr c c'] show ?thesis by simp
qed (use run exec_task_moves [OF keep] runInLoop_moves [OF keep] connectEstablished_moves [OF keep]
    connectDestroyed_moves [OF keep] handleRead_moves [OF keep] handleClose_moves [OF keep]
    in \<open>auto simp: startRead_def stopRead_def handleError_def\<close>)

section \<open>Output that stays\<close>

text \<open>
  The output has come to rest: \<open>s\<close> has been sent, \<open>w\<close> is the beginning of what waits, and as long as
  the connection is not disconnected it waits for an event and the write side stays as it is.
\<close>

definition at_rest :: "byte list \<Rightarrow> byte list \<Rightarrow> bool \<Rightarrow> connection \<Rightarrow> bool" where
  "at_rest s w sh c \<longleftrightarrow> deaf (conn_channel c) \<and> buf_inv (outputbuffer c) \<and> sock_sent c = s \<and>
     prefix w (content (outputbuffer c)) \<and>
     (conn_state c \<noteq> KDisconnected \<longrightarrow> isWriting (conn_channel c) \<and> sock_shut c = sh)"

lemma at_rest_cong:
  assumes "outputbuffer c' = outputbuffer c" and "sock_sent c' = sock_sent c" and "sock_shut c' = sock_shut c"
    and "conn_channel c' = conn_channel c"
    and "conn_state c' = conn_state c \<or> conn_state c \<noteq> KDisconnected"
  shows "at_rest s w sh c \<Longrightarrow> at_rest s w sh c'"
  using assms by (auto simp: at_rest_def)

lemma invoke_at_rest:
  assumes "cbs_keep cbs leaves_output" and "invoke what cb c = Inr c'" and "at_rest s w sh c"
    and "cb = connectioncallback cbs \<or> cb = messagecallback cbs \<or> cb = closecallback cbs \<or>
      cb = writecompletecallback cbs"
  shows "at_rest s w sh c'"
proof -
  have "leaves_output c c'" using invoke_channel [OF assms(1,2,4)] .
  then show ?thesis
    by (intro at_rest_cong [OF _ _ _ _ _ assms(3)]) (auto simp: leaves_output_def)
qed

lemma isWriting_same: "events ch' = events ch \<Longrightarrow> isWriting ch' = isWriting ch"
  by (simp add: isWriting_def)

text \<open>Turning reading on and off, and all the operations of a disconnected connection.\<close>

lemma reading_at_rest:
  assumes "at_rest s w sh c"
    and "on_channel (enableReading tid c1) c1 = Inr c2 \<or> on_channel (disenableReading tid c1) c1 = Inr c2"
    and "c1 = c \<or> conn_state c \<noteq> KDisconnected \<and> c1 = c\<lparr>conn_state := st\<rparr>"
  shows "at_rest s w sh c2"
proof -
  from assms(2) obtain ch where ch: "enableReading tid c1 (conn_channel c1) = Inr ch \<or>
      disenableReading tid c1 (conn_channel c1) = Inr ch" and c2: "c2 = c1\<lparr>conn_channel := ch\<rparr>"
    by (auto simp: on_channel_Inr)
  have "isWriting ch = isWriting (conn_channel c1)"
    using ch by (auto simp: enableReading_def disenableReading_def channel_update_Inr)
  moreover have "deaf (conn_channel c1) \<Longrightarrow> deaf ch" using ch deaf_channel_ops(1,2) by blast
  moreover have "conn_channel c1 = conn_channel c" using assms(3) by auto
  ultimately show ?thesis using assms(1,3) c2 by (auto simp: at_rest_def)
qed

lemma off_at_rest:
  assumes "at_rest s w sh c" and "conn_state c = KDisconnected"
    and "on_channel f c = Inr c'" and "\<And>ch. f (conn_channel c) = Inr ch \<Longrightarrow> deaf ch"
  shows "at_rest s w sh c'"
  using assms by (auto simp: at_rest_def on_channel_Inr)

lemma sendInLoop_at_rest:
  assumes rest: "at_rest s w sh c" and len: "length m < 2 ^ 63"
    and run: "sendInLoop tid cbs wr m c = Inr c'"
  shows "at_rest s w sh c'"
proof (cases "conn_state c = KDisconnected")
  case True
  with run have "c' = c" by (auto simp: sendInLoop_def bind_res_eq_Inr)
  with rest show ?thesis by simp
next
  case False
  let ?c0 = "c\<lparr>accepted := accepted c @ m\<rparr>"
  have guard: "threadPid c \<noteq> tid" using run by (auto simp: sendInLoop_def bind_res_eq_Inr)
  have wr: "isWriting (conn_channel c)" using rest False by (simp add: at_rest_def)
  have same: "at_rest s w sh ?c0" by (rule at_rest_cong [OF _ _ _ _ _ rest]) simp_all
  have "send_rest tid m ?c0 = Inr c'"
    using run sendInLoop_buffered [OF _ guard False] wr by simp
  with wr have "c' = ?c0 \<or> (\<exists>b. Buffer.append m (outputbuffer c) = Inr b \<and> c' = ?c0\<lparr>outputbuffer := b\<rparr>)"
    by (auto simp: send_rest_def bind_res_eq_Inr Let_def split: if_splits)
  then show ?thesis
  proof
    assume "\<exists>b. Buffer.append m (outputbuffer c) = Inr b \<and> c' = ?c0\<lparr>outputbuffer := b\<rparr>"
    then obtain b where b: "Buffer.append m (outputbuffer c) = Inr b" "c' = ?c0\<lparr>outputbuffer := b\<rparr>" by blast
    have "buf_inv b \<and> content b = content (outputbuffer c) @ m"
      using append_Inr [OF _ len b(1)] rest by (simp add: at_rest_def)
    with rest b(2) show ?thesis by (auto simp: at_rest_def)
  qed (simp add: same)
qed

lemma handleClose_at_rest:
  assumes keep: "cbs_keep cbs leaves_output" and rest: "at_rest s w sh c"
    and run: "handleClose tid cbs c = Inr c'"
  shows "at_rest s w sh c'"
proof -
  let ?c1 = "c\<lparr>conn_state := KDisconnected\<rparr>"
  from run obtain c2 c3 where c2: "on_channel (disableall tid ?c1) ?c1 = Inr c2"
    and c3: "invoke (CallConnection (conn_state c2)) (connectioncallback cbs) c2 = Inr c3"
    and c': "invoke CallClose (closecallback cbs) c3 = Inr c'"
    by (auto simp: handleClose_def Let_def bind_res_eq_Inr)
  have r1: "at_rest s w sh ?c1" using rest by (simp add: at_rest_def)
  have "deaf ch" if "disableall tid ?c1 (conn_channel ?c1) = Inr ch" for ch
    using deaf_channel_ops(4) [OF that] rest by (simp add: at_rest_def)
  from off_at_rest [OF r1 _ c2 this] have "at_rest s w sh c2" by simp
  from invoke_at_rest [OF keep c3 this] have "at_rest s w sh c3" by simp
  from invoke_at_rest [OF keep c' this] show ?thesis by simp
qed

lemma connectEstablished_at_rest:
  assumes keep: "cbs_keep cbs leaves_output" and rest: "at_rest s w sh c"
    and run: "connectEstablished tid cbs c = Inr c'"
  shows "at_rest s w sh c'"
proof -
  let ?c1 = "c\<lparr>conn_state := KConnected\<rparr>"
  from run obtain c2 where st: "conn_state c = KConnecting"
    and c2: "on_channel (enableReading tid ?c1) ?c1 = Inr c2"
    and c': "invoke (CallConnection (conn_state c2)) (connectioncallback cbs) c2 = Inr c'"
    by (auto simp: connectEstablished_def Let_def bind_res_eq_Inr)
  have "at_rest s w sh c2" by (rule reading_at_rest [where st = KConnected, OF rest disjI1 [OF c2]]) (simp add: st)
  from invoke_at_rest [OF keep c' this] show ?thesis by simp
qed

lemma connectDestroyed_at_rest:
  assumes keep: "cbs_keep cbs leaves_output" and rest: "at_rest s w sh c"
    and run: "connectDestroyed tid cbs c = Inr c'"
  shows "at_rest s w sh c'"
proof -
  have removed: "at_rest s w sh c'"
    if c3: "at_rest s w sh c3" and rem: "on_channel (channel_remove tid c3 (channel_this c3)) c3 = Inr c'" for c3
  proof -
    from rem obtain ch where ch: "channel_remove tid c3 (channel_this c3) (conn_channel c3) = Inr ch"
      and c': "c' = c3\<lparr>conn_channel := ch\<rparr>" by (auto simp: on_channel_Inr)
    have "isWriting ch = isWriting (conn_channel c3)"
      by (rule isWriting_same) (simp add: channel_remove_Inr [OF ch])
    with c3 c' deaf_channel_ops(5) [OF ch] show ?thesis by (simp add: at_rest_def)
  qed
  show ?thesis
  proof (cases "conn_state c = KConnected")
    case True
    let ?c1 = "c\<lparr>conn_state := KDisconnected\<rparr>"
    from True run obtain c2 c3 where c2: "on_channel (disableall tid ?c1) ?c1 = Inr c2"
      and c3: "invoke (CallConnection (conn_state c2)) (connectioncallback cbs) c2 = Inr c3"
      and rem: "on_channel (channel_remove tid c3 (channel_this c3)) c3 = Inr c'"
      by (auto simp: connectDestroyed_def Let_def bind_res_eq_Inr)
    have r1: "at_rest s w sh ?c1" using rest by (simp add: at_rest_def)
    have "deaf ch" if "disableall tid ?c1 (conn_channel ?c1) = Inr ch" for ch
      using deaf_channel_ops(4) [OF that] rest by (simp add: at_rest_def)
    from off_at_rest [OF r1 _ c2 this] have "at_rest s w sh c2" by simp
    from invoke_at_rest [OF keep c3 this] have "at_rest s w sh c3" by simp
    then show ?thesis by (rule removed [OF _ rem])
  next
    case False
    with run have "on_channel (channel_remove tid c (channel_this c)) c = Inr c'"
      by (auto simp: connectDestroyed_def bind_res_eq_Inr)
    then show ?thesis by (rule removed [OF rest])
  qed
qed

lemma handleRead_at_rest:
  assumes keep: "cbs_keep cbs leaves_output" and rest: "at_rest s w sh c"
    and run: "handleRead tid cbs r e c = Inr c'"
  shows "at_rest s w sh c'"
proof -
  from run obtain n en b where "readFd r (inputbuffer c) = Inr (n, en, b)"
    and tail: "(if n > 0 then invoke CallMessage (messagecallback cbs) (c\<lparr>inputbuffer := b\<rparr>)
     else if n = 0 then handleClose tid cbs (c\<lparr>inputbuffer := b\<rparr>)
     else handleError e (c\<lparr>inputbuffer := b\<rparr>)) = Inr c'"
    by (auto simp: handleRead_def Let_def bind_res_eq_Inr)
  let ?c1 = "c\<lparr>inputbuffer := b\<rparr>"
  have r1: "at_rest s w sh ?c1" using rest by (simp add: at_rest_def)
  from tail show ?thesis
    using invoke_at_rest [OF keep _ r1, of CallMessage "messagecallback cbs" c']
      handleClose_at_rest [OF keep r1, of tid c'] r1
    by (auto simp: handleError_def split: if_splits)
qed

lemma exec_task_at_rest:
  assumes keep: "cbs_keep cbs leaves_output" and rest: "at_rest s w sh c" and ok: "op_ok (OTask t)"
    and run: "exec_task tid cbs wr t c = Inr c'"
  shows "at_rest s w sh c'"
proof (cases t)
  case (TSend m)
  with run ok sendInLoop_at_rest [OF rest, of m tid cbs wr c'] show ?thesis
    by (simp add: exec_task_def op_ok_def)
next
  case TShutdown
  with run rest show ?thesis
    by (auto simp: exec_task_def shutdownInLoop_def bind_res_eq_Inr at_rest_def split: if_splits)
next
  case TForceClose
  with run rest handleClose_at_rest [OF keep rest] show ?thesis
    by (auto simp: exec_task_def forceCloseInLoop_def bind_res_eq_Inr split: if_splits)
next
  case TStartRead
  have "at_rest s w sh d \<Longrightarrow> at_rest s w sh (d\<lparr>reading := b\<rparr>)" for d b by (simp add: at_rest_def)
  with TStartRead run rest reading_at_rest [OF rest, of tid c] show ?thesis
    by (auto simp: exec_task_def startReadInLoop_def bind_res_eq_Inr split: if_splits)
next
  case TStopRead
  have "at_rest s w sh d \<Longrightarrow> at_rest s w sh (d\<lparr>reading := b\<rparr>)" for d b by (simp add: at_rest_def)
  with TStopRead run rest reading_at_rest [OF rest, of tid c] show ?thesis
    by (auto simp: exec_task_def stopReadInLoop_def bind_res_eq_Inr split: if_splits)
next
  case TWriteComplete
  with run invoke_at_rest [OF keep _ rest] show ?thesis by (auto simp: exec_task_def)
next
  case TReadMember
  with run rest show ?thesis by (simp add: exec_task_def)
qed

lemma queue_at_rest: "at_rest s w sh c \<Longrightarrow> at_rest s w sh (queueInLoop tid t c)"
  by (rule at_rest_cong [of _ c]) simp_all

lemma runInLoop_at_rest:
  assumes "cbs_keep cbs leaves_output" and "at_rest s w sh c" and "op_ok (OTask t)"
    and "runInLoop tid (exec_task tid cbs wr) t c = Inr c'"
  shows "at_rest s w sh c'"
  using assms exec_task_at_rest [OF assms(1-3), of tid wr c'] queue_at_rest
  by (auto simp: runInLoop_def split: if_splits)

lemma conn_step_at_rest:
  assumes keep: "cbs_keep cbs leaves_output" and rest: "at_rest s w sh c" and ok: "op_ok op" and op: "op \<noteq> OWrite"
    and run: "conn_step tid cbs wr op c = Inr c'"
  shows "at_rest s w sh c'"
proof (cases op)
  case (OSend buf)
  from run OSend obtain b where b: "send tid cbs wr buf c = Inr (b, c')"
    by (auto simp: bind_res_eq_Inr)
  show ?thesis
  proof (cases "conn_state c = KConnected \<and> isInloopthread tid c")
    case True
    with b have False
      by (auto simp: send_def bind_res_eq_Inr sendInLoop_def isInloopthread_def)
    then show ?thesis ..
  next
    case False
    with b have "c' = c \<or> (\<exists>m. c' = queueInLoop tid (TSend m) c)"
      by (auto simp: send_def bind_res_eq_Inr runInLoop_def split: if_splits)
    with rest queue_at_rest show ?thesis by blast
  qed
next
  case OShutdown
  have "conn_state c = KConnected \<Longrightarrow> at_rest s w sh (c\<lparr>conn_state := KDisconnecting\<rparr>)"
    using rest by (simp add: at_rest_def)
  with OShutdown run rest show ?thesis
    using runInLoop_at_rest [OF keep, of s w sh "c\<lparr>conn_state := KDisconnecting\<rparr>" TShutdown tid wr c']
    by (auto simp: shutdown_def op_ok_def split: if_splits)
next
  case OForceClose
  have "conn_state c \<noteq> KDisconnected \<Longrightarrow> at_rest s w sh (c\<lparr>conn_state := KDisconnecting\<rparr>)"
    using rest by (simp add: at_rest_def)
  with run OForceClose rest show ?thesis by (auto simp: forceClose_def queue_at_rest split: if_splits)
qed (use run rest op ok exec_task_at_rest [OF keep rest] runInLoop_at_rest [OF keep rest, of TStartRead]
    runInLoop_at_rest [OF keep rest, of TStopRead]
    connectEstablished_at_rest [OF keep rest] connectDestroyed_at_rest [OF keep rest]
    handleRead_at_rest [OF keep rest] handleClose_at_rest [OF keep rest]
    in \<open>auto simp: startRead_def stopRead_def handleError_def op_ok_def\<close>)

section \<open>Runs of events and calls\<close>

lemma leaves_output_stream:
  assumes "cbs_keep cbs leaves_output"
  shows "cbs_keep cbs keeps_stream"
proof -
  have "keeps_stream c c'" if "leaves_output c c'" for c c'
    using that by (auto simp: leaves_output_def keeps_stream_def stream_ok_def)
  with assms show ?thesis unfolding cbs_keep_def by blast
qed

lemma exec_handler_step:
  assumes "h \<noteq> HWrite"
  obtains op where "exec_handler tid cbs wr r err h c = conn_step tid cbs wr op c" and "op \<noteq> OWrite" and "op_ok op"
proof (cases h)
  case HRead
  have "handleError err = handleError 0" by (simp add: handleError_def fun_eq_iff)
  then have "exec_handler tid cbs wr r err HRead c = conn_step tid cbs wr (ORead r) c"
    by (simp only: handleRead_def exec_handler.simps conn_step.simps)
  with HRead show thesis by (intro that [of "ORead r"]) (simp_all add: op_ok_def)
next
  case HError
  then show thesis by (intro that [of "OError err"]) (simp_all add: op_ok_def)
next
  case HClose
  then show thesis by (intro that [of OClose]) (simp_all add: op_ok_def)
qed (use assms in simp)

text \<open>A predicate on connections that survives every operation but \<open>handleWrite\<close> survives every event.\<close>

lemma live_step_keeps:
  assumes step: "\<And>op c c'. op \<noteq> OWrite \<Longrightarrow> op_ok op \<Longrightarrow> I c \<Longrightarrow> conn_step tid cbs wr op c = Inr c' \<Longrightarrow> I c'"
    and chan: "\<And>c ch. I c \<Longrightarrow> deaf ch \<Longrightarrow> events ch = events (conn_channel c) \<Longrightarrow> I (c\<lparr>conn_channel := ch\<rparr>)"
    and deaf: "\<And>c. I c \<Longrightarrow> deaf (conn_channel c)"
    and ok: "live_ok e" and inv: "I c" and run: "live_step tid cbs wr e c = Inr c'"
  shows "I c'"
proof (cases e)
  case (Event m r err)
  let ?c1 = "upd_channel (\<lambda>ch. setRevent (m AND (events ch OR POLLERR OR POLLHUP)) ch) c"
  have "I ?c1" unfolding upd_channel_def
    by (rule chan [OF inv deaf_report [OF deaf [OF inv]]]) (simp add: setRevent_def)
  moreover have "handleEvent conn_channel upd_channel (exec_handler tid cbs wr r err) ?c1 = Inr c'"
    using run Event by (simp add: conn_event_def)
  ultimately show ?thesis
  proof (rule handleEvent_keeps [where I = I, rotated 3])
    fix h s t assume h: "h \<noteq> HWrite" "I s" "exec_handler tid cbs wr r err h s = Inr t"
    from h(1) obtain op where "exec_handler tid cbs wr r err h s = conn_step tid cbs wr op s"
      "op \<noteq> OWrite" "op_ok op" by (rule exec_handler_step)
    with h(2,3) step show "I t" by simp
  next
    fix b s assume "I s"
    then show "I (upd_channel (\<lambda>ch. ch\<lparr>eventHandling := b\<rparr>) s)"
      unfolding upd_channel_def by (intro chan) (auto simp: deaf_flag deaf)
  qed (rule deaf)
next
  case (Call op)
  have "op \<noteq> OWrite" "op_ok op" using ok Call by auto
  moreover have "conn_step tid cbs wr op c = Inr c'" using run Call by simp
  ultimately show ?thesis using step inv by blast
qed

definition calm :: "callbacks \<Rightarrow> write_result \<Rightarrow> connection \<Rightarrow> bool" where
  "calm cbs wr c \<longleftrightarrow> cbs_keep cbs leaves_output \<and> write_contract wr \<and> stream_ok c \<and> deaf (conn_channel c)"

lemma live_step_calm:
  assumes "live_ok e" and "calm cbs wr c" and "live_step tid cbs wr e c = Inr c'"
  shows "calm cbs wr c'"
proof -
  note hyp = assms(2) [unfolded calm_def]
  have "stream_ok c' \<and> deaf (conn_channel c')"
  proof (rule live_step_keeps [where I = "\<lambda>c. stream_ok c \<and> deaf (conn_channel c)", OF _ _ _ assms(1) _ assms(3)])
    fix op d d' assume "op_ok op" "stream_ok d \<and> deaf (conn_channel d)" "conn_step tid cbs wr op d = Inr d'"
    with hyp show "stream_ok d' \<and> deaf (conn_channel d')"
      using conn_step_stream [of cbs wr d op tid d'] leaves_output_stream moves_deaf conn_step_moves by blast
  qed (use hyp in \<open>simp_all add: stream_ok_def isWriting_def\<close>)
  with hyp show ?thesis by (simp add: calm_def)
qed

interpretation clm: machine "checked live_ok (live_step tid cbs wr)" "calm cbs wr" for tid cbs wr
  by unfold_locales (auto simp: checked_Inr dest: live_step_calm)

definition resting :: "callbacks \<Rightarrow> byte list \<Rightarrow> byte list \<Rightarrow> bool \<Rightarrow> connection \<Rightarrow> bool" where
  "resting cbs s w sh c \<longleftrightarrow> cbs_keep cbs leaves_output \<and> at_rest s w sh c"

lemma live_step_resting:
  assumes "live_ok e" and "resting cbs s w sh c" and "live_step tid cbs wr e c = Inr c'"
  shows "resting cbs s w sh c'"
proof -
  note hyp = assms(2) [unfolded resting_def]
  have "at_rest s w sh c'"
  proof (rule live_step_keeps [where I = "at_rest s w sh", OF _ _ _ assms(1) _ assms(3)])
    fix op d d' assume "op \<noteq> OWrite" "op_ok op" "at_rest s w sh d" "conn_step tid cbs wr op d = Inr d'"
    with hyp show "at_rest s w sh d'" using conn_step_at_rest by blast
  qed (use hyp in \<open>simp_all add: at_rest_def isWriting_def\<close>)
  with hyp show ?thesis by (simp add: resting_def)
qed

interpretation rst: machine "checked live_ok (live_step tid cbs wr)" "resting cbs s w sh" for tid cbs wr s w sh
  by unfold_locales (auto simp: checked_Inr dest: live_step_resting)

lemma TcpConnection_ctor_deaf:
  assumes "TcpConnection_ctor opt loop chp nm fd la pa ib ob k = Inr (c, k')"
  shows "deaf (conn_channel c)"
proof -
  from assms obtain l where "conn_channel c = setCloseCallback (Some HClose) (setWriteEventCallback (Some HWrite)
      (setReadEventCallback (Some HRead) (setErrorEventCallback (Some HError) (new_channel l fd))))"
    by (auto simp: TcpConnection_ctor_def Let_def event_loop.defs setKeepAlive_def split: option.splits)
  then show ?thesis
    by (simp add: deaf_def never_writable_def channel_inv_def isNoneEvent_def NoneEvent_def
        channel_setter_defs new_channel_def)
qed

section \<open>Output that drains\<close>

text \<open>What the drain of the output relies on.\<close>

definition drainable :: "pid \<Rightarrow> connection \<Rightarrow> bool" where
  "drainable tid c \<longleftrightarrow> stream_ok c \<and> threadPid c \<noteq> tid \<and> ch_loop (conn_channel c) = loop_this c \<and>
     conn_state c \<noteq> KDisconnected"

text \<open>A write event on which the kernel takes something makes progress.\<close>

lemma handleWrite_progress:
  assumes dr: "drainable tid c" and con: "write_contract wr"
    and takes: "0 < fst (wr c (content (outputbuffer c)))" and some: "content (outputbuffer c) \<noteq> []"
  obtains c' where "handleWrite tid cbs wr c = Inr c'" and "drainable tid c'"
    and "length (content (outputbuffer c')) < length (content (outputbuffer c))"
    and "accepted c' = accepted c" and "conn_state c' = conn_state c"
    and "sock_shut c \<Longrightarrow> sock_shut c'"
    and "content (outputbuffer c') = [] \<Longrightarrow> conn_state c = KDisconnecting \<Longrightarrow> sock_shut c'"
proof -
  let ?out = "content (outputbuffer c)" and ?n = "fst (wr c (content (outputbuffer c)))"
  note D = dr [unfolded drainable_def]
  have inv: "buf_inv (outputbuffer c)" and wr: "isWriting (conn_channel c)"
    using D some by (simp_all add: stream_ok_def)
  have "?n \<le> int (length ?out)" using con unfolding write_contract_def by blast
  from retrieve_written [OF inv takes this] obtain b where
    b: "retrieve (of_int ?n) (outputbuffer c) = Inr b" "buf_inv b" "content b = drop (nat ?n) ?out" by blast
  let ?c1 = "c\<lparr>sock_sent := sock_sent c @ take (nat ?n) ?out, outputbuffer := b\<rparr>"
  have less: "length (content b) < length ?out" using takes some b(3) by simp
  have acc: "accepted c = sock_sent ?c1 @ content b" using D b(3) by (simp add: stream_ok_def)
  show thesis
  proof (cases "content b = []")
    case False
    then have "handleWrite tid cbs wr c = Inr ?c1"
      using D wr takes b readable_zero [OF b(2)]
      by (simp add: handleWrite_def assertInLoopThread_pass Let_def)
    moreover have "drainable tid ?c1"
      using D wr b(2) acc False by (simp add: drainable_def stream_ok_def)
    ultimately show thesis using that [of ?c1] less False by simp
  next
    case True
    let ?c2 = "?c1\<lparr>conn_channel := (conn_channel c)\<lparr>events := events (conn_channel c) AND NOT WriteEvernt,
      addedToLoop := True\<rparr>\<rparr>"
    let ?c3 = "if writecompletecallback cbs \<noteq> None then queueInLoop tid TReadMember ?c2 else ?c2"
    let ?c' = "if conn_state c = KDisconnecting then ?c3\<lparr>sock_shut := True\<rparr> else ?c3"
    have empty: "readableBytes b = 0" using True readable_zero [OF b(2)] by simp
    have ch: "on_channel (disableWriting tid ?c1) ?c1 = Inr ?c2"
      using D by (simp add: on_channel_def channel_ops_eq)
    have c3: "threadPid ?c3 = threadPid c" "loop_this ?c3 = loop_this c" "conn_channel ?c3 = conn_channel ?c2"
        "outputbuffer ?c3 = b" "accepted ?c3 = accepted c" "sock_sent ?c3 = sock_sent ?c1"
        "conn_state ?c3 = conn_state c" "sock_shut ?c3 = sock_shut c"
      by simp_all
    have "handleWrite tid cbs wr c =
        (if conn_state c = KDisconnecting then shutdownInLoop tid ?c3 else Inr ?c3)"
      using D wr takes b(1) empty ch
      by (cases "writecompletecallback cbs") (simp_all add: handleWrite_def assertInLoopThread_pass Let_def)
    moreover have "shutdownInLoop tid ?c3 = Inr (?c3\<lparr>sock_shut := True\<rparr>)"
      using D c3(1,3) by (simp add: shutdownInLoop_def assertInLoopThread_pass)
    ultimately have "handleWrite tid cbs wr c = Inr ?c'" by simp
    moreover have "stream_ok ?c3"
      unfolding stream_ok_def c3(3-7) using b(2) acc True by simp
    then have "drainable tid ?c'"
      using D c3(1-3,7) by (simp add: drainable_def stream_ok_def del: queueInLoop_conn)
    ultimately show thesis using that [of ?c'] less c3 True by (simp del: queueInLoop_conn)
  qed
qed

lemma drain_run:
  assumes con: "write_contract wr" and takes: "\<And>c m. m \<noteq> [] \<Longrightarrow> 0 < fst (wr c m)"
  shows "drainable tid c \<Longrightarrow> length (content (outputbuffer c)) \<le> n \<Longrightarrow>
    \<exists>c'. run_res (conn_step tid cbs wr) (replicate n OWrite) c = Inr c' \<and> drainable tid c' \<and>
      content (outputbuffer c') = [] \<and> accepted c' = accepted c \<and> (sock_shut c \<longrightarrow> sock_shut c') \<and>
      (conn_state c = KDisconnecting \<and> content (outputbuffer c) \<noteq> [] \<longrightarrow> sock_shut c')"
proof (induction n arbitrary: c)
  case 0
  then show ?case by simp
next
  case (Suc n)
  show ?case
  proof (cases "content (outputbuffer c) = []")
    case True
    then have "handleWrite tid cbs wr c = Inr c"
      using Suc.prems(1) by (simp add: drainable_def stream_ok_def handleWrite_def assertInLoopThread_pass)
    with Suc.IH [OF Suc.prems(1)] True show ?thesis by simp
  next
    case False
    from handleWrite_progress [OF Suc.prems(1) con takes [OF False] False, of cbs] obtain c1 where
      c1: "handleWrite tid cbs wr c = Inr c1" "drainable tid c1" "accepted c1 = accepted c"
        "length (content (outputbuffer c1)) < length (content (outputbuffer c))"
        "conn_state c1 = conn_state c" "sock_shut c \<Longrightarrow> sock_shut c1"
        "content (outputbuffer c1) = [] \<Longrightarrow> conn_state c = KDisconnecting \<Longrightarrow> sock_shut c1" by metis
    have "length (content (outputbuffer c1)) \<le> n" using c1(4) Suc.prems(2) by simp
    from Suc.IH [OF c1(2) this] c1 show ?thesis by auto
  qed
qed

section \<open>Properties\<close>

text \<open>C12: What a connection does not send at once it never sends: in every run of calls and of events
  as the kernel reports them within the interest of the channel, with callbacks that do not touch
  the output themselves, once bytes are left in the output buffer of a connection that is not
  disconnected, nothing more is ever handed to the kernel, those bytes stay where they are, and the
  write side is not shut before the connection is disconnected. The reason is that the channel asks
  for the wrong event, so handleWrite never runs.\<close>

theorem output_never_drains:
  assumes "TcpConnection_ctor opt loop chp nm fd la pa ib ob k = Inr (c0, k')"
    and "buf_inv ob" and "content ob = []"
    and "cbs_keep cbs leaves_output" and "write_contract wr" and "\<forall>e \<in> set (es @ later). live_ok e"
    and "run_res (live_step tid cbs wr) es c0 = Inr c"
    and "content (outputbuffer c) \<noteq> []" and "conn_state c \<noteq> KDisconnected"
    and "run_res (live_step tid cbs wr) later c = Inr c'"
  shows "sock_sent c' = sock_sent c \<and> prefix (content (outputbuffer c)) (content (outputbuffer c')) \<and>
    (conn_state c' \<noteq> KDisconnected \<longrightarrow> sock_shut c' = sock_shut c)"
proof -
  have ok: "\<forall>e \<in> set es. live_ok e" "\<forall>e \<in> set later. live_ok e" using assms(6) by auto
  have "calm cbs wr c0"
    using TcpConnection_ctor_stream [OF assms(1-3)] TcpConnection_ctor_deaf [OF assms(1)] assms(4,5)
    by (simp add: calm_def)
  moreover have "run_res (checked live_ok (live_step tid cbs wr)) es c0 = Inr c"
    by (simp only: run_checked [OF ok(1)] assms(7))
  ultimately have "calm cbs wr c" by (rule clm.run_inv)
  then have "resting cbs (sock_sent c) (content (outputbuffer c)) (sock_shut c) c"
    using assms(8,9) by (auto simp: calm_def resting_def at_rest_def stream_ok_def)
  moreover have "run_res (checked live_ok (live_step tid cbs wr)) later c = Inr c'"
    by (simp only: run_checked [OF ok(2)] assms(10))
  ultimately have "resting cbs (sock_sent c) (content (outputbuffer c)) (sock_shut c) c'" by (rule rst.run_inv)
  then show ?thesis by (simp add: resting_def at_rest_def)
qed

text \<open>Three bytes sent on a kernel that takes two.\<close>

lemma sample_left_over:
  obtains c where "run_res (live_step 8 sample_callbacks two_bytes)
      [Call OEstablished, Call (OTask (TSend [1, 2, 3]))] sample_connection = Inr c"
    and "sock_sent c = [1, 2]" and "content (outputbuffer c) = [3]" and "conn_state c = KConnected"
    and "events (conn_channel c) = 3" and "revents (conn_channel c) = 0" and "threadPid c = 7"
    and "ch_loop (conn_channel c) = loop_this c" and "stream_ok c"
proof -
  let ?c1 = "sample_connection\<lparr>conn_state := KConnected, conn_channel := (conn_channel sample_connection)\<lparr>
    events := 1, addedToLoop := True\<rparr>, calls := [UP]\<rparr>"
  let ?c2 = "?c1\<lparr>accepted := [1, 2, 3], sock_sent := [1, 2]\<rparr>"
  have e: "connectEstablished 8 sample_callbacks sample_connection = Inr ?c1"
    by (simp add: connectEstablished_def assertInLoopThread_pass sample_connection_def sample_event_loop_def
      on_channel_def enableReading_def channel_update_eq new_channel_def invoke_def sample_callbacks_def
      ReadEvent_def UP_def event_loop.defs)
  have "readableBytes sample_buffer = 0" by (simp add: readable_zero)
  then have s: "sendInLoop 8 sample_callbacks two_bytes [1, 2, 3] ?c1 = send_rest 8 [3] ?c2"
    by (simp add: sendInLoop_def send_rest_def assertInLoopThread_pass sample_connection_def sample_event_loop_def
      isWriting_def WriteEvernt_def two_bytes_def sample_callbacks_def event_loop.defs Let_def)
  have room: "length [3 :: byte] \<le> buffer_room sample_buffer"
    by (simp add: buffer_room_def vector_max_size_def)
  from bs.put_ok [OF _ room] obtain b where b: "Buffer.append [3] sample_buffer = Inr b" by auto
  from append_Inr [OF _ _ b] have b': "buf_inv b" "content b = [3]" by simp_all
  let ?c = "?c2\<lparr>outputbuffer := b, conn_channel := (conn_channel ?c2)\<lparr>events := 3, addedToLoop := True\<rparr>\<rparr>"
  have "send_rest 8 [3] ?c2 = Inr ?c"
    using b by (simp add: send_rest_def Let_def sample_connection_def sample_event_loop_def event_loop.defs
      isWriting_def WriteEvernt_def on_channel_def enableWriting_def channel_update_eq new_channel_def)
  with e s have "run_res (live_step 8 sample_callbacks two_bytes)
      [Call OEstablished, Call (OTask (TSend [1, 2, 3]))] sample_connection = Inr ?c"
    by (simp add: exec_task_def)
  moreover have "stream_ok ?c" using b' by (simp add: stream_ok_def isWriting_def WriteEvernt_def)
  ultimately show thesis
    using b'(2) by (intro that) (simp_all add: sample_connection_def sample_event_loop_def event_loop.defs new_channel_def)
qed

text \<open>The peer reads everything and the kernel reports writability: nothing happens.\<close>

lemma output_never_drains_witness:
  "\<exists>c c'. run_res (live_step 8 sample_callbacks two_bytes)
      [Call OEstablished, Call (OTask (TSend [1, 2, 3]))] sample_connection = Inr c \<and>
    run_res (live_step 8 sample_callbacks two_bytes) [Event POLLOUT (Inl 0) 0, Call OShutdown, Event POLLOUT (Inl 0) 0] c
      = Inr c' \<and>
    sock_sent c' = [1, 2] \<and> prefix [3] (content (outputbuffer c'))"
proof -
  let ?later = "[Event POLLOUT (Inl 0) 0, Call OShutdown, Event POLLOUT (Inl 0) 0]"
  obtain c where c: "run_res (live_step 8 sample_callbacks two_bytes)
      [Call OEstablished, Call (OTask (TSend [1, 2, 3]))] sample_connection = Inr c"
    "sock_sent c = [1, 2]" "content (outputbuffer c) = [3]" "conn_state c = KConnected"
    "events (conn_channel c) = 3" "revents (conn_channel c) = 0" "threadPid c = 7"
    by (rule sample_left_over)
  have silent: "conn_event 8 sample_callbacks two_bytes POLLOUT (Inl 0) 0 d =
      Inr (d\<lparr>conn_channel := (conn_channel d)\<lparr>eventHandling := False\<rparr>\<rparr>)"
    if "events (conn_channel d) = 3" "revents (conn_channel d) = 0" for d
    using that by (simp add: conn_event_def handleEvent_def Let_def upd_channel_def setRevent_def poll_defs)
  obtain c' where c': "run_res (live_step 8 sample_callbacks two_bytes) ?later c = Inr c'"
    using c(4-7) by (simp add: silent shutdown_def runInLoop_def isInloopthread_def)
  have keep: "cbs_keep sample_callbacks leaves_output"
    by (rule sample_callbacks_keep) (simp add: leaves_output_def)
  from output_never_drains [OF sample_connection_ctor _ _ keep two_bytes_contract _ c(1) _ _ c'] c
  have "sock_sent c' = [1, 2] \<and> prefix [3] (content (outputbuffer c'))" by (simp add: op_ok_def)
  with c(1) c' show ?thesis by blast
qed

text \<open>C29: Were handleWrite run, everything would be sent: on a kernel that takes something of
  every write, as many write events as there are bytes in the output buffer are enough to
  hand all of them to the kernel in order, stop asking for write events, and, when a shutdown
  waits for it, shut the write side.\<close>

theorem write_events_drain:
  assumes "stream_ok c" and "write_contract wr" and "\<And>c m. m \<noteq> [] \<Longrightarrow> 0 < fst (wr c m)"
    and "threadPid c \<noteq> tid" and "ch_loop (conn_channel c) = loop_this c" and "conn_state c \<noteq> KDisconnected"
    and "length (content (outputbuffer c)) \<le> n"
  shows "\<exists>c'. run_res (conn_step tid cbs wr) (replicate n OWrite) c = Inr c' \<and>
    sock_sent c' = sock_sent c @ content (outputbuffer c) \<and> content (outputbuffer c') = [] \<and>
    \<not> isWriting (conn_channel c') \<and>
    (conn_state c = KDisconnecting \<and> content (outputbuffer c) \<noteq> [] \<longrightarrow> sock_shut c')"
proof -
  have "drainable tid c" using assms(1,4-6) by (simp add: drainable_def)
  from drain_run [OF assms(2,3) this assms(7), of cbs] obtain c' where
    c': "run_res (conn_step tid cbs wr) (replicate n OWrite) c = Inr c'" "drainable tid c'"
      "content (outputbuffer c') = []" "accepted c' = accepted c"
      "conn_state c = KDisconnecting \<and> content (outputbuffer c) \<noteq> [] \<longrightarrow> sock_shut c'" by blast
  then show ?thesis using assms(1) by (intro exI [of _ c']) (simp add: drainable_def stream_ok_def)
qed

lemma write_events_drain_witness:
  "\<exists>c c'. content (outputbuffer c) = [3] \<and> conn_step 8 sample_callbacks two_bytes OWrite c = Inr c' \<and>
     sock_sent c' = [1, 2, 3] \<and> sock_shut c'"
proof -
  obtain c where c: "sock_sent c = [1, 2]" "content (outputbuffer c) = [3]" "conn_state c = KConnected"
      "threadPid c = 7" "ch_loop (conn_channel c) = loop_this c" "stream_ok c"
    by (rule sample_left_over)
  let ?c = "c\<lparr>conn_state := KDisconnecting\<rparr>"
  have "stream_ok ?c" using c(3,6) by (simp add: stream_ok_def)
  moreover have "\<And>c m. m \<noteq> [] \<Longrightarrow> 0 < fst (two_bytes c m)" by (simp add: two_bytes_def)
  ultimately have "\<exists>c'. run_res (conn_step 8 sample_callbacks two_bytes) (replicate 1 OWrite) ?c = Inr c' \<and>
      sock_sent c' = sock_sent ?c @ content (outputbuffer ?c) \<and> content (outputbuffer c') = [] \<and>
      \<not> isWriting (conn_channel c') \<and>
      (conn_state ?c = KDisconnecting \<and> content (outputbuffer ?c) \<noteq> [] \<longrightarrow> sock_shut c')"
    using c by (intro write_events_drain [OF _ two_bytes_contract]) simp_all
  then show ?thesis using c(1,2) by - (rule exI [of _ ?c], auto simp: bind_res_eq_Inr)
qed

end
