(* ===== verification/StreamDelivery.thy ===== *)
theory StreamDelivery
  imports TcpConnection "HOL-Library.Sublist"
begin

text \<open>
  Two connections as a stream of bytes: what TcpConnection::send and sendInLoop accept on one
  side, against what the message callback of the other side gets from TcpConnection::handleRead
  (network/src/TcpConnection.cc). The network is the list of chunks the reads deliver.
\<close>

section \<open>The receiving side\<close>

text \<open>
  A message callback that always returns and touches the input buffer only by retrieving some of its
  bytes.
\<close>

definition consumer :: "user_fun \<Rightarrow> bool" where
  "consumer f \<longleftrightarrow> (\<forall>c. buf_inv (inputbuffer c) \<longrightarrow>
     (\<exists>c' k. f c = Inr c' \<and> buf_inv (inputbuffer c') \<and>
        content (inputbuffer c') = drop k (content (inputbuffer c)) \<and>
        unat (writeIndex (inputbuffer c')) \<le> max 8 (unat (writeIndex (inputbuffer c))) \<and>
        threadPid c' = threadPid c))"

lemma consumer_calls:
  "consumer f \<Longrightarrow> buf_inv (inputbuffer c) \<Longrightarrow>
    \<exists>c' k. f (c\<lparr>calls := cs\<rparr>) = Inr c' \<and> buf_inv (inputbuffer c') \<and>
      content (inputbuffer c') = drop k (content (inputbuffer c)) \<and>
      unat (writeIndex (inputbuffer c')) \<le> max 8 (unat (writeIndex (inputbuffer c))) \<and>
      threadPid c' = threadPid c"
  unfolding consumer_def by (drule spec [of _ "c\<lparr>calls := cs\<rparr>"]) simp

lemma consumer_default: "consumer defaultMessageCallback"
  unfolding consumer_def
proof (intro allI impI)
  fix c :: connection assume inv: "buf_inv (inputbuffer c)"
  have "content (retrieveAll (inputbuffer c)) = drop (length (content (inputbuffer c))) (content (inputbuffer c))"
    using retrieveAll_ok [OF inv] by simp
  then show "\<exists>c' k. defaultMessageCallback c = Inr c' \<and> buf_inv (inputbuffer c') \<and>
      content (inputbuffer c') = drop k (content (inputbuffer c)) \<and>
      unat (writeIndex (inputbuffer c')) \<le> max 8 (unat (writeIndex (inputbuffer c))) \<and>
      threadPid c' = threadPid c"
    using retrieveAll_ok [OF inv]
    by (intro exI [of _ "c\<lparr>inputbuffer := retrieveAll (inputbuffer c)\<rparr>"] exI [of _ "length (content (inputbuffer c))"])
      (simp add: defaultMessageCallback_def retrieveAll_def)
qed

text \<open>One read event with data.\<close>

lemma handleRead_data:
  assumes inv: "buf_inv (inputbuffer c)" and data: "data \<noteq> []" "length data \<le> unat extrabuf_size"
    and room: "max 8 (unat (writeIndex (inputbuffer c))) + length data \<le> vector_max_size"
    and cb: "messagecallback cbs = Some f" "consumer f" and pid: "threadPid c \<noteq> tid"
  shows "\<exists>c' k. handleRead tid cbs (Inr data) 0 c = Inr c' \<and> buf_inv (inputbuffer c') \<and>
    content (inputbuffer c') = drop k (content (inputbuffer c) @ data) \<and>
    unat (writeIndex (inputbuffer c')) \<le> max 8 (unat (writeIndex (inputbuffer c))) + length data \<and>
    threadPid c' = threadPid c"
proof -
  have cap: "length data \<le> readv_capacity (inputbuffer c)"
    using data(2) readv_capacity_ge [of "inputbuffer c"] by simp
  have "unat (writeIndex (inputbuffer c)) + length data \<le> vector_max_size" using room by simp
  from readFd_ok [OF inv cap this] obtain b where
    b: "readFd (Inr data) (inputbuffer c) = Inr (int (length data), None, b)" "buf_inv b"
      "content b = content (inputbuffer c) @ data"
      "unat (writeIndex b) \<le> unat (writeIndex (inputbuffer c)) + length data" by blast
  let ?c = "c\<lparr>inputbuffer := b\<rparr>"
  obtain c' k where f: "f (?c\<lparr>calls := calls ?c @ [CallMessage]\<rparr>) = Inr c'" "buf_inv (inputbuffer c')"
      "content (inputbuffer c') = drop k (content b)" "threadPid c' = threadPid c"
      "unat (writeIndex (inputbuffer c')) \<le> max 8 (unat (writeIndex b))"
    using consumer_calls [OF cb(2), of ?c "calls ?c @ [CallMessage]"] b(2) by auto
  have "handleRead tid cbs (Inr data) 0 c = Inr c'"
    using b(1) data(1) cb(1) pid f(1) by (simp add: handleRead_def assertInLoopThread_pass invoke_def)
  moreover have "unat (writeIndex (inputbuffer c')) \<le> max 8 (unat (writeIndex (inputbuffer c))) + length data"
    using f(5) b(4) by simp
  ultimately show ?thesis using f b(3) by auto
qed

text \<open>All reads: nothing is lost between the retrieved bytes and those still in the buffer.\<close>

lemma reads_deliver:
  assumes cb: "messagecallback cbs = Some f" "consumer f"
  shows "buf_inv (inputbuffer c) \<Longrightarrow> threadPid c \<noteq> tid \<Longrightarrow>
    \<forall>d \<in> set chunks. d \<noteq> [] \<and> length d \<le> unat extrabuf_size \<Longrightarrow>
    max 8 (unat (writeIndex (inputbuffer c))) + length (concat chunks) \<le> vector_max_size \<Longrightarrow>
    \<exists>c' taken. run_res (\<lambda>data. handleRead tid cbs (Inr data) 0) chunks c = Inr c' \<and>
      content (inputbuffer c) @ concat chunks = taken @ content (inputbuffer c')"
proof (induction chunks arbitrary: c)
  case Nil
  then show ?case by simp
next
  case (Cons d chunks)
  have "d \<noteq> []" "length d \<le> unat extrabuf_size"
    "max 8 (unat (writeIndex (inputbuffer c))) + length d \<le> vector_max_size"
    using Cons.prems by auto
  from handleRead_data [OF Cons.prems(1) this cb Cons.prems(2)] obtain c1 k where
    c1: "handleRead tid cbs (Inr d) 0 c = Inr c1" "buf_inv (inputbuffer c1)"
      "content (inputbuffer c1) = drop k (content (inputbuffer c) @ d)" "threadPid c1 = threadPid c"
      "unat (writeIndex (inputbuffer c1)) \<le> max 8 (unat (writeIndex (inputbuffer c))) + length d" by blast
  have "max 8 (unat (writeIndex (inputbuffer c1))) + length (concat chunks) \<le> vector_max_size"
    using c1(5) Cons.prems(4) by simp
  from Cons.IH [OF c1(2) _ _ this] c1(4) Cons.prems(2,3) obtain c' taken where
    c': "run_res (\<lambda>data. handleRead tid cbs (Inr data) 0) chunks c1 = Inr c'"
      "content (inputbuffer c1) @ concat chunks = taken @ content (inputbuffer c')" by auto
  have "content (inputbuffer c) @ concat (d # chunks) =
      (take k (content (inputbuffer c) @ d) @ taken) @ content (inputbuffer c')"
    using c'(2) c1(3) by (metis append.assoc append_take_drop_id concat.simps(2))
  with c1(1) c'(1) show ?case by auto
qed

section \<open>Properties\<close>



end
