(* ===== verification/Acceptor.thy ===== *)
theory Acceptor
  imports Channel Socket
begin

text \<open>
  class Acceptor (network/include/network/Acceptor.h, network/src/Accepto.cc).

  \<^item> \<open>acceptor\<close> is the object with its channel; \<open>acc_closed\<close> records the descriptors closed.
  \<^item> Running the user's callback is the last thing \<open>handle_read\<close> does, so the call is part of
    its result: the descriptor and the address it is called with.
  \<^item> \<open>active_cahnnel_\<close> is declared as a pointer and initialised as an object; it is read as a
    new channel on the listening descriptor.
  \<^item> System calls are arguments. Text that is only logged is left out.
\<close>

record acceptor =
  listen_fd :: int
  acc_channel_this :: channel_ptr
  acc_channel :: "unit channel"
  listening :: bool
  idlefd :: int
  new_connection_callback :: bool
  acc_closed :: "int list"

definition Acceptor_ctor ::
  "(16 word \<Rightarrow> 32 word \<Rightarrow> int \<Rightarrow> int) \<Rightarrow> 'k setsockopt \<Rightarrow> int \<Rightarrow> int \<Rightarrow> loop_ptr \<Rightarrow> channel_ptr \<Rightarrow>
   host \<Rightarrow> sockaddr \<Rightarrow> bool \<Rightarrow> 'k \<Rightarrow> (acceptor \<times> 'k) res" where
  "Acceptor_ctor sys_socket opt devnull bind_ret loop chp h listen_addr reuseport k =
     bind_res (createNoblocking_stop sys_socket (sa_family h listen_addr)) (\<lambda>fd.
     bind_res (assert_res (devnull \<ge> 0)) (\<lambda>_.
     let k1 = setReuseAddr opt True k; k2 = setReusePort opt reuseport k1 in
     bind_res (BindAddress bind_ret) (\<lambda>_.
     Inr (\<lparr>listen_fd = fd, acc_channel_this = chp,
           acc_channel = setReadEventCallback (Some ()) (new_channel loop fd), listening = False,
           idlefd = devnull, new_connection_callback = False, acc_closed = []\<rparr>, k2))))"

definition setNewConnectioncallback :: "bool \<Rightarrow> acceptor \<Rightarrow> acceptor" where
  "setNewConnectioncallback cb a = a\<lparr>new_connection_callback := cb\<rparr>"

text \<open>The listening socket is a member and goes after the body.\<close>

definition Acceptor_dtor :: "pid \<Rightarrow> ('f, 'w) event_loop_scheme \<Rightarrow> acceptor \<Rightarrow> acceptor res" where
  "Acceptor_dtor tid l a =
     (let a1 = a\<lparr>acc_closed := acc_closed a @ [idlefd a]\<rparr> in
      bind_res (disableall tid l (acc_channel a1)) (\<lambda>ch.
      bind_res (channel_remove tid l (acc_channel_this a1) ch) (\<lambda>ch1.
      Inr (a1\<lparr>acc_channel := ch1, acc_closed := Socket_dtor (listen_fd a1) (acc_closed a1)\<rparr>))))"

definition acceptor_listen ::
  "pid \<Rightarrow> ('f, 'w) event_loop_scheme \<Rightarrow> int \<Rightarrow> acceptor \<Rightarrow> acceptor res" where
  "acceptor_listen tid l listen_ret a =
     bind_res (assertInLoopThread tid l) (\<lambda>_.
     bind_res (Listen listen_ret) (\<lambda>_.
     let a1 = a\<lparr>listening := True\<rparr> in
     bind_res (enableReading tid l (acc_channel a1)) (\<lambda>ch. Inr (a1\<lparr>acc_channel := ch\<rparr>))))"

text \<open>
  \<open>accepted\<close> answers \<open>accept\<close>; \<open>idle_accepted\<close> and \<open>devnull\<close> answer the \<open>accept\<close> and the
  \<open>open\<close> of the branch for exhausted descriptors.
\<close>

definition handle_read ::
  "pid \<Rightarrow> ('f, 'w) event_loop_scheme \<Rightarrow> int \<times> sockaddr \<Rightarrow> int \<Rightarrow> int \<Rightarrow> int \<Rightarrow> sockaddr \<Rightarrow> acceptor \<Rightarrow>
   (acceptor \<times> (int \<times> sockaddr) option) res" where
  "handle_read tid l accepted errno idle_accepted devnull blank a =
     bind_res (assertInLoopThread tid l) (\<lambda>_.
     bind_res (Accept accepted blank) (\<lambda>(connfd, peer_addr).
     if connfd \<ge> 0 then
       if new_connection_callback a then Inr (a, Some (listen_fd a, peer_addr))
       else Inr (a\<lparr>acc_closed := acc_closed a @ [connfd]\<rparr>, None)
     else if errno = EMFILE then
       let a1 = a\<lparr>acc_closed := acc_closed a @ [idlefd a]\<rparr>;
           a2 = a1\<lparr>idlefd := idle_accepted\<rparr>;
           a3 = a2\<lparr>acc_closed := acc_closed a2 @ [idlefd a2]\<rparr> in
       Inr (a3\<lparr>idlefd := devnull\<rparr>, None)
     else Inr (a, None)))"

section \<open>Properties\<close>

text \<open>The acceptor loses every connection it accepts: with a callback set, an accepted
  descriptor is neither closed nor handed on (unless it is the listening one itself); the
  callback gets the listening descriptor with the new peer's address. And running out of
  descriptors is not survived: any failing accept aborts, EMFILE too, so the reserved
  descriptor is never used.\<close>

theorem accepted_descriptor_lost:
  assumes "threadPid l \<noteq> tid" and "new_connection_callback a"
  shows "handle_read tid l (connfd, addr) errno idle_accepted devnull blank a =
    (if connfd < 0 then Inl FatalLog else Inr (a, Some (listen_fd a, addr)))"
  using assms
  by (simp add: handle_read_def assertInLoopThread_pass Accept_def setSockAddrInet6_def)

definition sample_acceptor :: acceptor where
  "sample_acceptor = \<lparr>listen_fd = 3, acc_channel_this = 1, acc_channel = new_channel 0 3,
     listening = False, idlefd = 4, new_connection_callback = True, acc_closed = []\<rparr>"

lemma accepted_descriptor_lost_witness:
  "handle_read 8 sample_loop (9, [2, 0]) 0 0 0 [] sample_acceptor = Inr (sample_acceptor, Some (3, [2, 0])) \<and>
   handle_read 8 sample_loop (-1, []) EMFILE 9 4 [] sample_acceptor = Inl FatalLog"
  using accepted_descriptor_lost [of sample_loop 8 sample_acceptor]
  by (simp add: sample_loop_def sample_acceptor_def)

end
