(* ===== verification/TcpServer.thy ===== *)
theory TcpServer
  imports Acceptor ThreadPool "HOL-Library.AList" "HOL-Library.Char_ord" "HOL-Library.List_Lexorder"
begin

text \<open>
  class TcpServer (network/include/network/TcpServer.h, network/src/TcpServer.cc).

  \<^item> \<open>server\<close> is the object. \<open>connections_\<close>, a \<open>std::map\<close> from names, is an association list;
    where the order of the map matters (the destructor) it is sorted by name.
  \<^item> A connection is what the constructor of TcpConnection is given (\<open>conn_info\<close>); its
    behaviour is theory TcpConnection. What the server asks a loop to run is recorded in
    order in \<open>requests\<close>: the loop and the functor.
  \<^item> A user's function object is known by a number (\<open>callback\<close>); \<open>None\<close> is an empty one.
  \<^item> The constructor passes \<open>option = KReusePort\<close>, an assignment, so the acceptor always gets
    true. \<open>started_\<close> is never read.
\<close>

datatype callback = DefaultConnectionCallback | DefaultMessageCallback | UserCallback nat | RemoveConnection

record user_callbacks =
  on_connection :: "callback option"
  on_message :: "callback option"
  on_write_complete :: "callback option"

definition default_callbacks :: user_callbacks where
  "default_callbacks = \<lparr>on_connection = Some DefaultConnectionCallback,
     on_message = Some DefaultMessageCallback, on_write_complete = None\<rparr>"

record conn_info =
  info_name :: string
  info_fd :: int
  info_loop :: loop_ptr
  info_local :: sockaddr
  info_peer :: sockaddr
  info_callbacks :: user_callbacks
  info_close :: "callback option"

datatype server_task = TListen | TEstablished string | TDestroyed string | TRemove string

record server =
  server_loop :: loop_ptr
  server_name :: string
  ipPort :: string
  server_acceptor :: acceptor
  threadpool :: pool
  nxtConnId :: int
  server_callbacks :: user_callbacks
  thread_init :: bool
  connections :: "(string \<times> conn_info) list"
  requests :: "(loop_ptr \<times> server_task) list"

definition TcpServer_ctor ::
  "(bool \<Rightarrow> acceptor res) \<Rightarrow> loop_ptr option \<Rightarrow> string res \<Rightarrow> string \<Rightarrow> bool \<Rightarrow> server res" where
  "TcpServer_ctor make_acceptor loop ip_port namestring reuse_option =
     (case loop of
        None \<Rightarrow> Inl FatalLog
      | Some l \<Rightarrow>
          bind_res ip_port (\<lambda>text.
          bind_res (make_acceptor True) (\<lambda>acc.
          Inr \<lparr>server_loop = l, server_name = namestring, ipPort = text,
               server_acceptor = setNewConnectioncallback True acc,
               threadpool = EventLoopThreadPool_ctor l namestring, nxtConnId = 1,
               server_callbacks = default_callbacks, thread_init = False, connections = [], requests = []\<rparr>)))"

definition setThreadInitCallback :: "bool \<Rightarrow> server \<Rightarrow> server" where
  "setThreadInitCallback cb s = s\<lparr>thread_init := cb\<rparr>"

definition server_setConnectioncallback :: "callback option \<Rightarrow> server \<Rightarrow> server" where
  "server_setConnectioncallback cb s =
     s\<lparr>server_callbacks := (server_callbacks s)\<lparr>on_connection := cb\<rparr>\<rparr>"

definition server_setMessageCallback :: "callback option \<Rightarrow> server \<Rightarrow> server" where
  "server_setMessageCallback cb s = s\<lparr>server_callbacks := (server_callbacks s)\<lparr>on_message := cb\<rparr>\<rparr>"

definition server_setWriteCompleteCallback :: "callback option \<Rightarrow> server \<Rightarrow> server" where
  "server_setWriteCompleteCallback cb s =
     s\<lparr>server_callbacks := (server_callbacks s)\<lparr>on_write_complete := cb\<rparr>\<rparr>"

lemmas server_setter_defs = setThreadInitCallback_def server_setConnectioncallback_def
  server_setMessageCallback_def server_setWriteCompleteCallback_def

definition setThreadNum :: "int \<Rightarrow> server \<Rightarrow> server res" where
  "setThreadNum num s =
     bind_res (assert_res (num \<ge> 0)) (\<lambda>_. Inr (s\<lparr>threadpool := serthreadnum num (threadpool s)\<rparr>))"

definition request :: "loop_ptr \<Rightarrow> server_task \<Rightarrow> server \<Rightarrow> server" where
  "request l t s = s\<lparr>requests := requests s @ [(l, t)]\<rparr>"

definition server_start ::
  "pid \<Rightarrow> ('f, 'w) event_loop_scheme \<Rightarrow> (nat \<Rightarrow> loop_ptr) \<Rightarrow> server \<Rightarrow> server res" where
  "server_start tid base startLoop s =
     bind_res (pool_start tid base startLoop (thread_init s) (threadpool s)) (\<lambda>(p, inits).
     let s1 = s\<lparr>threadpool := p\<rparr> in
     bind_res (assert_res (\<not> listening (server_acceptor s1))) (\<lambda>_.
     Inr (request (server_loop s1) TListen s1)))"

text \<open>The functor queued by \<open>start\<close>: Acceptor::listen on the server's acceptor.\<close>

definition server_listen ::
  "pid \<Rightarrow> ('f, 'w) event_loop_scheme \<Rightarrow> int \<Rightarrow> server \<Rightarrow> server res" where
  "server_listen tid base listen_ret s =
     bind_res (acceptor_listen tid base listen_ret (server_acceptor s)) (\<lambda>a. Inr (s\<lparr>server_acceptor := a\<rparr>))"

definition connection_name :: "string \<Rightarrow> string \<Rightarrow> int \<Rightarrow> string" where
  "connection_name name ip_port i =
     name @ snprintf 64 (''-'' @ c_str ip_port @ ''#'' @ dec_int i)"

definition newConnection ::
  "pid \<Rightarrow> ('f, 'w) event_loop_scheme \<Rightarrow> int \<Rightarrow> sockaddr \<Rightarrow> sockaddr \<Rightarrow> server \<Rightarrow> server res" where
  "newConnection tid base sockfd localAddr peerAddr s =
     bind_res (assertInLoopThread tid base) (\<lambda>_.
     bind_res (getNextEventLoop tid base (threadpool s)) (\<lambda>(ioloop, p).
     let connname = connection_name (server_name s) (ipPort s) (nxtConnId s);
         s1 = s\<lparr>threadpool := p, nxtConnId := nxtConnId s + 1\<rparr>;
         conn = \<lparr>info_name = connname, info_fd = sockfd, info_loop = ioloop, info_local = localAddr,
                 info_peer = peerAddr, info_callbacks = server_callbacks s1,
                 info_close = Some RemoveConnection\<rparr>;
         s2 = s1\<lparr>connections := AList.update connname conn (connections s1)\<rparr> in
     Inr (request ioloop (TEstablished connname) s2)))"

definition removeConnection :: "conn_info \<Rightarrow> server \<Rightarrow> server" where
  "removeConnection conn s = request (server_loop s) (TRemove (info_name conn)) s"

definition removeConnectionInLoop ::
  "pid \<Rightarrow> ('f, 'w) event_loop_scheme \<Rightarrow> conn_info \<Rightarrow> server \<Rightarrow> server res" where
  "removeConnectionInLoop tid base conn s =
     bind_res (assertInLoopThread tid base) (\<lambda>_.
     let n = length (filter (\<lambda>e. fst e = info_name conn) (connections s));
         s1 = s\<lparr>connections := AList.delete (info_name conn) (connections s)\<rparr> in
     bind_res (assert_res (n = 1)) (\<lambda>_.
     Inr (request (info_loop conn) (TDestroyed (info_name conn)) s1)))"

text \<open>The acceptor is a member of the server, destroyed after the body of the destructor.\<close>

definition TcpServer_dtor :: "pid \<Rightarrow> ('f, 'w) event_loop_scheme \<Rightarrow> server \<Rightarrow> server res" where
  "TcpServer_dtor tid base s =
     bind_res (assertInLoopThread tid base) (\<lambda>_.
     let s1 = s\<lparr>requests := requests s @
       map (\<lambda>e. (info_loop (snd e), TDestroyed (info_name (snd e)))) (sort_key fst (connections s))\<rparr> in
     bind_res (Acceptor_dtor tid base (server_acceptor s1)) (\<lambda>acc. Inr (s1\<lparr>server_acceptor := acc\<rparr>)))"

section \<open>Connection names\<close>

lemma dec_int_inject: "0 \<le> i \<Longrightarrow> 0 \<le> j \<Longrightarrow> dec_int i = dec_int j \<longleftrightarrow> i = j"
  by (auto simp: dec_int_def)

lemma length_dec_int: "0 \<le> i \<Longrightarrow> i < 2 ^ 31 \<Longrightarrow> length (dec_int i) \<le> 10"
  using length_dec_le [of "nat i" 9] by (simp add: dec_int_def nat_less_iff)

lemma length_c_str: "length (c_str s) \<le> length s"
  by (simp add: c_str_def length_takeWhile_le)

text \<open>An address text of at most 51 characters leaves room for every id.\<close>

lemma connection_name_eq:
  assumes "length ip_port \<le> 51" and "0 \<le> i" and "i < 2 ^ 31"
  shows "connection_name name ip_port i = name @ ''-'' @ c_str ip_port @ ''#'' @ dec_int i"
proof -
  have "length (''-'' @ c_str ip_port @ ''#'' @ dec_int i) < 64"
    using assms(1) length_c_str [of ip_port] length_dec_int [OF assms(2,3)] by simp
  then show ?thesis by (simp add: connection_name_def snprintf_fits)
qed

lemma connection_name_inject:
  assumes "length ip_port \<le> 51" and "0 \<le> i" and "i < 2 ^ 31" and "0 \<le> j" and "j < 2 ^ 31"
  shows "connection_name name ip_port i = connection_name name ip_port j \<longleftrightarrow> i = j"
  using assms by (simp add: connection_name_eq dec_int_inject)

section \<open>The registry\<close>

text \<open>Every entry has its name as key, the names are those of ids given out, once each.\<close>

definition registry_ok :: "server \<Rightarrow> bool" where
  "registry_ok s \<longleftrightarrow> length (ipPort s) \<le> 51 \<and> 1 \<le> nxtConnId s \<and> nxtConnId s \<le> 2 ^ 31 \<and>
     distinct (map fst (connections s)) \<and>
     (\<forall>e \<in> set (connections s). fst e = info_name (snd e) \<and>
        (\<exists>i. 1 \<le> i \<and> i < nxtConnId s \<and> fst e = connection_name (server_name s) (ipPort s) i))"

lemma registry_fresh:
  assumes "registry_ok s" and "nxtConnId s < 2 ^ 31"
  shows "connection_name (server_name s) (ipPort s) (nxtConnId s) \<notin> fst ` set (connections s)"
proof
  assume "connection_name (server_name s) (ipPort s) (nxtConnId s) \<in> fst ` set (connections s)"
  then obtain e where e: "e \<in> set (connections s)"
    and name: "connection_name (server_name s) (ipPort s) (nxtConnId s) = fst e" by auto
  from assms(1) e obtain i where i: "1 \<le> i" "i < nxtConnId s"
      "fst e = connection_name (server_name s) (ipPort s) i"
    unfolding registry_ok_def by blast
  have "length (ipPort s) \<le> 51" "1 \<le> nxtConnId s" using assms(1) by (simp_all add: registry_ok_def)
  with name i assms(2) show False
    using connection_name_inject [of "ipPort s" i "nxtConnId s" "server_name s"] by simp
qed

lemma update_fresh: "k \<notin> fst ` set xs \<Longrightarrow> AList.update k v xs = xs @ [(k, v)]"
  by (induction xs) auto

datatype server_op = ThreadNum int | Start "nat \<Rightarrow> loop_ptr" | StartListening int
  | New int sockaddr sockaddr | Gone conn_info | SetConnection "callback option"
  | SetMessage "callback option" | SetWriteComplete "callback option" | SetThreadInit bool

fun server_step ::
  "pid \<Rightarrow> ('f, 'w) event_loop_scheme \<Rightarrow> server_op \<Rightarrow> server \<Rightarrow> server res" where
  "server_step tid base (ThreadNum n) s = setThreadNum n s"
| "server_step tid base (Start startLoop) s = server_start tid base startLoop s"
| "server_step tid base (StartListening r) s = server_listen tid base r s"
| "server_step tid base (New fd la pa) s =
     (if nxtConnId s < 2 ^ 31 then newConnection tid base fd la pa s else Inl OutOfBounds)"
| "server_step tid base (Gone conn) s = removeConnectionInLoop tid base conn s"
| "server_step tid base (SetConnection cb) s = Inr (server_setConnectioncallback cb s)"
| "server_step tid base (SetMessage cb) s = Inr (server_setMessageCallback cb s)"
| "server_step tid base (SetWriteComplete cb) s = Inr (server_setWriteCompleteCallback cb s)"
| "server_step tid base (SetThreadInit cb) s = Inr (setThreadInitCallback cb s)"

lemma newConnection_Inr:
  assumes "registry_ok s" and "nxtConnId s < 2 ^ 31" and "newConnection tid base fd la pa s = Inr s'"
  shows "\<exists>conn p. connections s' = connections s @ [(info_name conn, conn)] \<and>
    info_name conn = connection_name (server_name s) (ipPort s) (nxtConnId s) \<and> info_fd conn = fd \<and>
    info_peer conn = pa \<and> info_callbacks conn = server_callbacks s \<and> info_close conn = Some RemoveConnection \<and>
    server_acceptor s' = server_acceptor s \<and> requests s' = requests s @ [(info_loop conn, TEstablished (info_name conn))] \<and>
    nxtConnId s' = nxtConnId s + 1 \<and> server_name s' = server_name s \<and> ipPort s' = ipPort s \<and>
    getNextEventLoop tid base (threadpool s) = Inr (info_loop conn, p) \<and> threadpool s' = p"
  using assms(3) update_fresh [OF registry_fresh [OF assms(1,2)]]
  by (auto simp: newConnection_def bind_res_eq_Inr Let_def request_def)

lemma registry_ok_cong:
  "connections s' = connections s \<Longrightarrow> nxtConnId s' = nxtConnId s \<Longrightarrow> server_name s' = server_name s \<Longrightarrow>
   ipPort s' = ipPort s \<Longrightarrow> registry_ok s' = registry_ok s"
  by (simp add: registry_ok_def)

text \<open>What every operation but an arrival or a removal leaves alone.\<close>

lemma server_step_rest:
  assumes "server_step tid base e s = Inr s'" and "\<forall>fd la pa. e \<noteq> New fd la pa" and "\<forall>conn. e \<noteq> Gone conn"
  shows "connections s' = connections s \<and> nxtConnId s' = nxtConnId s \<and> server_name s' = server_name s \<and>
    ipPort s' = ipPort s \<and> listen_fd (server_acceptor s') = listen_fd (server_acceptor s) \<and>
    acc_closed (server_acceptor s') = acc_closed (server_acceptor s) \<and>
    new_connection_callback (server_acceptor s') = new_connection_callback (server_acceptor s)"
  using assms
  by (cases e) (auto simp: server_setter_defs setThreadNum_def server_start_def server_listen_def
      acceptor_listen_def request_def bind_res_eq_Inr Let_def)

lemma server_op_cases:
  obtains (new) fd la pa where "e = New fd la pa" | (gone) conn where "e = Gone conn"
    | (rest) "\<forall>fd la pa. e \<noteq> New fd la pa" "\<forall>conn. e \<noteq> Gone conn"
  by (cases e) auto

lemma server_step_registry:
  assumes ok: "registry_ok s" and step: "server_step tid base e s = Inr s'"
  shows "registry_ok s'"
proof (cases e rule: server_op_cases)
  case (new fd la pa)
  with step have lt: "nxtConnId s < 2 ^ 31" and new: "newConnection tid base fd la pa s = Inr s'"
    by (auto split: if_splits)
  from newConnection_Inr [OF ok lt new] obtain conn where
    s': "connections s' = connections s @ [(info_name conn, conn)]"
      "info_name conn = connection_name (server_name s) (ipPort s) (nxtConnId s)"
      "nxtConnId s' = nxtConnId s + 1" "server_name s' = server_name s" "ipPort s' = ipPort s" by blast
  have "info_name conn \<notin> fst ` set (connections s)"
    using registry_fresh [OF ok lt] s'(2) by simp
  moreover have "\<exists>i. 1 \<le> i \<and> i < nxtConnId s + 1 \<and> fst e = connection_name (server_name s) (ipPort s) i"
    if "e \<in> set (connections s)" for e
    using ok that unfolding registry_ok_def by (metis zless_add1_eq)
  ultimately show ?thesis
    using ok lt s' unfolding registry_ok_def by fastforce
next
  case (gone conn)
  with step have s': "connections s' = AList.delete (info_name conn) (connections s)"
      "nxtConnId s' = nxtConnId s" "server_name s' = server_name s" "ipPort s' = ipPort s"
    by (auto simp: removeConnectionInLoop_def bind_res_eq_Inr Let_def request_def)
  have "set (connections s') \<subseteq> set (connections s)" by (simp add: s' AList.delete_eq)
  moreover have "distinct (map fst (connections s'))"
    using ok by (simp add: s' registry_ok_def AList.distinct_delete)
  ultimately show ?thesis using ok s' by (auto simp: registry_ok_def)
next
  case rest
  from server_step_rest [OF step rest] registry_ok_cong [of s' s] ok show ?thesis by simp
qed

interpretation svm: machine "server_step tid base" registry_ok for tid base
  by unfold_locales (rule server_step_registry)

section \<open>Properties\<close>

lemma filter_key_once:
  "distinct (map fst xs) \<Longrightarrow> length (filter (\<lambda>e. fst e = k) xs) = (if k \<in> fst ` set xs then 1 else 0)"
proof (induction xs)
  case (Cons x xs)
  then show ?case by (cases "fst x = k") auto
qed simp

lemma delete_filter: "AList.delete k xs = filter (\<lambda>e. fst e \<noteq> k) xs"
  by (auto simp: AList.delete_eq intro!: filter_cong)


definition sample_server :: server where
  "sample_server = \<lparr>server_loop = 0, server_name = ''s'', ipPort = ''10.0.0.1:80'',
     server_acceptor = setNewConnectioncallback True sample_acceptor,
     threadpool = EventLoopThreadPool_ctor 0 ''s'', nxtConnId = 1,
     server_callbacks = default_callbacks, thread_init = False, connections = [], requests = []\<rparr>"

lemma sample_server_ctor:
  "TcpServer_ctor (\<lambda>reuse. Inr sample_acceptor) (Some 0) (Inr ''10.0.0.1:80'') ''s'' False = Inr sample_server"
  by (simp add: TcpServer_ctor_def sample_server_def)

text \<open>Two arrivals at a started server without threads.\<close>

definition sample_ops :: "server_op list" where
  "sample_ops = [SetMessage (Some (UserCallback 1)), Start (\<lambda>i. 0), New 3 [] [1], New 3 [] [2]]"

lemma sample_connection_names:
  "connection_name ''s'' ''10.0.0.1:80'' 1 = ''s-10.0.0.1:80#1''"
  "connection_name ''s'' ''10.0.0.1:80'' 2 = ''s-10.0.0.1:80#2''"
  by code_simp+

lemmas sample_server_defs = sample_server_def server_setter_defs server_start_def pool_start_def
  EventLoopThreadPool_ctor_def assertInLoopThread_pass sample_loop_def Let_def request_def
  sample_acceptor_def setNewConnectioncallback_def newConnection_def getNextEventLoop_def

lemma sample_server_run:
  obtains s where "run_res (server_step 8 sample_loop) sample_ops sample_server = Inr s"
    and "map fst (connections s) = [''s-10.0.0.1:80#1'', ''s-10.0.0.1:80#2'']"
  using that by (simp add: sample_ops_def sample_server_defs sample_connection_names)


end
