(* ===== verification/Connector.thy ===== *)
theory Connector
  imports Channel SocketOps
begin

text \<open>
  class Connector (network/include/network/connector.h, network/src/connector.cc).

  \<^item> \<open>connector\<close> is the object with the loop it lives on; its functors are \<open>connector_task\<close>s.
  \<^item> \<open>closed\<close> and \<open>handed\<close> record the descriptors closed and those given to the user's
    callback, in order. The callback is a function of the descriptor and the connector.
  \<^item> \<open>::connect\<close>'s result and errno, SO_ERROR and the two addresses compared by
    \<open>isSelfConnect\<close> are arguments.
  \<^item> \<open>retry\<close> is declared without a parameter and called and defined with one; the
    rescheduling in it is commented out, so it only closes the descriptor.
\<close>

section \<open>The object\<close>

datatype connector_state = KDisconnected | KConnecting | KConnected
datatype connector_task = TStartInLoop | TStopInLoop | TResetChannel
datatype connector_handler = HConnWrite | HConnError

definition KInitialRetryDelayMs :: int where "KInitialRetryDelayMs = 500"

record connector = "connector_task event_loop" +
  server_family :: "16 word"
  cstate :: connector_state
  connect_flag :: bool
  cchannel_this :: channel_ptr
  cchannel :: "connector_handler channel option"
  retry_delay_ms :: int
  closed :: "int list"
  handed :: "int list"

type_synonym new_connection = "int \<Rightarrow> connector \<Rightarrow> connector res"

definition Connector_ctor ::
  "connector_task event_loop \<Rightarrow> channel_ptr \<Rightarrow> 16 word \<Rightarrow> connector" where
  "Connector_ctor loop chp family =
     event_loop.extend loop
       \<lparr>server_family = family, cstate = KDisconnected, connect_flag = False, cchannel_this = chp,
        cchannel = None, retry_delay_ms = KInitialRetryDelayMs, closed = [], handed = []\<rparr>"

definition EINPROGRESS :: int where "EINPROGRESS = 115"
definition EISCONN :: int where "EISCONN = 106"
definition EADDRNOTAVAIL :: int where "EADDRNOTAVAIL = 99"
definition ECONNREFUSED :: int where "ECONNREFUSED = 111"
definition ENETUNREACH :: int where "ENETUNREACH = 101"
definition ETIMEDOUT :: int where "ETIMEDOUT = 110"

lemmas connect_errno_defs = EINPROGRESS_def EISCONN_def EADDRNOTAVAIL_def ECONNREFUSED_def
  ENETUNREACH_def ETIMEDOUT_def

section \<open>Operations\<close>

definition retry :: "int \<Rightarrow> connector \<Rightarrow> connector" where
  "retry sockfd c = c\<lparr>closed := closed c @ [sockfd]\<rparr>"

definition connecting :: "pid \<Rightarrow> int \<Rightarrow> connector \<Rightarrow> connector res" where
  "connecting tid sockfd c =
     (let c1 = c\<lparr>cstate := KConnecting\<rparr> in
      bind_res (assert_res (cchannel c1 = None)) (\<lambda>_.
      let ch = setErrorEventCallback (Some HConnError) (setWriteEventCallback (Some HConnWrite)
                 (new_channel (loop_this c1) sockfd)) in
      bind_res (enableWriting tid c1 ch) (\<lambda>ch1. Inr (c1\<lparr>cchannel := Some ch1\<rparr>))))"

definition connector_connect ::
  "pid \<Rightarrow> (16 word \<Rightarrow> 32 word \<Rightarrow> int \<Rightarrow> int) \<Rightarrow> (int \<Rightarrow> int \<times> int) \<Rightarrow> connector \<Rightarrow> connector res" where
  "connector_connect tid sys_socket sys_connect c =
     bind_res (createNoblocking_stop sys_socket (server_family c)) (\<lambda>sockfd.
     let (ret, errno) = sys_connect sockfd;
         saveerror = (if ret = 0 then 0 else errno) in
     if saveerror \<in> {0, EINPROGRESS, EINTR, EISCONN} then connecting tid sockfd c
     else if saveerror \<in> {EAGAIN, EADDRNOTAVAIL, ECONNREFUSED, ENETUNREACH, ETIMEDOUT}
     then Inr (retry sockfd c)
     else Inr (c\<lparr>closed := closed c @ [sockfd]\<rparr>))"

definition startInLoop ::
  "pid \<Rightarrow> (16 word \<Rightarrow> 32 word \<Rightarrow> int \<Rightarrow> int) \<Rightarrow> (int \<Rightarrow> int \<times> int) \<Rightarrow> connector \<Rightarrow> connector res" where
  "startInLoop tid sys_socket sys_connect c =
     bind_res (assertInLoopThread tid c) (\<lambda>_.
     bind_res (assert_res (cstate c = KDisconnected)) (\<lambda>_.
     if connect_flag c then connector_connect tid sys_socket sys_connect c else Inr c))"

definition removeAndResetChannel :: "pid \<Rightarrow> connector \<Rightarrow> (int \<times> connector) res" where
  "removeAndResetChannel tid c =
     (case cchannel c of
        None \<Rightarrow> Inl NullDeref
      | Some ch \<Rightarrow>
          bind_res (disableall tid c ch) (\<lambda>ch1.
          bind_res (channel_remove tid c (cchannel_this c) ch1) (\<lambda>ch2.
          Inr (ch_fd ch2, queueInLoop tid TResetChannel (c\<lparr>cchannel := Some ch2\<rparr>)))))"

text \<open>Resetting the pointer runs the destructor of the channel it owns.\<close>

definition resetChannel :: "pid \<Rightarrow> connector \<Rightarrow> connector res" where
  "resetChannel tid c =
     (case cchannel c of
        None \<Rightarrow> Inr c
      | Some ch \<Rightarrow>
          bind_res (channel_dtor tid c (cchannel_this c) ch) (\<lambda>_. Inr (c\<lparr>cchannel := None\<rparr>)))"

definition stopInLoop :: "pid \<Rightarrow> connector \<Rightarrow> connector res" where
  "stopInLoop tid c =
     bind_res (assertInLoopThread tid c) (\<lambda>_.
     if cstate c = KConnecting then
       bind_res (removeAndResetChannel tid (c\<lparr>cstate := KDisconnected\<rparr>)) (\<lambda>(sockfd, c1).
       Inr (retry sockfd c1))
     else Inr c)"

definition exec_connector_task ::
  "pid \<Rightarrow> (16 word \<Rightarrow> 32 word \<Rightarrow> int \<Rightarrow> int) \<Rightarrow> (int \<Rightarrow> int \<times> int) \<Rightarrow> connector_task \<Rightarrow>
   connector \<Rightarrow> connector res" where
  "exec_connector_task tid sys_socket sys_connect t c =
     (case t of
        TStartInLoop \<Rightarrow> startInLoop tid sys_socket sys_connect c
      | TStopInLoop \<Rightarrow> stopInLoop tid c
      | TResetChannel \<Rightarrow> resetChannel tid c)"

definition connector_start ::
  "pid \<Rightarrow> (16 word \<Rightarrow> 32 word \<Rightarrow> int \<Rightarrow> int) \<Rightarrow> (int \<Rightarrow> int \<times> int) \<Rightarrow> connector \<Rightarrow> connector res" where
  "connector_start tid sys_socket sys_connect c =
     runInLoop tid (exec_connector_task tid sys_socket sys_connect) TStartInLoop
       (c\<lparr>connect_flag := True\<rparr>)"

definition connector_restart ::
  "pid \<Rightarrow> (16 word \<Rightarrow> 32 word \<Rightarrow> int \<Rightarrow> int) \<Rightarrow> (int \<Rightarrow> int \<times> int) \<Rightarrow> connector \<Rightarrow> connector res" where
  "connector_restart tid sys_socket sys_connect c =
     bind_res (assertInLoopThread tid c) (\<lambda>_.
     startInLoop tid sys_socket sys_connect
       (c\<lparr>connect_flag := True, retry_delay_ms := KInitialRetryDelayMs, cstate := KDisconnected\<rparr>))"

definition connector_stop :: "pid \<Rightarrow> connector \<Rightarrow> connector" where
  "connector_stop tid c = queueInLoop tid TStopInLoop (c\<lparr>connect_flag := False\<rparr>)"

definition connector_handleWrite ::
  "pid \<Rightarrow> host \<Rightarrow> new_connection option \<Rightarrow> int \<Rightarrow> sockaddr \<Rightarrow> sockaddr \<Rightarrow> connector \<Rightarrow> connector res" where
  "connector_handleWrite tid h cb so_error local peer c =
     (if cstate c = KConnecting then
        bind_res (removeAndResetChannel tid c) (\<lambda>(sockfd, c1).
        if so_error \<noteq> 0 then Inr (retry sockfd c1)
        else if isSelfConnect h local peer then Inr (retry sockfd c1)
        else
          let c2 = c1\<lparr>cstate := KConnected\<rparr> in
          if connect_flag c2 then
            (case cb of None \<Rightarrow> Inl NullDeref
             | Some f \<Rightarrow> f sockfd (c2\<lparr>handed := handed c2 @ [sockfd]\<rparr>))
          else Inr (c2\<lparr>closed := closed c2 @ [sockfd]\<rparr>))
      else bind_res (assert_res (cstate c = KDisconnected)) (\<lambda>_. Inr c))"

definition connector_handleError :: "pid \<Rightarrow> connector \<Rightarrow> connector res" where
  "connector_handleError tid c =
     (if cstate c = KConnecting then
        bind_res (removeAndResetChannel tid c) (\<lambda>(sockfd, c1). Inr (retry sockfd c1))
      else Inr c)"

lemma queueInLoop_connector [simp]:
  fixes c :: connector
  shows "cstate (queueInLoop tid t c) = cstate c"
    and "cchannel (queueInLoop tid t c) = cchannel c"
    and "closed (queueInLoop tid t c) = closed c"
    and "handed (queueInLoop tid t c) = handed c"
    and "connect_flag (queueInLoop tid t c) = connect_flag c"
    and "cchannel_this (queueInLoop tid t c) = cchannel_this c"
  by (simp_all add: queueInLoop_def wakeup_def Let_def)

text \<open>Taking the channel out: what is left is a channel without interest, to be reset later.\<close>

lemma removeAndReset_ok:
  assumes "cchannel c = Some ch" and "threadPid c \<noteq> tid" and "ch_loop ch = loop_this c"
    and "\<not> eventHanding c"
  shows "removeAndResetChannel tid c =
    Inr (ch_fd ch, queueInLoop tid TResetChannel
      (c\<lparr>cchannel := Some (ch\<lparr>events := NoneEvent, addedToLoop := False\<rparr>)\<rparr>))"
  using assms
  by (simp add: removeAndResetChannel_def channel_ops_eq channel_remove_def isNoneEvent_def
    removeChannel_def assertInLoopThread_pass)

lemma handleError_ok:
  assumes "cstate c = KConnecting" and "cchannel c = Some ch" and "threadPid c \<noteq> tid"
    and "ch_loop ch = loop_this c" and "\<not> eventHanding c"
  shows "connector_handleError tid c =
    Inr (retry (ch_fd ch) (queueInLoop tid TResetChannel
      (c\<lparr>cchannel := Some (ch\<lparr>events := NoneEvent, addedToLoop := False\<rparr>)\<rparr>)))"
  using assms by (simp add: connector_handleError_def removeAndReset_ok)

section \<open>Properties\<close>

text \<open>C36: A connection attempt leaks no descriptor: whatever errno \<open>connect(2)\<close> gives, from the
  disconnected state with no channel the new descriptor is either watched for writing in
  state KConnecting (success, in progress, interrupted, already connected) or closed, with
  the state unchanged; no other descriptor is touched.\<close>

theorem connect_attempt_outcome:
  assumes "cchannel c = None" and "threadPid c \<noteq> tid" and "0 \<le> fd"
    and "\<And>f t p. sys_socket f t p = fd" and "sys_connect fd = (ret, err)"
  shows "\<exists>c'. connector_connect tid sys_socket sys_connect c = Inr c' \<and> handed c' = handed c \<and>
    (if ret = 0 \<or> err \<in> {0, EINPROGRESS, EINTR, EISCONN}
     then cstate c' = KConnecting \<and> closed c' = closed c \<and>
       (\<exists>ch. cchannel c' = Some ch \<and> ch_fd ch = fd \<and> isWriting ch \<and>
          writeCallback ch = Some HConnWrite \<and> errorCallback ch = Some HConnError)
     else cstate c' = cstate c \<and> cchannel c' = None \<and> closed c' = closed c @ [fd])"
proof -
  from assms show ?thesis
    by (auto simp: connector_connect_def createNoblocking_stop_def connecting_def channel_ops_eq
      new_channel_def channel_setter_defs retry_def isWriting_def WriteEvernt_def Let_def)
qed

definition sample_connector :: connector where
  "sample_connector = Connector_ctor \<lparr>loop_this = 0, looping = False, quit_flag = False,
     eventHanding = False, callingPendingFunctors = False, iteration = 0, threadPid = 7,
     wakeup_writes = 0, pendingFunctors = [], currentActiveChannel = None, activeChannels = []\<rparr> 1 AF_INET"

lemma sample_connector_simps:
  "cchannel sample_connector = None" "threadPid sample_connector = 7" "closed sample_connector = []"
  "loop_this sample_connector = 0" "\<not> eventHanding sample_connector" "handed sample_connector = []"
  by (simp_all add: sample_connector_def Connector_ctor_def event_loop.defs)

lemma connect_attempt_outcome_witness:
  "\<exists>c'. connector_connect 8 (\<lambda>f t p. 5) (\<lambda>fd. (-1, ECONNREFUSED)) sample_connector = Inr c' \<and>
    closed c' = [5] \<and> cchannel c' = None"
  using connect_attempt_outcome [of sample_connector 8 5 "\<lambda>f t p. 5" "\<lambda>fd. (-1, ECONNREFUSED)" "-1" ECONNREFUSED]
  by (auto simp: sample_connector_simps connect_errno_defs errno_defs)

text \<open>A failed attempt is final, and its descriptor may be closed twice: when an error is
  reported for a connecting socket the descriptor is closed and nothing is rescheduled, but
  the state stays KConnecting. A further error report, or a write event of the same round,
  closes the same number again, and start() from then on fails its assert; restart(), after
  the channel has been reset, is the only way to try again.\<close>

theorem failed_attempt_stuck:
  assumes "cstate c = KConnecting" and "cchannel c = Some ch" and "threadPid c \<noteq> tid"
    and "ch_loop ch = loop_this c" and "\<not> eventHanding c" and "\<not> eventHandling ch" and "err \<noteq> 0"
  shows "\<exists>c1 c2. connector_handleError tid c = Inr c1 \<and> cstate c1 = KConnecting \<and>
    closed c1 = closed c @ [ch_fd ch] \<and> pendingFunctors c1 = pendingFunctors c @ [TResetChannel] \<and>
    bind_res (resetChannel tid c1) (startInLoop tid sys_socket sys_connect) = Inl AssertFailed \<and>
    connector_handleWrite tid h cb err local peer c1 = Inr c2 \<and>
    closed c2 = closed c @ [ch_fd ch, ch_fd ch]"
proof -
  let ?ch1 = "ch\<lparr>events := NoneEvent, addedToLoop := False\<rparr>"
  let ?c1 = "retry (ch_fd ch) (queueInLoop tid TResetChannel (c\<lparr>cchannel := Some ?ch1\<rparr>))"
  have first: "connector_handleError tid c = Inr ?c1" using assms by (intro handleError_ok) auto
  have s1: "cstate ?c1 = KConnecting" "closed ?c1 = closed c @ [ch_fd ch]" "cchannel ?c1 = Some ?ch1"
      "threadPid ?c1 \<noteq> tid" "ch_loop ?ch1 = loop_this ?c1" "\<not> eventHanding ?c1"
      "pendingFunctors ?c1 = pendingFunctors c @ [TResetChannel]"
    using assms by (simp_all add: retry_def queueInLoop_def wakeup_def Let_def)
  have start: "bind_res (resetChannel tid ?c1) (startInLoop tid sys_socket sys_connect) = Inl AssertFailed"
    using s1 assms(6)
    by (simp add: startInLoop_def resetChannel_def channel_dtor_def isInloopthread_def assertInLoopThread_pass)
  from removeAndReset_ok [OF s1(3-6)] s1(1,2) assms(7)
  obtain c2 where "connector_handleWrite tid h cb err local peer ?c1 = Inr c2"
      "closed c2 = closed c @ [ch_fd ch, ch_fd ch]"
    by (simp add: connector_handleWrite_def retry_def)
  with first s1 start show ?thesis by blast
qed

lemma failed_attempt_stuck_witness:
  "\<exists>c1 c2. connector_handleError 8 (sample_connector\<lparr>cstate := KConnecting, cchannel := Some (new_channel 0 5)\<rparr>) =
      Inr c1 \<and> connector_handleWrite 8 LittleEndianHost None ECONNREFUSED [] [] c1 = Inr c2 \<and>
    closed c2 = [5, 5]"
proof -
  let ?c = "sample_connector\<lparr>cstate := KConnecting, cchannel := Some (new_channel 0 5)\<rparr>"
  have "cstate ?c = KConnecting" "cchannel ?c = Some (new_channel 0 5)" "threadPid ?c \<noteq> 8"
      "ch_loop (new_channel 0 5) = loop_this ?c" "\<not> eventHanding ?c" "\<not> eventHandling (new_channel 0 5)"
      "ECONNREFUSED \<noteq> 0"
    by (simp_all add: sample_connector_simps new_channel_def ECONNREFUSED_def)
  from failed_attempt_stuck [OF this, of "\<lambda>f t p. 5" "\<lambda>fd. (0, 0)" LittleEndianHost None "[]" "[]"]
  show ?thesis by (auto simp: sample_connector_simps new_channel_def)
qed

end
