(* ===== verification/TcpClient.thy ===== *)
theory TcpClient
  imports TcpServer Connector
begin

text \<open>
  class TcpClient (network/include/network/TcpClient.h, network/src/TcpClient.cc).

  \<^item> \<open>client\<close> is the object; its connector is a value of theory Connector, the connection it
    holds is a \<open>conn_info\<close> as in theory TcpServer.
  \<^item> What the client asks of a connection or of its loop is recorded in order in
    \<open>client_requests\<close>.
  \<^item> \<open>unique\<close> is the reference count test of the destructor, an argument.
\<close>

datatype client_task = CEstablished string | CDestroyed string | CSetClose string | CForceClose string
  | CShutdown string

record client =
  client_loop :: loop_ptr
  client_name :: string
  connector :: connector
  retry_flag :: bool
  connecting_flag :: bool
  nxtconnid :: int
  client_callbacks :: user_callbacks
  connection :: "conn_info option"
  client_requests :: "client_task list"

definition TcpClient_ctor :: "loop_ptr option \<Rightarrow> string \<Rightarrow> connector \<Rightarrow> client res" where
  "TcpClient_ctor loop name conn =
     (case loop of
        None \<Rightarrow> Inl FatalLog
      | Some l \<Rightarrow>
          Inr \<lparr>client_loop = l, client_name = name, connector = conn, retry_flag = False,
               connecting_flag = True, nxtconnid = 1, client_callbacks = default_callbacks,
               connection = None, client_requests = []\<rparr>)"

definition client_setConnectionCallback :: "callback option \<Rightarrow> client \<Rightarrow> client" where
  "client_setConnectionCallback cb c = c\<lparr>client_callbacks := (client_callbacks c)\<lparr>on_connection := cb\<rparr>\<rparr>"

definition client_setMessageCallback :: "callback option \<Rightarrow> client \<Rightarrow> client" where
  "client_setMessageCallback cb c = c\<lparr>client_callbacks := (client_callbacks c)\<lparr>on_message := cb\<rparr>\<rparr>"

definition client_setWriteCompleteCallback :: "callback option \<Rightarrow> client \<Rightarrow> client" where
  "client_setWriteCompleteCallback cb c =
     c\<lparr>client_callbacks := (client_callbacks c)\<lparr>on_write_complete := cb\<rparr>\<rparr>"

lemmas client_setter_defs = client_setConnectionCallback_def client_setMessageCallback_def
  client_setWriteCompleteCallback_def

definition ask :: "client_task \<Rightarrow> client \<Rightarrow> client" where
  "ask t c = c\<lparr>client_requests := client_requests c @ [t]\<rparr>"

definition TcpClient_dtor :: "pid \<Rightarrow> bool \<Rightarrow> client \<Rightarrow> client res" where
  "TcpClient_dtor tid isunique c =
     (case connection c of
        None \<Rightarrow> Inr c
      | Some conn \<Rightarrow>
          bind_res (assert_res (client_loop c = info_loop conn)) (\<lambda>_.
          let c1 = ask (CSetClose (info_name conn)) c in
          if isunique then Inr (ask (CForceClose (info_name conn)) c1)
          else Inr (c1\<lparr>connector := connector_stop tid (connector c1)\<rparr>)))"

definition client_connect ::
  "pid \<Rightarrow> (16 word \<Rightarrow> 32 word \<Rightarrow> int \<Rightarrow> int) \<Rightarrow> (int \<Rightarrow> int \<times> int) \<Rightarrow> client \<Rightarrow> client res" where
  "client_connect tid sys_socket sys_connect c =
     (let c1 = c\<lparr>connecting_flag := True\<rparr> in
      bind_res (connector_start tid sys_socket sys_connect (connector c1)) (\<lambda>k.
      Inr (c1\<lparr>connector := k\<rparr>)))"

definition client_disconnect :: "client \<Rightarrow> client" where
  "client_disconnect c =
     (let c1 = c\<lparr>connecting_flag := False\<rparr> in
      case connection c1 of None \<Rightarrow> c1 | Some conn \<Rightarrow> ask (CShutdown (info_name conn)) c1)"

definition client_stop :: "pid \<Rightarrow> client \<Rightarrow> client" where
  "client_stop tid c =
     (let c1 = c\<lparr>connecting_flag := False\<rparr> in c1\<lparr>connector := connector_stop tid (connector c1)\<rparr>)"

definition client_connection_name :: "string \<Rightarrow> string \<Rightarrow> int \<Rightarrow> string" where
  "client_connection_name name peer_text i =
     name @ snprintf 32 (c_str peer_text @ ''#'' @ dec_int i)"

definition client_newConnection ::
  "pid \<Rightarrow> ('f, 'w) event_loop_scheme \<Rightarrow> string \<Rightarrow> sockaddr \<Rightarrow> sockaddr \<Rightarrow> int \<Rightarrow> client \<Rightarrow> client res"
where
  "client_newConnection tid l peer_text localAddr peerAddr sockfd c =
     bind_res (assertInLoopThread tid l) (\<lambda>_.
     let connname = client_connection_name (client_name c) peer_text (nxtconnid c);
         c1 = c\<lparr>nxtconnid := nxtconnid c + 1\<rparr>;
         conn = \<lparr>info_name = connname, info_fd = sockfd, info_loop = client_loop c1,
                 info_local = localAddr, info_peer = peerAddr, info_callbacks = client_callbacks c1,
                 info_close = Some RemoveConnection\<rparr> in
     Inr (ask (CEstablished connname) (c1\<lparr>connection := Some conn\<rparr>)))"

definition client_removeConnection ::
  "pid \<Rightarrow> ('f, 'w) event_loop_scheme \<Rightarrow> (16 word \<Rightarrow> 32 word \<Rightarrow> int \<Rightarrow> int) \<Rightarrow> (int \<Rightarrow> int \<times> int) \<Rightarrow>
   conn_info \<Rightarrow> client \<Rightarrow> client res" where
  "client_removeConnection tid l sys_socket sys_connect conn c =
     bind_res (assertInLoopThread tid l) (\<lambda>_.
     bind_res (assert_res (client_loop c = info_loop conn)) (\<lambda>_.
     bind_res (assert_res (connection c = Some conn)) (\<lambda>_.
     let c1 = ask (CDestroyed (info_name conn)) (c\<lparr>connection := None\<rparr>) in
     if retry_flag c1 \<and> connecting_flag c1 then
       bind_res (connector_restart tid sys_socket sys_connect (connector c1)) (\<lambda>k.
       Inr (c1\<lparr>connector := k\<rparr>))
     else Inr c1)))"

section \<open>Runs\<close>

datatype client_op = CConnect | CDisconnect | CStop | CNew string sockaddr sockaddr int | CGone conn_info
  | CSetConnection "callback option" | CSetMessage "callback option" | CSetWriteComplete "callback option"

fun client_step ::
  "pid \<Rightarrow> ('f, 'w) event_loop_scheme \<Rightarrow> (16 word \<Rightarrow> 32 word \<Rightarrow> int \<Rightarrow> int) \<Rightarrow> (int \<Rightarrow> int \<times> int) \<Rightarrow>
   client_op \<Rightarrow> client \<Rightarrow> client res" where
  "client_step tid l ss sc CConnect c = client_connect tid ss sc c"
| "client_step tid l ss sc CDisconnect c = Inr (client_disconnect c)"
| "client_step tid l ss sc CStop c = Inr (client_stop tid c)"
| "client_step tid l ss sc (CNew t la pa fd) c = client_newConnection tid l t la pa fd c"
| "client_step tid l ss sc (CGone conn) c = client_removeConnection tid l ss sc conn c"
| "client_step tid l ss sc (CSetConnection cb) c = Inr (client_setConnectionCallback cb c)"
| "client_step tid l ss sc (CSetMessage cb) c = Inr (client_setMessageCallback cb c)"
| "client_step tid l ss sc (CSetWriteComplete cb) c = Inr (client_setWriteCompleteCallback cb c)"

text \<open>\<open>retry_\<close> starts false and nothing sets it.\<close>

definition no_retry :: "client \<Rightarrow> bool" where
  "no_retry c \<longleftrightarrow> \<not> retry_flag c"

lemma client_step_no_retry:
  "no_retry c \<Longrightarrow> client_step tid l ss sc e c = Inr c' \<Longrightarrow> no_retry c'"
  by (cases e)
    (auto simp: no_retry_def client_connect_def client_disconnect_def client_stop_def ask_def
      client_newConnection_def client_removeConnection_def client_setter_defs Let_def bind_res_eq_Inr
      split: option.splits)

interpretation clm: machine "client_step tid l ss sc" no_retry for tid l ss sc
  by unfold_locales (rule client_step_no_retry)

section \<open>Properties\<close>

text \<open>A client never reconnects: in every run from a new client, removing the connection
  it holds drops it and asks for its destruction, and leaves the connector as it is, since
  the retry flag that would restart it can never become true.\<close>

theorem client_never_reconnects:
  assumes "TcpClient_ctor loop name k = Inr c0" and "run_res (client_step tid l ss sc) ops c0 = Inr c"
    and "client_removeConnection tid l ss sc conn c = Inr c'"
  shows "connection c = Some conn \<and> connection c' = None \<and> connector c' = connector c \<and>
    client_requests c' = client_requests c @ [CDestroyed (info_name conn)]"
proof -
  have "no_retry c0"
    using assms(1) by (auto simp: TcpClient_ctor_def no_retry_def split: option.splits)
  from clm.run_inv [OF this assms(2)] have "\<not> retry_flag c" by (simp add: no_retry_def)
  with assms(3) show ?thesis
    by (auto simp: client_removeConnection_def bind_res_eq_Inr Let_def ask_def)
qed

definition sample_client :: client where
  "sample_client = \<lparr>client_loop = 0, client_name = ''c'', connector = sample_connector,
     retry_flag = False, connecting_flag = True, nxtconnid = 1, client_callbacks = default_callbacks,
     connection = None, client_requests = []\<rparr>"

lemma client_never_reconnects_witness:
  "\<exists>c conn c'. client_removeConnection 8 sample_loop (\<lambda>f t p. 5) (\<lambda>fd. (0, 0)) conn c = Inr c' \<and>
     connection c = Some conn \<and> connector c' = connector c"
proof -
  have ctor: "TcpClient_ctor (Some 0) ''c'' sample_connector = Inr sample_client"
    by (simp add: TcpClient_ctor_def sample_client_def)
  let ?step = "client_step 8 sample_loop (\<lambda>f t p. 5) (\<lambda>fd. (0, 0))"
  obtain c conn where run: "run_res ?step [CNew ''10.0.0.1:80'' [] [] 5] sample_client = Inr c"
    and c: "connection c = Some conn" "client_loop c = info_loop conn" "\<not> retry_flag c"
    by (simp add: client_newConnection_def assertInLoopThread_pass sample_loop_def Let_def ask_def
      sample_client_def)
  then have "\<exists>c'. client_removeConnection 8 sample_loop (\<lambda>f t p. 5) (\<lambda>fd. (0, 0)) conn c = Inr c'"
    by (simp add: client_removeConnection_def assertInLoopThread_pass sample_loop_def Let_def ask_def)
  then obtain c' where c': "client_removeConnection 8 sample_loop (\<lambda>f t p. 5) (\<lambda>fd. (0, 0)) conn c = Inr c'" ..
  from client_never_reconnects [OF ctor run c'] c' show ?thesis by blast
qed

text \<open>Names of client connections: the 32-byte buffer holds every IPv4 peer text (at most 21
  characters) with ids below 10^9, so their names are distinct; with a peer text of 31
  characters or more, as IPv6 addresses have, the id does not fit at all and every
  connection gets the same name.\<close>

theorem client_names:
  shows "(length t \<le> 21 \<and> 0 \<le> i \<and> i < 10 ^ 9 \<and> 0 \<le> j \<and> j < 10 ^ 9 \<longrightarrow>
      (client_connection_name name t i = client_connection_name name t j \<longleftrightarrow> i = j)) \<and>
    (31 \<le> length (c_str t) \<longrightarrow> client_connection_name name t i = client_connection_name name t j)"
proof (intro conjI impI)
  assume a: "length t \<le> 21 \<and> 0 \<le> i \<and> i < 10 ^ 9 \<and> 0 \<le> j \<and> j < 10 ^ 9"
  have short: "length (dec_int k) \<le> 9" if "0 \<le> k" "k < 10 ^ 9" for k
    using length_dec_le [of "nat k" 8] that by (simp add: dec_int_def nat_less_iff)
  have whole: "client_connection_name name t k = name @ c_str t @ ''#'' @ dec_int k"
    if "0 \<le> k" "k < 10 ^ 9" for k
  proof -
    have "length (c_str t @ ''#'' @ dec_int k) < 32"
      using short [OF that] length_c_str [of t] a by simp
    then show ?thesis by (simp add: client_connection_name_def snprintf_fits)
  qed
  from a show "client_connection_name name t i = client_connection_name name t j \<longleftrightarrow> i = j"
    by (simp add: whole dec_int_inject)
next
  assume "31 \<le> length (c_str t)"
  then show "client_connection_name name t i = client_connection_name name t j"
    by (simp add: client_connection_name_def snprintf_def)
qed

lemma client_names_witness:
  "client_connection_name ''c'' (replicate 40 CHR ''f'') 1 = client_connection_name ''c'' (replicate 40 CHR ''f'') 2 \<and>
   client_connection_name ''c'' ''10.0.0.1:80'' 1 \<noteq> client_connection_name ''c'' ''10.0.0.1:80'' 2"
proof -
  have "length (c_str (replicate 40 CHR ''f'')) = 40" by (simp add: c_str_def)
  with client_names [of "replicate 40 CHR ''f''" 1 2 "''c''"] client_names [of "''10.0.0.1:80''" 1 2 "''c''"]
  show ?thesis by simp
qed

end
