(* ===== verification/AcceptPath.thy ===== *)
theory AcceptPath
  imports TcpServer
begin

text \<open>
  What happens when a client connects: the read callback of the acceptor's channel,
  Acceptor::handle_read (network/src/Accepto.cc), and the callback the server has bound to it,
  TcpServer::newConnection (network/src/TcpServer.cc), together with the server's other
  operations.
\<close>

section \<open>One incoming connection\<close>

text \<open>
  \<open>local_addr\<close> is \<open>getLocalAddr\<close>, \<open>fd\<close> and \<open>peer\<close> are the answer of \<open>accept\<close>; the branch for
  a negative descriptor cannot be reached, so its arguments do not matter.
\<close>

definition server_accept ::
  "pid \<Rightarrow> ('f, 'w) event_loop_scheme \<Rightarrow> (int \<Rightarrow> sockaddr) \<Rightarrow> int \<Rightarrow> sockaddr \<Rightarrow> int \<Rightarrow> server \<Rightarrow> server res" where
  "server_accept tid base local_addr fd peer errno s =
     bind_res (handle_read tid base (fd, peer) errno (-1) (-1) [] (server_acceptor s)) (\<lambda>(acc, call).
     let s1 = s\<lparr>server_acceptor := acc\<rparr> in
     case call of
       None \<Rightarrow> Inr s1
     | Some (sockfd, peerAddr) \<Rightarrow> newConnection tid base sockfd (local_addr sockfd) peerAddr s1)"

datatype accept_op = Incoming int sockaddr int | Other server_op

text \<open>Ids are ints; as in theory TcpServer, a run stops before the counter overflows.\<close>

fun accept_step ::
  "pid \<Rightarrow> ('f, 'w) event_loop_scheme \<Rightarrow> (int \<Rightarrow> sockaddr) \<Rightarrow> accept_op \<Rightarrow> server \<Rightarrow> server res" where
  "accept_step tid base local_addr (Incoming fd peer errno) s =
     (if nxtConnId s < 2 ^ 31 then server_accept tid base local_addr fd peer errno s else Inl OutOfBounds)"
| "accept_step tid base local_addr (Other (New fd la pa)) s = Inl OutOfBounds"
| "accept_step tid base local_addr (Other e) s = server_step tid base e s"

section \<open>Every connection sits on the listening descriptor\<close>

definition on_listener :: "acceptor \<Rightarrow> server \<Rightarrow> bool" where
  "on_listener a s \<longleftrightarrow> listen_fd (server_acceptor s) = listen_fd a \<and>
     acc_closed (server_acceptor s) = acc_closed a \<and> new_connection_callback (server_acceptor s) \<and> registry_ok s \<and>
     (\<forall>e \<in> set (connections s). info_fd (snd e) = listen_fd a)"

lemma server_accept_eq:
  assumes "on_listener a s" and "threadPid base \<noteq> tid"
  shows "server_accept tid base local_addr fd peer errno s =
    (if fd < 0 then Inl FatalLog
     else newConnection tid base (listen_fd a) (local_addr (listen_fd a)) peer s)"
  using assms
  by (simp add: server_accept_def handle_read_def assertInLoopThread_pass Accept_def setSockAddrInet6_def
      on_listener_def Let_def)

lemma server_step_on_listener:
  assumes inv: "on_listener a s" and step: "server_step tid base e s = Inr s'"
    and fd: "\<And>fd la pa. e = New fd la pa \<Longrightarrow> fd = listen_fd a"
  shows "on_listener a s'"
proof -
  have reg: "registry_ok s" using inv by (simp add: on_listener_def)
  note reg' = server_step_registry [OF reg step]
  show ?thesis
  proof (cases e rule: server_op_cases)
    case (new d la pa)
    with step have lt: "nxtConnId s < 2 ^ 31" and arr: "newConnection tid base d la pa s = Inr s'"
      by (auto split: if_splits)
    from newConnection_Inr [OF reg lt arr] obtain conn where
      "connections s' = connections s @ [(info_name conn, conn)]" "info_fd conn = d"
      "server_acceptor s' = server_acceptor s" by blast
    with inv reg' fd [OF new] show ?thesis by (auto simp: on_listener_def)
  next
    case (gone conn)
    with step have "connections s' = AList.delete (info_name conn) (connections s)"
        "server_acceptor s' = server_acceptor s"
      by (auto simp: removeConnectionInLoop_def bind_res_eq_Inr Let_def request_def)
    with inv reg' show ?thesis by (auto simp: on_listener_def AList.delete_eq)
  next
    case rest
    from server_step_rest [OF step rest] inv reg' show ?thesis by (simp add: on_listener_def)
  qed
qed

lemma accept_step_on_listener:
  assumes inv: "on_listener a s" and step: "accept_step tid base local_addr e s = Inr s'"
  shows "on_listener a s'"
proof (cases e)
  case (Incoming fd peer errno)
  with step have lt: "nxtConnId s < 2 ^ 31" and acc: "server_accept tid base local_addr fd peer errno s = Inr s'"
    by (auto split: if_splits)
  from acc have "threadPid base \<noteq> tid"
    by (auto simp: server_accept_def handle_read_def bind_res_eq_Inr)
  with acc have "newConnection tid base (listen_fd a) (local_addr (listen_fd a)) peer s = Inr s'"
    by (auto simp: server_accept_eq [OF inv] split: if_splits)
  with lt have "server_step tid base (New (listen_fd a) (local_addr (listen_fd a)) peer) s = Inr s'" by simp
  then show ?thesis by (rule server_step_on_listener [OF inv]) simp
next
  case (Other op)
  with step have "server_step tid base op s = Inr s'" "\<And>fd la pa. op \<noteq> New fd la pa"
    by (cases op; auto)+
  then show ?thesis by (auto intro: server_step_on_listener [OF inv])
qed

interpretation acc: machine "accept_step tid base local_addr" "on_listener a" for tid base local_addr a
  by unfold_locales (rule accept_step_on_listener)

lemma TcpServer_ctor_on_listener:
  assumes "TcpServer_ctor (\<lambda>reuse. Inr a) loop (Inr text) name opt = Inr s0" and "length text \<le> 51"
  shows "on_listener a s0"
  using assms by (auto simp: TcpServer_ctor_def on_listener_def registry_ok_def
      setNewConnectioncallback_def bind_res_eq_Inr split: option.splits)

section \<open>The loops of the connections\<close>

text \<open>A server whose next connection is the first, and whose pool hands out its loop \<open>i\<close> next.\<close>

definition serving :: "acceptor \<Rightarrow> loop_ptr list \<Rightarrow> nat \<Rightarrow> server \<Rightarrow> bool" where
  "serving a loops i s \<longleftrightarrow> on_listener a s \<and> pool_started (threadpool s) \<and> pool_loops (threadpool s) = loops \<and>
     pool_next (threadpool s) = int i \<and> nxtConnId s = int i + 1"

definition arrival :: "int \<times> sockaddr \<times> int \<Rightarrow> accept_op" where
  "arrival c = (case c of (fd, peer, errno) \<Rightarrow> Incoming fd peer errno)"

lemma arrival_served:
  assumes "serving a loops i s" and "threadPid base \<noteq> tid" and "length loops + 1 < 2 ^ 31"
    and "0 \<le> fst c" and "i < length loops"
  obtains s' conn where "accept_step tid base local_addr (arrival c) s = Inr s'" and "serving a loops (Suc i) s'"
    and "connections s' = connections s @ [(info_name conn, conn)]" and "info_loop conn = loops ! i"
proof -
  obtain fd peer errno where c: "c = (fd, peer, errno)" by (cases c)
  have s: "on_listener a s" "pool_started (threadpool s)" "pool_loops (threadpool s) = loops"
      "pool_next (threadpool s) = int i" "nxtConnId s = int i + 1" "registry_ok s"
    using assms(1) by (simp_all add: serving_def on_listener_def)
  have id: "nxtConnId s < 2 ^ 31" using s(5) assms(3,5) by simp
  have nx: "getNextEventLoop tid base (threadpool s) =
      Inr (loops ! i, (threadpool s)\<lparr>pool_next := int (Suc i)\<rparr>)"
    using getNextEventLoop_step [OF assms(2) s(2,4)] s(3) assms(5) by simp
  have step: "accept_step tid base local_addr (arrival c) s =
      newConnection tid base (listen_fd a) (local_addr (listen_fd a)) peer s"
    using server_accept_eq [OF s(1) assms(2)] id assms(4) by (simp add: arrival_def c)
  then obtain s' where s': "accept_step tid base local_addr (arrival c) s = Inr s'"
    using nx assms(2) by (simp add: newConnection_def assertInLoopThread_pass Let_def)
  from newConnection_Inr [OF s(6) id s' [unfolded step]] nx obtain conn where
    conn: "connections s' = connections s @ [(info_name conn, conn)]" "info_loop conn = loops ! i"
      "threadpool s' = (threadpool s)\<lparr>pool_next := int (Suc i)\<rparr>" "nxtConnId s' = nxtConnId s + 1"
    by auto
  have "serving a loops (Suc i) s'"
    using accept_step_on_listener [OF s(1) s'] conn(3,4) s(2,3,5) by (simp add: serving_def)
  from that [OF s' this conn(1,2)] show thesis .
qed

lemma arrivals_run:
  assumes "threadPid base \<noteq> tid" and "loops \<noteq> []" and "length loops + 1 < 2 ^ 31"
  shows "serving a loops i s \<Longrightarrow> \<forall>c \<in> set arrivals. 0 \<le> fst c \<Longrightarrow> i \<le> length loops \<Longrightarrow>
    (if i + length arrivals \<le> length loops
     then \<exists>s'. run_res (accept_step tid base local_addr) (map arrival arrivals) s = Inr s' \<and>
       map (\<lambda>e. info_loop (snd e)) (connections s') =
         map (\<lambda>e. info_loop (snd e)) (connections s) @ take (length arrivals) (drop i loops)
     else run_res (accept_step tid base local_addr) (map arrival arrivals) s = Inl OutOfBounds)"
proof (induction arrivals arbitrary: i s)
  case Nil
  then show ?case by simp
next
  case (Cons c arrivals)
  show ?case
  proof (cases "i < length loops")
    case True
    from Cons.prems(2) have "0 \<le> fst c" by simp
    from arrival_served [OF Cons.prems(1) assms(1,3) this True] obtain s1 conn where
      s1: "accept_step tid base local_addr (arrival c) s = Inr s1" "serving a loops (Suc i) s1"
        "connections s1 = connections s @ [(info_name conn, conn)]" "info_loop conn = loops ! i" .
    have "take (Suc (length arrivals)) (drop i loops) = loops ! i # take (length arrivals) (drop (Suc i) loops)"
      using True by (simp add: Cons_nth_drop_Suc [symmetric])
    with Cons.IH [OF s1(2)] Cons.prems(2) True s1(1,3,4) show ?thesis by (auto split: if_splits)
  next
    case False
    with Cons.prems(3) have i: "i = length loops" by simp
    have s: "on_listener a s" "pool_started (threadpool s)" "pool_loops (threadpool s) = loops"
        "pool_next (threadpool s) = int (length loops)"
      using Cons.prems(1) i by (simp_all add: serving_def)
    have "getNextEventLoop tid base (threadpool s) = Inl OutOfBounds"
      using s assms(1,2) by (simp add: getNextEventLoop_def assertInLoopThread_pass loop_at_def)
    then have "newConnection tid base fd la pa s = Inl OutOfBounds" for fd la pa
      using assms(1) by (simp add: newConnection_def assertInLoopThread_pass)
    with server_accept_eq [OF s(1) assms(1)] Cons.prems(2)
    have "accept_step tid base local_addr (arrival c) s = Inl OutOfBounds"
      by (cases c) (simp add: arrival_def)
    with i show ?thesis by simp
  qed
qed

section \<open>Properties\<close>

text \<open>No connection of a server ever uses the descriptor accepted for it: in every run of
  incoming connections, removals and changes of callbacks, every registered connection sits on
  the listening descriptor, and no accepted descriptor is closed. The next incoming connection, if
  the pool has a loop for it, is registered under a fresh name on that same descriptor, with the
  new peer's address and the callbacks set at that time, and its loop is asked to establish it;
  a failing \<open>accept\<close> aborts.\<close>

theorem connections_on_listener:
  assumes "TcpServer_ctor (\<lambda>reuse. Inr a) loop (Inr text) name opt = Inr s0" and "length text \<le> 51"
    and "run_res (accept_step tid base local_addr) ops s0 = Inr s" and "nxtConnId s < 2 ^ 31"
    and "threadPid base \<noteq> tid"
    and "getNextEventLoop tid base (threadpool s) = Inr (ioloop, p)"
  shows "(\<forall>e \<in> set (connections s). info_fd (snd e) = listen_fd a) \<and> acc_closed (server_acceptor s) = acc_closed a \<and>
    (if fd < 0 then server_accept tid base local_addr fd peer errno s = Inl FatalLog
     else \<exists>conn s'. server_accept tid base local_addr fd peer errno s = Inr s' \<and>
       connections s' = connections s @ [(info_name conn, conn)] \<and>
       info_name conn \<notin> fst ` set (connections s) \<and> info_fd conn = listen_fd a \<and>
       info_peer conn = peer \<and> info_callbacks conn = server_callbacks s \<and>
       requests s' = requests s @ [(ioloop, TEstablished (info_name conn))])"
proof -
  from acc.run_inv [OF TcpServer_ctor_on_listener [OF assms(1,2)] assms(3)] have inv: "on_listener a s" .
  then have reg: "registry_ok s" by (simp add: on_listener_def)
  have "\<exists>s'. newConnection tid base (listen_fd a) (local_addr (listen_fd a)) peer s = Inr s'"
    using assms(5,6) by (simp add: newConnection_def assertInLoopThread_pass Let_def)
  then obtain s' where new: "newConnection tid base (listen_fd a) (local_addr (listen_fd a)) peer s = Inr s'" ..
  from newConnection_Inr [OF reg assms(4) new] registry_fresh [OF reg assms(4)] assms(6)
  obtain conn where "connections s' = connections s @ [(info_name conn, conn)]"
    "info_name conn \<notin> fst ` set (connections s)" "info_fd conn = listen_fd a" "info_peer conn = peer"
    "info_callbacks conn = server_callbacks s"
    "requests s' = requests s @ [(ioloop, TEstablished (info_name conn))]" by auto
  then show ?thesis
    using inv new by (auto simp: server_accept_eq [OF inv assms(5)] on_listener_def)
qed

lemma sample_accept_run:
  obtains s where "run_res (accept_step 8 sample_loop (\<lambda>fd. []))
      [Other (Start (\<lambda>i. 0)), Incoming 7 [1] 0, Incoming 8 [2] 0] sample_server = Inr s"
    and "length (connections s) = 2" and "nxtConnId s = 3"
    and "getNextEventLoop 8 sample_loop (threadpool s) = Inr (0, threadpool s)"
  using that
  by (simp add: sample_server_defs sample_connection_names server_accept_def handle_read_def Accept_def
      setSockAddrInet6_def)

lemma connections_on_listener_witness:
  "\<exists>s s'. length (connections s) = 2 \<and> length (connections s') = 3 \<and>
     server_accept 8 sample_loop (\<lambda>fd. []) 9 [2, 0] 0 s = Inr s'"
proof -
  obtain s where run: "run_res (accept_step 8 sample_loop (\<lambda>fd. []))
      [Other (Start (\<lambda>i. 0)), Incoming 7 [1] 0, Incoming 8 [2] 0] sample_server = Inr s"
    and s: "length (connections s) = 2" "nxtConnId s = 3"
    and loop: "getNextEventLoop 8 sample_loop (threadpool s) = Inr (0, threadpool s)"
    by (rule sample_accept_run)
  have pid: "threadPid sample_loop \<noteq> 8" by (simp add: sample_loop_def)
  from connections_on_listener [OF sample_server_ctor _ run _ pid loop, of 9 "[2, 0]" 0] s
  show ?thesis by fastforce
qed

text \<open>C22: A server with threads does not survive one connection more than it has threads: with
  \<open>n > 0\<close> threads, started once, the first \<open>n\<close> incoming connections are registered on the
  loops of the \<open>n\<close> threads, in order; and if more come in, the next one makes the server read
  beyond its list of loops.\<close>

theorem server_runs_out_of_loops:
  assumes "TcpServer_ctor (\<lambda>reuse. Inr a) loop (Inr text) name opt = Inr s0" and "length text \<le> 51"
    and "\<not> listening a" and "threadPid base \<noteq> tid" and "0 < n" and "n + 1 < 2 ^ 31"
    and "\<forall>c \<in> set arrivals. 0 \<le> fst c"
  shows "let ops = [Other (ThreadNum (int n)), Other (Start startLoop)] @ map arrival arrivals in
    if length arrivals \<le> n
    then \<exists>s. run_res (accept_step tid base local_addr) ops s0 = Inr s \<and>
      map (\<lambda>e. info_loop (snd e)) (connections s) = map startLoop [0..<length arrivals]
    else run_res (accept_step tid base local_addr) ops s0 = Inl OutOfBounds"
proof -
  let ?ops = "[Other (ThreadNum (int n)), Other (Start startLoop)]"
  have inv0: "on_listener a s0" by (rule TcpServer_ctor_on_listener [OF assms(1,2)])
  have s0: "\<not> pool_started (threadpool s0)" "pool_loops (threadpool s0) = []"
      "pool_next (threadpool s0) = 0" "nxtConnId s0 = 1" "connections s0 = []"
      "\<not> listening (server_acceptor s0)"
    using assms(1,3) by (auto simp: TcpServer_ctor_def EventLoopThreadPool_ctor_def
        setNewConnectioncallback_def bind_res_eq_Inr split: option.splits)
  then have "\<exists>s. run_res (accept_step tid base local_addr) ?ops s0 = Inr s \<and> pool_started (threadpool s) \<and>
      pool_loops (threadpool s) = map startLoop [0..<n] \<and> pool_next (threadpool s) = 0 \<and> nxtConnId s = 1 \<and>
      connections s = []"
    using assms(4) by (simp add: setThreadNum_def serthreadnum_def server_start_def pool_start_def
        assertInLoopThread_pass request_def Let_def)
  then obtain s where s: "run_res (accept_step tid base local_addr) ?ops s0 = Inr s"
      "pool_started (threadpool s)" "pool_loops (threadpool s) = map startLoop [0..<n]"
      "pool_next (threadpool s) = 0" "nxtConnId s = 1" "connections s = []" by blast
  then have "serving a (map startLoop [0..<n]) 0 s"
    using acc.run_inv [OF inv0 s(1)] by (simp add: serving_def)
  from arrivals_run [OF assms(4) _ _ this assms(7), of local_addr] assms(5,6) s(6)
  show ?thesis
    unfolding run_res_append s(1) Let_def by (auto simp: take_map split: if_splits)
qed

lemma server_runs_out_of_loops_witness:
  "\<exists>s. run_res (accept_step 8 sample_loop (\<lambda>fd. []))
      [Other (ThreadNum 1), Other (Start (\<lambda>i. 10 + i)), Incoming 7 [1] 0] sample_server = Inr s \<and>
     map (\<lambda>e. info_loop (snd e)) (connections s) = [10] \<and>
   run_res (accept_step 8 sample_loop (\<lambda>fd. []))
      [Other (ThreadNum 1), Other (Start (\<lambda>i. 10 + i)), Incoming 7 [1] 0, Incoming 8 [2] 0] sample_server =
     Inl OutOfBounds"
proof -
  have "\<not> listening sample_acceptor" "threadPid sample_loop \<noteq> 8"
    by (simp_all add: sample_acceptor_def sample_loop_def)
  note use = server_runs_out_of_loops [OF sample_server_ctor _ this, where n = 1 and local_addr = "\<lambda>fd. []"
      and startLoop = "\<lambda>i. 10 + i"]
  from use [of "[(7, [1], 0)]"] use [of "[(7, [1], 0), (8, [2], 0)]"] show ?thesis
    by (simp add: arrival_def)
qed

end
