(* ===== verification/Teardown.thy ===== *)
theory Teardown
  imports TcpServer TcpConnection
begin

text \<open>
  How a server's connection ends when its peer closes: TcpConnection::handleRead and
  TcpConnection::handleClose (network/src/TcpConnection.cc) in the connection's loop, whose close
  callback is TcpServer::removeConnection (network/src/TcpServer.cc); then
  TcpServer::removeConnectionInLoop in the server's loop, and at last
  TcpConnection::connectDestroyed in the connection's loop again.
\<close>

section \<open>The chain\<close>

text \<open>
  \<open>io\<close> and \<open>tid\<close> are the threads running the functors of the connection's and the server's loop.
  removeConnection leaves the connection alone, so as the connection's close callback it is
  \<open>Some Inr\<close>; it is the last thing handleClose does, so what it does to the server comes after.
\<close>

definition peer_close ::
  "pid \<Rightarrow> callbacks \<Rightarrow> pid \<Rightarrow> ('f, 'w) event_loop_scheme \<Rightarrow> conn_info \<Rightarrow> connection \<times> server \<Rightarrow>
   (connection \<times> server) res" where
  "peer_close io cbs tid base info = (\<lambda>(c, s).
     bind_res (handleRead io (setClosecallback (Some Inr) cbs) (Inr []) 0 c) (\<lambda>c1.
     let s1 = removeConnection info s in
     bind_res (removeConnectionInLoop tid base info s1) (\<lambda>s2.
     bind_res (connectDestroyed io (setClosecallback (Some Inr) cbs) c1) (\<lambda>c2. Inr (c2, s2)))))"

text \<open>A connection callback that succeeds and leaves the state and the channel alone, as the default one.\<close>

definition quiet :: "user_fun \<Rightarrow> bool" where
  "quiet f \<longleftrightarrow> (\<forall>c. \<exists>c'. f c = Inr c' \<and> conn_state c' = conn_state c \<and> conn_channel c' = conn_channel c \<and>
     calls c' = calls c \<and> threadPid c' = threadPid c \<and> loop_this c' = loop_this c \<and>
     eventHanding c' = eventHanding c)"

lemma quiet_default: "quiet defaultConnectionCallback"
  by (simp add: quiet_def defaultConnectionCallback_def)

lemma handleClose_quiet:
  assumes "conn_state c = KConnected \<or> conn_state c = KDisconnecting"
    and "ch_loop (conn_channel c) = loop_this c" and "threadPid c \<noteq> io"
    and "connectioncallback cbs = Some f" and "quiet f" and "closecallback cbs = Some Inr"
  shows "\<exists>c'. handleClose io cbs c = Inr c' \<and> conn_state c' = KDisconnected \<and>
    conn_channel c' = (conn_channel c)\<lparr>events := NoneEvent, addedToLoop := True\<rparr> \<and>
    calls c' = calls c @ [CallConnection KDisconnected, CallClose] \<and>
    threadPid c' = threadPid c \<and> loop_this c' = loop_this c \<and> eventHanding c' = eventHanding c"
proof -
  let ?c2 = "c\<lparr>conn_state := KDisconnected,
    conn_channel := (conn_channel c)\<lparr>events := NoneEvent, addedToLoop := True\<rparr>\<rparr>"
  obtain c3 where c3: "f (?c2\<lparr>calls := calls c @ [CallConnection KDisconnected]\<rparr>) = Inr c3"
    and keep: "conn_state c3 = KDisconnected" "conn_channel c3 = conn_channel ?c2"
      "calls c3 = calls c @ [CallConnection KDisconnected]" "threadPid c3 = threadPid c"
      "loop_this c3 = loop_this c" "eventHanding c3 = eventHanding c"
    using assms(5) unfolding quiet_def
    by (elim allE [of _ "?c2\<lparr>calls := calls c @ [CallConnection KDisconnected]\<rparr>"]) auto
  have "handleClose io cbs c = Inr (c3\<lparr>calls := calls c3 @ [CallClose]\<rparr>)"
    using assms(1-4,6) c3
    by (simp add: handleClose_def assertInLoopThread_pass on_channel_def channel_ops_eq invoke_def Let_def)
  with keep show ?thesis by simp
qed

text \<open>The connection's own part, from the read of no bytes to the destructor.\<close>

lemma closed_by_peer:
  assumes "conn_state c = KConnected \<or> conn_state c = KDisconnecting" and "buf_inv (inputbuffer c)"
    and "ch_loop (conn_channel c) = loop_this c" and "\<not> eventHandling (conn_channel c)"
    and "\<not> eventHanding c" and "threadPid c \<noteq> io" and "connectioncallback cbs = Some f" and "quiet f"
  obtains c1 c2 where "handleRead io (setClosecallback (Some Inr) cbs) (Inr []) 0 c = Inr c1"
    and "connectDestroyed io (setClosecallback (Some Inr) cbs) c1 = Inr c2" and "conn_state c2 = KDisconnected"
    and "calls c2 = calls c @ [CallConnection KDisconnected, CallClose]"
    and "isNoneEvent (conn_channel c2)" and "\<not> addedToLoop (conn_channel c2)"
    and "TcpConnection_dtor io c2 = Inr [ch_fd (conn_channel c)]"
proof -
  let ?cbs = "setClosecallback (Some Inr) cbs"
  obtain b where b: "readFd (Inr []) (inputbuffer c) = Inr (0, None, b)"
    using readFd_ok [OF assms(2), of "[]"] buf_invD [OF assms(2)] by auto
  have cbs: "connectioncallback ?cbs = Some f" "closecallback ?cbs = Some Inr"
    using assms(7) by (simp_all add: setClosecallback_def)
  from handleClose_quiet [OF _ _ _ cbs(1) assms(8) cbs(2), of "c\<lparr>inputbuffer := b\<rparr>" io] assms(1,3,6)
  obtain c1 where "handleClose io ?cbs (c\<lparr>inputbuffer := b\<rparr>) = Inr c1" and c1: "conn_state c1 = KDisconnected"
    "conn_channel c1 = (conn_channel c)\<lparr>events := NoneEvent, addedToLoop := True\<rparr>"
    "calls c1 = calls c @ [CallConnection KDisconnected, CallClose]" "threadPid c1 = threadPid c"
    "loop_this c1 = loop_this c" "eventHanding c1 = eventHanding c"
    by auto
  then have close: "handleRead io ?cbs (Inr []) 0 c = Inr c1"
    using b assms(6) by (simp add: handleRead_def assertInLoopThread_pass)
  let ?c2 = "c1\<lparr>conn_channel := (conn_channel c1)\<lparr>addedToLoop := False\<rparr>\<rparr>"
  have "connectDestroyed io ?cbs c1 = Inr ?c2"
    using c1 assms(3,5,6)
    by (simp add: connectDestroyed_def assertInLoopThread_pass on_channel_def channel_remove_def
        isNoneEvent_def removeChannel_def Let_def)
  moreover have "TcpConnection_dtor io ?c2 = Inr [ch_fd (conn_channel c)]"
    using c1 assms(4,6)
    by (simp add: TcpConnection_dtor_def channel_dtor_def isInloopthread_def Socket_dtor_def)
  moreover have "isNoneEvent (conn_channel ?c2)" using c1(2) by (simp add: isNoneEvent_def)
  ultimately show thesis using that [of c1 ?c2] close c1 by simp
qed

text \<open>The server's part.\<close>

lemma removal_goes_through:
  assumes "registry_ok s" and "info_name info \<in> fst ` set (connections s)" and "threadPid base \<noteq> tid"
  shows "\<exists>s'. removeConnectionInLoop tid base info (removeConnection info s) = Inr s' \<and>
    connections s' = filter (\<lambda>e. fst e \<noteq> info_name info) (connections s) \<and>
    requests s' = requests s @
      [(server_loop s, TRemove (info_name info)), (info_loop info, TDestroyed (info_name info))]"
proof -
  have "distinct (map fst (connections s))" using assms(1) by (simp add: registry_ok_def)
  from filter_key_once [OF this] assms(2,3) show ?thesis
    by (simp add: removeConnectionInLoop_def removeConnection_def assertInLoopThread_pass request_def Let_def
        delete_filter)
qed

section \<open>Properties\<close>

text \<open>C23: When the peer of a registered connection closes, the connection is torn down completely:
  no assert trips on the way through the two loops, the user hears DOWN once and the close
  callback runs once, the server forgets exactly this connection, the channel ends up without
  interest and removed from its loop, and the connection can be destroyed, which closes its
  descriptor.\<close>

theorem peer_close_tears_down:
  assumes "registry_ok s" and "info_name info \<in> fst ` set (connections s)"
    and "conn_state c = KConnected \<or> conn_state c = KDisconnecting" and "buf_inv (inputbuffer c)"
    and "ch_loop (conn_channel c) = loop_this c" and "\<not> eventHandling (conn_channel c)"
    and "\<not> eventHanding c"
    and "threadPid c \<noteq> io" and "threadPid base \<noteq> tid"
    and "connectioncallback cbs = Some f" and "quiet f"
  shows "\<exists>c' s'. peer_close io cbs tid base info (c, s) = Inr (c', s') \<and>
    conn_state c' = KDisconnected \<and> calls c' = calls c @ [CallConnection KDisconnected, CallClose] \<and>
    isNoneEvent (conn_channel c') \<and> \<not> addedToLoop (conn_channel c') \<and>
    TcpConnection_dtor io c' = Inr [ch_fd (conn_channel c)] \<and>
    connections s' = filter (\<lambda>e. fst e \<noteq> info_name info) (connections s) \<and>
    requests s' = requests s @
      [(server_loop s, TRemove (info_name info)), (info_loop info, TDestroyed (info_name info))]"
proof -
  let ?cbs = "setClosecallback (Some Inr) cbs"
  from assms(3-8,10,11) obtain c1 c2 where close: "handleRead io ?cbs (Inr []) 0 c = Inr c1"
    "connectDestroyed io ?cbs c1 = Inr c2"
    and c2: "conn_state c2 = KDisconnected" "calls c2 = calls c @ [CallConnection KDisconnected, CallClose]"
      "isNoneEvent (conn_channel c2)" "\<not> addedToLoop (conn_channel c2)" "TcpConnection_dtor io c2 = Inr [ch_fd (conn_channel c)]"
    by (rule closed_by_peer)
  from removal_goes_through [OF assms(1,2,9)] obtain s2 where
    s2: "removeConnectionInLoop tid base info (removeConnection info s) = Inr s2"
      "connections s2 = filter (\<lambda>e. fst e \<noteq> info_name info) (connections s)"
      "requests s2 = requests s @
        [(server_loop s, TRemove (info_name info)), (info_loop info, TDestroyed (info_name info))]" by blast
  have "peer_close io cbs tid base info (c, s) = Inr (c2, s2)"
    using close s2(1) by (simp add: peer_close_def)
  with c2 s2 show ?thesis by simp
qed

lemma peer_close_tears_down_witness:
  "\<exists>s info c' s'. peer_close 8 (setConnectionCallback (Some defaultConnectionCallback) sample_callbacks) 8 sample_loop
      info (sample_connection\<lparr>conn_state := KConnected\<rparr>, s) = Inr (c', s') \<and>
    length (connections s) = 2 \<and> length (connections s') = 1 \<and> conn_state c' = KDisconnected"
proof -
  obtain s where run: "run_res (server_step 8 sample_loop) sample_ops sample_server = Inr s"
    and names: "map fst (connections s) = [''s-10.0.0.1:80#1'', ''s-10.0.0.1:80#2'']"
    by (rule sample_server_run)
  let ?info = "\<lparr>info_name = ''s-10.0.0.1:80#1'', info_fd = 3, info_loop = 0, info_local = [], info_peer = [1],
    info_callbacks = default_callbacks, info_close = Some RemoveConnection\<rparr>"
  let ?c = "sample_connection\<lparr>conn_state := KConnected\<rparr>"
  have "registry_ok sample_server" by (simp add: sample_server_def registry_ok_def)
  from svm.run_inv [OF this run] have ok: "registry_ok s" .
  have "fst ` set (connections s) = set (map fst (connections s))" by simp
  then have reg: "info_name ?info \<in> fst ` set (connections s)" unfolding names by simp
  have c: "conn_state ?c = KConnected \<or> conn_state ?c = KDisconnecting" "buf_inv (inputbuffer ?c)"
    "ch_loop (conn_channel ?c) = loop_this ?c" "\<not> eventHandling (conn_channel ?c)" "\<not> eventHanding ?c"
    "threadPid ?c \<noteq> 8" "threadPid sample_loop \<noteq> 8"
    using sample_buffer_inv
    by (simp_all add: sample_connection_def sample_event_loop_def event_loop.defs new_channel_def sample_loop_def)
  have cb: "connectioncallback (setConnectionCallback (Some defaultConnectionCallback) sample_callbacks) =
    Some defaultConnectionCallback" by (simp add: setConnectionCallback_def)
  from peer_close_tears_down [OF ok reg c cb quiet_default] obtain c' s'
    where close: "peer_close 8 (setConnectionCallback (Some defaultConnectionCallback) sample_callbacks) 8 sample_loop
      ?info (?c, s) = Inr (c', s')" and "conn_state c' = KDisconnected"
      "connections s' = filter (\<lambda>e. fst e \<noteq> info_name ?info) (connections s)" by blast
  moreover have "length (connections s) = 2" using arg_cong [OF names, of length] by simp
  moreover have "length (filter (\<lambda>e. fst e \<noteq> info_name ?info) (connections s)) =
      length (filter (\<lambda>k. k \<noteq> info_name ?info) (map fst (connections s)))"
    by (simp add: filter_map comp_def)
  moreover have "length (filter (\<lambda>k. k \<noteq> info_name ?info) (map fst (connections s))) = 1"
    unfolding names by simp
  ultimately show ?thesis by metis
qed

text \<open>C24: The end of a server and its connections: the destructor of a server asks the loop of every
  registered connection to destroy it. A connected one is told DOWN, stops watching, is removed
  from its loop and can be destroyed, which closes its descriptor. But one that is shutting down, or forced to
  close, while it still watches for anything fails the assert in Channel::remove.\<close>

theorem server_destroys_connections:
  assumes "TcpServer_dtor tid base s = Inr s'" and "(key, info) \<in> set (connections s)"
    and "ch_loop (conn_channel c) = loop_this c" and "\<not> eventHandling (conn_channel c)"
    and "\<not> eventHanding c" and "threadPid c \<noteq> io" and "connectioncallback cbs = Some f" and "quiet f"
  shows "(info_loop info, TDestroyed (info_name info)) \<in> set (requests s') \<and>
    (conn_state c = KConnected \<longrightarrow>
       (\<exists>c'. connectDestroyed io cbs c = Inr c' \<and> calls c' = calls c @ [CallConnection KDisconnected] \<and>
          isNoneEvent (conn_channel c') \<and> TcpConnection_dtor io c' = Inr [ch_fd (conn_channel c)])) \<and>
    (conn_state c = KDisconnecting \<and> \<not> isNoneEvent (conn_channel c) \<longrightarrow> connectDestroyed io cbs c = Inl AssertFailed)"
proof -
  have "(info_loop info, TDestroyed (info_name info)) \<in> set (requests s')"
    using assms(1,2) by (force simp: TcpServer_dtor_def bind_res_eq_Inr Let_def)
  moreover have "\<exists>c'. connectDestroyed io cbs c = Inr c' \<and> calls c' = calls c @ [CallConnection KDisconnected] \<and>
      isNoneEvent (conn_channel c') \<and> TcpConnection_dtor io c' = Inr [ch_fd (conn_channel c)]"
    if st: "conn_state c = KConnected"
  proof -
    let ?c2 = "c\<lparr>conn_state := KDisconnected,
      conn_channel := (conn_channel c)\<lparr>events := NoneEvent, addedToLoop := True\<rparr>,
      calls := calls c @ [CallConnection KDisconnected]\<rparr>"
    obtain c3 where c3: "f ?c2 = Inr c3" "conn_state c3 = KDisconnected" "conn_channel c3 = conn_channel ?c2"
      "calls c3 = calls ?c2" "threadPid c3 = threadPid c" "loop_this c3 = loop_this c" "eventHanding c3 = eventHanding c"
      using assms(8) unfolding quiet_def by (elim allE [of _ ?c2]) auto
    let ?c4 = "c3\<lparr>conn_channel := (conn_channel c3)\<lparr>addedToLoop := False\<rparr>\<rparr>"
    have "connectDestroyed io cbs c = Inr ?c4"
      using st c3 assms(3,5-7)
      by (simp add: connectDestroyed_def assertInLoopThread_pass on_channel_def channel_ops_eq invoke_def
          channel_remove_def isNoneEvent_def removeChannel_def Let_def)
    moreover have "TcpConnection_dtor io ?c4 = Inr [ch_fd (conn_channel c)]"
      using c3 assms(4,6) by (simp add: TcpConnection_dtor_def channel_dtor_def isInloopthread_def Socket_dtor_def)
    ultimately show ?thesis using c3 by (intro exI [of _ ?c4]) (simp add: isNoneEvent_def)
  qed
  moreover have "connectDestroyed io cbs c = Inl AssertFailed"
    if "conn_state c = KDisconnecting" "\<not> isNoneEvent (conn_channel c)"
    using that assms(6) by (simp add: connectDestroyed_def assertInLoopThread_pass on_channel_def channel_remove_def)
  ultimately show ?thesis by blast
qed

lemma sample_server_dtor:
  obtains s s' info where "run_res (server_step 8 sample_loop) sample_ops sample_server = Inr s"
    and "TcpServer_dtor 8 sample_loop s = Inr s'" and "(''s-10.0.0.1:80#1'', info) \<in> set (connections s)"
  using that by (simp add: sample_ops_def sample_server_defs sample_connection_names TcpServer_dtor_def
      Acceptor_dtor_def channel_ops_eq channel_remove_def removeChannel_def new_channel_def isNoneEvent_def NoneEvent_def)

lemma server_destroys_connections_witness:
  "\<exists>s s' c. TcpServer_dtor 8 sample_loop s = Inr s' \<and> connections s \<noteq> [] \<and>
    (\<exists>c'. connectDestroyed 8 sample_callbacks (c\<lparr>conn_state := KConnected\<rparr>) = Inr c') \<and>
    connectDestroyed 8 sample_callbacks (c\<lparr>conn_state := KDisconnecting\<rparr>) = Inl AssertFailed"
proof -
  obtain s s' info where dtor: "TcpServer_dtor 8 sample_loop s = Inr s'"
    and e: "(''s-10.0.0.1:80#1'', info) \<in> set (connections s)" by (rule sample_server_dtor)
  let ?c = "sample_connection\<lparr>conn_channel := (conn_channel sample_connection)\<lparr>events := ReadEvent\<rparr>\<rparr>"
  have c: "ch_loop (conn_channel (?c\<lparr>conn_state := st\<rparr>)) = loop_this (?c\<lparr>conn_state := st\<rparr>)"
    "\<not> eventHandling (conn_channel (?c\<lparr>conn_state := st\<rparr>))" "\<not> eventHanding (?c\<lparr>conn_state := st\<rparr>)"
    "threadPid (?c\<lparr>conn_state := st\<rparr>) \<noteq> 8" "\<not> isNoneEvent (conn_channel (?c\<lparr>conn_state := st\<rparr>))" for st
    by (simp_all add: sample_connection_def sample_event_loop_def event_loop.defs new_channel_def isNoneEvent_def
        NoneEvent_def ReadEvent_def)
  have cb: "connectioncallback sample_callbacks = Some Inr" "quiet Inr"
    by (simp_all add: sample_callbacks_def quiet_def)
  note use = server_destroys_connections [OF dtor e c(1-4) cb]
  have "connectDestroyed 8 sample_callbacks (?c\<lparr>conn_state := KDisconnecting\<rparr>) = Inl AssertFailed"
    using use [of KDisconnecting] c(5) [of KDisconnecting] by simp
  moreover have "\<exists>c'. connectDestroyed 8 sample_callbacks (?c\<lparr>conn_state := KConnected\<rparr>) = Inr c'"
    using use [of KConnected] by auto
  moreover have "connections s \<noteq> []" using e by auto
  ultimately show ?thesis using dtor by blast
qed

end
