(* ===== verification/CloseRaces.thy ===== *)
theory CloseRaces
  imports Teardown ConnectionEvents
begin

text \<open>
  Two ways in which closing a connection goes wrong: an operation of TcpConnection
  (network/src/TcpConnection.cc) that another thread has asked for runs after the close, and one event that
  Channel::handleEvent (network/src/Channel.cc) takes for a close and for data.
\<close>

section \<open>Properties\<close>

text \<open>C25: A startRead that crosses the peer's close kills the process: when another thread calls startRead
  on an open connection and the close is handled before the functor runs, as the loop handles
  events before functors, the functor turns reading on for the closed connection, and the
  destruction that the server then asks for fails its assert.\<close>

theorem late_start_read_aborts:
  assumes "conn_state c = KConnected \<or> conn_state c = KDisconnecting" and "buf_inv (inputbuffer c)"
    and "ch_loop (conn_channel c) = loop_this c" and "\<not> eventHandling (conn_channel c)"
    and "\<not> eventHanding c" and "threadPid c \<noteq> io" and "connectioncallback cbs = Some f" and "quiet f"
  shows "\<exists>c1 c2 c3. startRead io cbs wr c = Inr c1 \<and> pendingFunctors c1 = pendingFunctors c @ [TStartRead] \<and>
    handleRead io (setClosecallback (Some Inr) cbs) (Inr []) 0 c1 = Inr c2 \<and>
    exec_task io cbs wr TStartRead c2 = Inr c3 \<and> conn_state c3 = KDisconnected \<and> isReading (conn_channel c3) \<and>
    connectDestroyed io cbs c3 = Inl AssertFailed"
proof -
  let ?c1 = "queueInLoop io TStartRead c" and ?cbs = "setClosecallback (Some Inr) cbs"
  have s1: "startRead io cbs wr c = Inr ?c1" "pendingFunctors ?c1 = pendingFunctors c @ [TStartRead]"
    using assms(6) by (simp_all add: startRead_def runInLoop_def isInloopthread_def)
  obtain b where b: "readFd (Inr []) (inputbuffer c) = Inr (0, None, b)"
    using readFd_ok [OF assms(2), of "[]"] buf_invD [OF assms(2)] by auto
  have cb: "connectioncallback ?cbs = Some f" "closecallback ?cbs = Some Inr"
    using assms(7) by (simp_all add: setClosecallback_def)
  from handleClose_quiet [OF _ _ _ cb(1) assms(8) cb(2), of "?c1\<lparr>inputbuffer := b\<rparr>" io] assms(1,3,6)
  obtain c2 where "handleClose io ?cbs (?c1\<lparr>inputbuffer := b\<rparr>) = Inr c2" and c2: "conn_state c2 = KDisconnected"
    "conn_channel c2 = (conn_channel c)\<lparr>events := NoneEvent, addedToLoop := True\<rparr>" "threadPid c2 = threadPid c"
    "loop_this c2 = loop_this c" "eventHanding c2 = eventHanding c"
    by auto
  then have close: "handleRead io ?cbs (Inr []) 0 ?c1 = Inr c2"
    using b assms(6) by (simp add: handleRead_def assertInLoopThread_pass)
  let ?c3 = "c2\<lparr>conn_channel := (conn_channel c2)\<lparr>events := ReadEvent, addedToLoop := True\<rparr>, reading := True\<rparr>"
  have "exec_task io cbs wr TStartRead c2 = Inr ?c3"
    using c2 assms(3,6)
    by (simp add: exec_task_def startReadInLoop_def assertInLoopThread_pass on_channel_def channel_ops_eq isReading_def NoneEvent_def)
  moreover have "connectDestroyed io cbs ?c3 = Inl AssertFailed"
    using c2 assms(6)
    by (simp add: connectDestroyed_def assertInLoopThread_pass on_channel_def channel_remove_def isNoneEvent_def
        NoneEvent_def ReadEvent_def)
  moreover have "isReading (conn_channel ?c3)" by (simp add: isReading_def ReadEvent_def)
  ultimately show ?thesis using s1 close c2(1) by (intro exI [of _ ?c1] exI [of _ c2] exI [of _ ?c3]) simp
qed

text \<open>An open connection of the samples.\<close>

lemma sample_open:
  "conn_state (sample_connection\<lparr>conn_state := KConnected\<rparr>) = KConnected"
  "buf_inv (inputbuffer (sample_connection\<lparr>conn_state := st\<rparr>))"
  "ch_loop (conn_channel (sample_connection\<lparr>conn_state := st\<rparr>)) = loop_this (sample_connection\<lparr>conn_state := st\<rparr>)"
  "\<not> eventHandling (conn_channel (sample_connection\<lparr>conn_state := st\<rparr>))"
  "\<not> eventHanding (sample_connection\<lparr>conn_state := st\<rparr>)" "threadPid (sample_connection\<lparr>conn_state := st\<rparr>) \<noteq> 8"
  using sample_buffer_inv
  by (simp_all add: sample_connection_def sample_event_loop_def event_loop.defs new_channel_def)

lemma late_start_read_aborts_witness:
  "\<exists>c1 c2 c3. startRead 8 (setConnectionCallback (Some defaultConnectionCallback) sample_callbacks) two_bytes
      (sample_connection\<lparr>conn_state := KConnected\<rparr>) = Inr c1 \<and>
    exec_task 8 (setConnectionCallback (Some defaultConnectionCallback) sample_callbacks) two_bytes TStartRead c2 = Inr c3 \<and>
    connectDestroyed 8 (setConnectionCallback (Some defaultConnectionCallback) sample_callbacks) c3 = Inl AssertFailed"
  using late_start_read_aborts [OF disjI1 [OF sample_open(1)] sample_open(2-6),
      of "setConnectionCallback (Some defaultConnectionCallback) sample_callbacks" defaultConnectionCallback two_bytes]
    quiet_default
  by (fastforce simp: setConnectionCallback_def)

text \<open>C35: A hang-up may close a connection twice: when the dispatch finds POLLHUP without POLLIN, and POLLPRI,
  which a channel that waits to write asks for, the close handler runs, and after it the read handler; with nothing
  left to read it closes the connection a second time, and the assert of handleClose fails.\<close>

theorem hangup_closes_twice:
  assumes "conn_state c = KConnected \<or> conn_state c = KDisconnecting" and "buf_inv (inputbuffer c)"
    and "ch_loop (conn_channel c) = loop_this c" and "threadPid c \<noteq> io"
    and "connectioncallback cbs = Some defaultConnectionCallback" and "closecallback cbs = Some Inr"
    and "readCallback (conn_channel c) = Some HRead" and "closeCallback (conn_channel c) = Some HClose"
    and "reported = revents (conn_channel c) OR (m AND (events (conn_channel c) OR POLLERR OR POLLHUP))"
    and "reported AND POLLHUP \<noteq> 0" and "reported AND POLLIN = 0" and "reported AND POLLPRI \<noteq> 0"
  shows "conn_event io cbs wr m (Inr []) err c = Inl AssertFailed"
proof -
  let ?c0 = "c\<lparr>conn_channel := (conn_channel c)\<lparr>revents := reported, eventHandling := True\<rparr>\<rparr>"
  let ?c1 = "c\<lparr>conn_state := KDisconnected,
    conn_channel := (conn_channel ?c0)\<lparr>events := NoneEvent, addedToLoop := True\<rparr>,
    calls := calls c @ [CallConnection KDisconnected, CallClose]\<rparr>"
  have close: "handleClose io cbs ?c0 = Inr ?c1"
    using assms(1,3-6)
    by (simp add: handleClose_def assertInLoopThread_pass on_channel_def channel_ops_eq invoke_def
        defaultConnectionCallback_def Let_def)
  obtain b where b: "readFd (Inr []) (inputbuffer c) = Inr (0, None, b)"
    using readFd_ok [OF assms(2), of "[]"] buf_invD [OF assms(2)] by auto
  then have again: "handleRead io cbs (Inr []) err ?c1 = Inl AssertFailed"
    using assms(4) by (simp add: handleRead_def handleClose_def assertInLoopThread_pass)
  have "reported AND (POLLIN OR POLLPRI OR POLLRDHUP) \<noteq> 0"
  proof
    assume "reported AND (POLLIN OR POLLPRI OR POLLRDHUP) = 0"
    then have "(reported AND (POLLIN OR POLLPRI OR POLLRDHUP)) AND POLLPRI = 0" by simp
    moreover have "(POLLIN OR POLLPRI OR POLLRDHUP) AND POLLPRI = POLLPRI" by (simp add: poll_defs)
    ultimately show False using assms(12) by (simp only: and.assoc)
  qed
  with close again assms(7-11) show ?thesis
    by (simp add: conn_event_def handleEvent_def upd_channel_def setRevent_def fire_def)
qed

lemma hangup_closes_twice_witness:
  "conn_event 8 (setConnectionCallback (Some defaultConnectionCallback) sample_callbacks) two_bytes (POLLHUP OR POLLPRI)
     (Inr []) 0 (sample_connection\<lparr>conn_state := KConnected,
       conn_channel := (conn_channel sample_connection)\<lparr>events := ReadEvent OR WriteEvernt\<rparr>\<rparr>) = Inl AssertFailed"
  by (rule hangup_closes_twice [OF _ _ _ _ _ _ _ _ refl])
    (use sample_buffer_inv in \<open>simp_all add: sample_connection_def sample_event_loop_def event_loop.defs new_channel_def
      setConnectionCallback_def sample_callbacks_def event_defs poll_defs\<close>)

end
