(* ===== verification/ServerLife.thy ===== *)
theory ServerLife
  imports AcceptPath Teardown ConnectionEvents
begin

text \<open>
  A server from its start to the end of its first connection: the registry of TcpServer
  (network/src/TcpServer.cc), filled by Acceptor::handle_read (network/src/Accepto.cc), and the
  connection object made for one of its entries (network/src/TcpConnection.cc), with the descriptor
  that its Socket (network/src/Socket.cc) closes.
\<close>

section \<open>A connection keeps its descriptor\<close>

lemma moves_fd: "channel_moves ch ch' \<Longrightarrow> ch_fd ch' = ch_fd ch \<and> ch_loop ch' = ch_loop ch \<and>
    eventHandling ch' = eventHandling ch"
  unfolding channel_moves_def
proof (induction rule: rtranclp_induct)
  case (step ch1 ch2)
  then obtain tid this op and l :: connection where "channel_step tid l this op ch1 = Inr ch2" by blast
  then have "ch_fd ch2 = ch_fd ch1 \<and> ch_loop ch2 = ch_loop ch1 \<and> eventHandling ch2 = eventHandling ch1"
    by (cases op) (auto simp: channel_op_defs channel_update_Inr dest: channel_remove_Inr(2))
  with step.IH show ?case by simp
qed simp

definition on_descriptor :: "callbacks \<Rightarrow> int \<Rightarrow> connection \<Rightarrow> bool" where
  "on_descriptor cbs fd c \<longleftrightarrow> cbs_keep cbs leaves_output \<and> ch_fd (conn_channel c) = fd \<and>
     \<not> eventHandling (conn_channel c)"

interpretation odm: machine "conn_step tid cbs wr" "on_descriptor cbs fd" for tid cbs wr fd
  by unfold_locales (auto simp: on_descriptor_def dest!: conn_step_moves dest: moves_fd)

lemma TcpConnection_ctor_descriptor:
  assumes "TcpConnection_ctor opt loop chp nm fd la pa ib ob k = Inr (c, k')" and "cbs_keep cbs leaves_output"
  shows "on_descriptor cbs fd c"
  using assms
  by (auto simp: TcpConnection_ctor_def Let_def on_descriptor_def event_loop.defs channel_setter_defs
      new_channel_def split: option.splits)

section \<open>Properties\<close>

text \<open>C21: The first client that leaves takes the server's listening socket with it: in every run of
  incoming connections, removals and changes of callbacks, for every registered connection and
  every run of the object made for it, when its peer closes, the teardown trips no assert and
  the destructor of the connection closes one descriptor, the one the server listens on; the
  descriptor accepted for the client is not closed.\<close>

theorem teardown_closes_listener:
  assumes "TcpServer_ctor (\<lambda>reuse. Inr a) sloop (Inr text) name opt = Inr s0" and "length text \<le> 51"
    and "run_res (accept_step tid base local_addr) ops s0 = Inr s" and "(key, info) \<in> set (connections s)"
    and "TcpConnection_ctor sockopt loop chp (info_name info) (info_fd info) (info_local info) (info_peer info) ib ob k =
      Inr (c0, k')"
    and "cbs_keep cbs leaves_output" and "run_res (conn_step io cbs wr) cops c0 = Inr c"
    and "conn_state c = KConnected \<or> conn_state c = KDisconnecting" and "buf_inv (inputbuffer c)"
    and "ch_loop (conn_channel c) = loop_this c" and "\<not> eventHanding c"
    and "threadPid c \<noteq> io" and "threadPid base \<noteq> tid" and "connectioncallback cbs = Some f" and "quiet f"
  shows "\<exists>c' s'. peer_close io cbs tid base info (c, s) = Inr (c', s') \<and>
    connections s' = filter (\<lambda>e. fst e \<noteq> info_name info) (connections s) \<and>
    TcpConnection_dtor io c' = Inr [listen_fd a] \<and> acc_closed (server_acceptor s) = acc_closed a"
proof -
  from acc.run_inv [OF TcpServer_ctor_on_listener [OF assms(1,2)] assms(3)] have inv: "on_listener a s" .
  then have reg: "registry_ok s" and fd: "info_fd info = listen_fd a"
    and closed: "acc_closed (server_acceptor s) = acc_closed a"
    using assms(4) by (auto simp: on_listener_def)
  have name: "info_name info \<in> fst ` set (connections s)"
    using reg assms(4) by (force simp: registry_ok_def)
  from odm.run_inv [OF TcpConnection_ctor_descriptor [OF assms(5,6)] assms(7)]
  have ch: "ch_fd (conn_channel c) = listen_fd a" "\<not> eventHandling (conn_channel c)"
    using fd by (simp_all add: on_descriptor_def)
  from closed_by_peer [OF assms(8-10) ch(2) assms(11,12,14,15)] obtain c1 c2 where
    close: "handleRead io (setClosecallback (Some Inr) cbs) (Inr []) 0 c = Inr c1"
      "connectDestroyed io (setClosecallback (Some Inr) cbs) c1 = Inr c2"
    and dtor: "TcpConnection_dtor io c2 = Inr [ch_fd (conn_channel c)]" by blast
  obtain s2 where "removeConnectionInLoop tid base info (removeConnection info s) = Inr s2"
    "connections s2 = filter (\<lambda>e. fst e \<noteq> info_name info) (connections s)"
    using removal_goes_through [OF reg name assms(13)] by blast
  with close have "peer_close io cbs tid base info (c, s) = Inr (c2, s2) \<and>
      connections s2 = filter (\<lambda>e. fst e \<noteq> info_name info) (connections s)"
    by (simp add: peer_close_def)
  with dtor ch(1) closed show ?thesis by auto
qed

lemma teardown_closes_listener_witness:
  "\<exists>s info c c' s'. run_res (accept_step 8 sample_loop (\<lambda>fd. []))
      [Other (Start (\<lambda>i. 0)), Incoming 7 [1] 0, Incoming 8 [2] 0] sample_server = Inr s \<and>
    peer_close 8 sample_callbacks 8 sample_loop info (c, s) = Inr (c', s') \<and>
    TcpConnection_dtor 8 c' = Inr [listen_fd sample_acceptor]"
proof -
  obtain s where run: "run_res (accept_step 8 sample_loop (\<lambda>fd. []))
      [Other (Start (\<lambda>i. 0)), Incoming 7 [1] 0, Incoming 8 [2] 0] sample_server = Inr s"
    and two: "length (connections s) = 2" by (rule sample_accept_run)
  from two obtain key info where e: "(key, info) \<in> set (connections s)" by (cases "connections s") auto
  obtain c0 where ctor: "TcpConnection_ctor (\<lambda>level name v len k. (0, k)) (Some sample_event_loop) 1 (info_name info)
      (info_fd info) (info_local info) (info_peer info) sample_buffer sample_buffer () = Inr (c0, ())"
    and c0: "conn_state c0 = KConnecting" "threadPid c0 = 7" "loop_this c0 = 0" "\<not> eventHanding c0"
      "inputbuffer c0 = sample_buffer" "ch_loop (conn_channel c0) = 0"
    by (simp add: TcpConnection_ctor_def Let_def event_loop.defs sample_event_loop_def channel_setter_defs new_channel_def)
  have keep: "cbs_keep sample_callbacks leaves_output"
    by (rule sample_callbacks_keep) (simp add: leaves_output_def)
  obtain c where up: "run_res (conn_step 8 sample_callbacks two_bytes) [OEstablished] c0 = Inr c"
    and c: "conn_state c = KConnected" "threadPid c \<noteq> 8" "\<not> eventHanding c" "buf_inv (inputbuffer c)"
      "ch_loop (conn_channel c) = loop_this c"
    using c0 by (simp add: connectEstablished_def assertInLoopThread_pass on_channel_def channel_ops_eq invoke_def
        sample_callbacks_def)
  have cb: "connectioncallback sample_callbacks = Some Inr" "quiet Inr"
    by (simp_all add: sample_callbacks_def quiet_def)
  have pid: "threadPid sample_loop \<noteq> 8" by (simp add: sample_loop_def)
  from teardown_closes_listener [OF sample_server_ctor _ run e ctor keep up disjI1 [OF c(1)] c(4,5,3,2) pid cb] run
  show ?thesis by fastforce
qed

end
