(* ===== verification/ServerSystem.thy ===== *)
theory ServerSystem
  imports ServerLife
begin

text \<open>
  A server with all its connections and all its loops at once: arrivals at the acceptor
  (network/src/Accepto.cc), the functors that TcpServer and TcpConnection ask the loops to run
  (network/src/TcpServer.cc, network/src/TcpConnection.cc), the events of the connections and the calls of
  the user, in any order.

  \<^item> \<open>world\<close> is what does not change: the threads that run the functors of the server's loop and of
    the other loops, the loops, what the user's callbacks do, the answers of the system.
  \<^item> \<open>system\<close> is the server, whose \<open>requests\<close> are here the functors not yet run, and the connection
    objects by name; \<open>gone\<close> and \<open>closed_fds\<close> record the objects destroyed and the
    descriptors their destructors closed.
  \<^item> A loop runs its functors in the order queued; between loops there is no order.
  \<^item> The last reference to a connection is the functor of \<open>connectDestroyed\<close>: the user keeps none.
\<close>

section \<open>One connection\<close>

text \<open>What the operations of a connection leave alone of its loop, and callbacks that do so too.\<close>

definition steady :: "connection \<Rightarrow> connection \<Rightarrow> bool" where
  "steady c c' \<longleftrightarrow> threadPid c' = threadPid c \<and> loop_this c' = loop_this c \<and> eventHanding c' = eventHanding c"

definition gentle :: "connection \<Rightarrow> connection \<Rightarrow> bool" where
  "gentle c c' \<longleftrightarrow> leaves_output c c' \<and> keeps_life c c' \<and> steady c c'"

lemma gentle_keeps:
  assumes "cbs_keep cbs gentle"
  shows "cbs_keep cbs leaves_output" and "cbs_keep cbs keeps_life" and "cbs_keep cbs steady"
  using assms by (auto simp: cbs_keep_def gentle_def)

lemma steady_refl [simp]: "steady c c"
  by (simp add: steady_def)

lemma steady_trans: "steady c d \<Longrightarrow> steady d e \<Longrightarrow> steady c e"
  by (simp add: steady_def)

lemma steady_queue [simp]: "steady c (queueInLoop tid t c)"
  by (simp add: steady_def queueInLoop_def wakeup_def Let_def)

lemma steady_on_channel: "on_channel f c = Inr c' \<Longrightarrow> steady c c'"
  by (auto simp: on_channel_Inr steady_def)

lemma invoke_steady:
  assumes "cbs_keep cbs steady" and "invoke what cb c = Inr c'"
    and "cb = connectioncallback cbs \<or> cb = messagecallback cbs \<or> cb = closecallback cbs \<or>
      cb = writecompletecallback cbs"
  shows "steady c c'"
proof -
  from assms(2) obtain f where f: "cb = Some f" and run: "f (c\<lparr>calls := calls c @ [what]\<rparr>) = Inr c'"
    by (auto simp: invoke_Inr)
  have "steady (c\<lparr>calls := calls c @ [what]\<rparr>) c'"
    by (rule cbs_keepD [where f = f, OF assms(1) run]) (use assms(3) f in auto)
  then show ?thesis by (simp add: steady_def)
qed

lemma handleClose_steady:
  assumes "cbs_keep cbs steady" and "handleClose tid cbs c = Inr c'"
  shows "steady c c'"
proof -
  let ?c1 = "c\<lparr>conn_state := KDisconnected\<rparr>"
  from assms(2) obtain c2 c3 where c2: "on_channel (disableall tid ?c1) ?c1 = Inr c2"
    and c3: "invoke (CallConnection (conn_state c2)) (connectioncallback cbs) c2 = Inr c3"
    and c': "invoke CallClose (closecallback cbs) c3 = Inr c'"
    by (auto simp: handleClose_def Let_def bind_res_eq_Inr)
  from steady_on_channel [OF c2] have "steady c c2" by (simp add: steady_def)
  with invoke_steady [OF assms(1) c3] invoke_steady [OF assms(1) c'] show ?thesis by (auto intro: steady_trans)
qed

lemma steady_upd [simp]:
  "steady c (c'\<lparr>conn_state := st\<rparr>) = steady c c'" "steady c (c'\<lparr>conn_channel := ch\<rparr>) = steady c c'"
  "steady c (c'\<lparr>inputbuffer := b\<rparr>) = steady c c'" "steady c (c'\<lparr>outputbuffer := b\<rparr>) = steady c c'"
  "steady c (c'\<lparr>accepted := m\<rparr>) = steady c c'" "steady c (c'\<lparr>sock_sent := m\<rparr>) = steady c c'"
  "steady c (c'\<lparr>sock_shut := p\<rparr>) = steady c c'" "steady c (c'\<lparr>reading := p\<rparr>) = steady c c'"
  "steady (c\<lparr>conn_state := st\<rparr>) c' = steady c c'" "steady (c\<lparr>inputbuffer := b\<rparr>) c' = steady c c'"
  "steady (c\<lparr>outputbuffer := b\<rparr>) c' = steady c c'" "steady (c\<lparr>accepted := m\<rparr>) c' = steady c c'"
  "steady (c\<lparr>sock_sent := m\<rparr>) c' = steady c c'" "steady (queueInLoop tid t c) c' = steady c c'"
  by (simp_all add: steady_def queueInLoop_def wakeup_def Let_def)

lemma send_rest_steady:
  assumes "send_rest tid rest c = Inr c'"
  shows "steady c c'"
proof (cases "rest = []")
  case False
  with assms obtain b where "(if \<not> isWriting (conn_channel (c\<lparr>outputbuffer := b\<rparr>))
      then on_channel (enableWriting tid (c\<lparr>outputbuffer := b\<rparr>)) (c\<lparr>outputbuffer := b\<rparr>)
      else Inr (c\<lparr>outputbuffer := b\<rparr>)) = Inr c'"
    unfolding send_rest_def Let_def by (auto elim: bind_res_InrE)
  then show ?thesis by (auto dest: steady_on_channel split: if_splits)
qed (use assms in \<open>simp add: send_rest_def\<close>)

lemma sendInLoop_steady:
  assumes "sendInLoop tid cbs wr m c = Inr c'"
  shows "steady c c'"
proof (cases "conn_state c = KDisconnected")
  case True
  with assms show ?thesis by (auto simp: sendInLoop_def bind_res_eq_Inr)
next
  case False
  have "threadPid c \<noteq> tid" using assms by (auto simp: sendInLoop_def bind_res_eq_Inr)
  from sendInLoop_shape [OF this False, of cbs wr m] obtain rest c1
    where "sendInLoop tid cbs wr m c = send_rest tid rest c1" "steady c c1" by (auto simp: steady_def)
  with assms send_rest_steady [of tid rest c1 c'] show ?thesis by (auto intro: steady_trans)
qed

lemma shutdownInLoop_steady: "shutdownInLoop tid c = Inr c' \<Longrightarrow> steady c c'"
  by (auto simp: shutdownInLoop_def bind_res_eq_Inr split: if_splits)

lemma handleWrite_steady:
  assumes "handleWrite tid cbs wr c = Inr c'"
  shows "steady c c'"
  using assms
proof (cases rule: handleWrite_cases)
  case (flushed b c2 c3)
  from steady_on_channel [OF flushed(3)] have "steady c c3" by (simp add: flushed(4) steady_def queueInLoop_def wakeup_def Let_def)
  with flushed(5) shutdownInLoop_steady [of tid c3 c'] show ?thesis by (auto intro: steady_trans)
qed simp_all

lemma handleRead_steady:
  assumes keep: "cbs_keep cbs steady" and run: "handleRead tid cbs r e c = Inr c'"
  shows "steady c c'"
proof -
  from run obtain n en b where "readFd r (inputbuffer c) = Inr (n, en, b)"
    and rest: "(if n > 0 then invoke CallMessage (messagecallback cbs) (c\<lparr>inputbuffer := b\<rparr>)
     else if n = 0 then handleClose tid cbs (c\<lparr>inputbuffer := b\<rparr>)
     else handleError e (c\<lparr>inputbuffer := b\<rparr>)) = Inr c'"
    by (auto simp: handleRead_def Let_def bind_res_eq_Inr)
  from rest show ?thesis
    using invoke_steady [OF keep, of CallMessage "messagecallback cbs" "c\<lparr>inputbuffer := b\<rparr>" c']
      handleClose_steady [OF keep, of tid "c\<lparr>inputbuffer := b\<rparr>" c']
    by (auto simp: handleError_def split: if_splits)
qed

text \<open>
  What happens to a connection between its establishment and its destruction: calls and tasks
  at any time, handlers only while the channel watches for something. Turning
  reading on is left out; what it does to a connection that is being closed is the
  theorem \<open>late_start_read_aborts\<close>.
\<close>

definition permitted :: "connection \<Rightarrow> conn_op \<Rightarrow> bool" where
  "permitted c op \<longleftrightarrow> op \<notin> {OEstablished, ODestroyed, OStartRead, OTask TStartRead} \<and>
     (handler_op op \<longrightarrow> \<not> isNoneEvent (conn_channel c))"

lemma exec_task_steady:
  assumes keep: "cbs_keep cbs steady" and "exec_task tid cbs wr t c = Inr c'"
  shows "steady c c'"
  using assms(2) sendInLoop_steady shutdownInLoop_steady handleClose_steady [OF keep]
    invoke_steady [OF keep, of CallWriteComplete "writecompletecallback cbs" c c']
  by (cases t) (auto simp: exec_task_def forceCloseInLoop_def startReadInLoop_def stopReadInLoop_def
      bind_res_eq_Inr dest: steady_on_channel split: if_splits)

lemma runInLoop_steady:
  assumes "cbs_keep cbs steady" and "runInLoop tid (exec_task tid cbs wr) t c = Inr c'"
  shows "steady c c'"
  using assms exec_task_steady [OF assms(1), of tid wr t c c'] by (auto simp: runInLoop_def split: if_splits)

lemma conn_step_steady:
  assumes keep: "cbs_keep cbs steady" and run: "conn_step tid cbs wr op c = Inr c'"
    and "op \<noteq> OEstablished" and "op \<noteq> ODestroyed"
  shows "steady c c'"
proof (cases op)
  case (OSend buf)
  from run OSend obtain b where b: "send tid cbs wr buf c = Inr (b, c')"
    by (auto simp: bind_res_eq_Inr)
  then consider "c' = c" | m where "sendInLoop tid cbs wr m c = Inr c'"
    | m where "runInLoop tid (exec_task tid cbs wr) (TSend m) c = Inr c'"
    by (auto simp: send_def bind_res_eq_Inr split: if_splits)
  then show ?thesis by cases (auto dest: sendInLoop_steady runInLoop_steady [OF keep])
next
  case OShutdown
  with run show ?thesis
    using runInLoop_steady [OF keep, of tid wr TShutdown "c\<lparr>conn_state := KDisconnecting\<rparr>" c']
    by (auto simp: shutdown_def split: if_splits)
next
  case OForceClose
  with run show ?thesis by (auto simp: forceClose_def steady_def queueInLoop_def wakeup_def Let_def split: if_splits)
qed (use run assms(3,4) exec_task_steady [OF keep] runInLoop_steady [OF keep] handleRead_steady [OF keep]
    handleWrite_steady handleClose_steady [OF keep]
    in \<open>auto simp: startRead_def stopRead_def handleError_def\<close>)

text \<open>Closing: what handleClose leaves behind.\<close>

lemma handleClose_result:
  assumes keep: "cbs_keep cbs gentle" and run: "handleClose tid cbs c = Inr c'"
  shows "conn_state c' = KDisconnected" and "isNoneEvent (conn_channel c')"
    and "calls c' = calls c @ [DOWN, CallClose]"
proof -
  let ?c1 = "c\<lparr>conn_state := KDisconnected\<rparr>"
  from run obtain c2 c3 where c2: "on_channel (disableall tid ?c1) ?c1 = Inr c2"
    and c3: "invoke (CallConnection (conn_state c2)) (connectioncallback cbs) c2 = Inr c3"
    and c': "invoke CallClose (closecallback cbs) c3 = Inr c'"
    by (auto simp: handleClose_def Let_def bind_res_eq_Inr)
  note keeps = gentle_keeps [OF keep]
  have ch: "conn_channel c' = conn_channel c2"
    using invoke_moves [OF keeps(1) c3] invoke_moves [OF keeps(1) c'] by simp
  from c2 have s2: "conn_state c2 = KDisconnected" "calls c2 = calls c" "isNoneEvent (conn_channel c2)"
    by (auto simp: on_channel_Inr disableall_def channel_update_Inr isNoneEvent_def)
  with invoke_life [OF keeps(2) c3] have s3: "conn_state c3 = KDisconnected" "calls c3 = calls c @ [DOWN]"
    by (auto simp: keeps_life_def DOWN_def)
  with invoke_life [OF keeps(2) c'] ch s2(3) show "conn_state c' = KDisconnected"
    and "isNoneEvent (conn_channel c')" and "calls c' = calls c @ [DOWN, CallClose]"
    by (auto simp: keeps_life_def)
qed

text \<open>The connection goes on, or it has just been closed.\<close>

definition goes_on :: "connection \<Rightarrow> connection \<Rightarrow> bool" where
  "goes_on c c' \<longleftrightarrow> life_log c' = life_log c \<and>
     (conn_state c' = conn_state c \<or> conn_state c = KConnected \<and> conn_state c' = KDisconnecting)"

definition just_closed :: "connection \<Rightarrow> connection \<Rightarrow> bool" where
  "just_closed c c' \<longleftrightarrow> conn_state c \<noteq> KDisconnected \<and> conn_state c' = KDisconnected \<and>
     isNoneEvent (conn_channel c') \<and> life_log c' = life_log c @ [DOWN, CallClose]"

lemma goes_on_same: "calls c' = calls c \<Longrightarrow> conn_state c' = conn_state c \<Longrightarrow> goes_on c c'"
  by (simp add: goes_on_def life_log_def)

lemma handleClose_closes:
  assumes "cbs_keep cbs gentle" and "handleClose tid cbs c = Inr c'"
  shows "just_closed c c'"
proof -
  have "conn_state c \<noteq> KDisconnected" using assms(2) by (auto simp: handleClose_def bind_res_eq_Inr)
  with handleClose_result [OF assms] show ?thesis
    by (simp add: just_closed_def life_log_def DOWN_def)
qed

lemma invoke_goes_on:
  assumes "cbs_keep cbs gentle" and "invoke what cb c = Inr c'" and "\<not> life_call what"
    and "cb = connectioncallback cbs \<or> cb = messagecallback cbs \<or> cb = closecallback cbs \<or>
      cb = writecompletecallback cbs"
  shows "goes_on c c'"
  using invoke_life [OF gentle_keeps(2) [OF assms(1)] assms(2,4)] assms(3)
  by (auto simp: keeps_life_def goes_on_def life_log_def)

lemma handleRead_goes_on:
  assumes keep: "cbs_keep cbs gentle" and run: "handleRead tid cbs r e c = Inr c'"
  shows "goes_on c c' \<or> just_closed c c'"
proof -
  from run obtain n en b where "readFd r (inputbuffer c) = Inr (n, en, b)"
    and rest: "(if n > 0 then invoke CallMessage (messagecallback cbs) (c\<lparr>inputbuffer := b\<rparr>)
     else if n = 0 then handleClose tid cbs (c\<lparr>inputbuffer := b\<rparr>)
     else handleError e (c\<lparr>inputbuffer := b\<rparr>)) = Inr c'"
    by (auto simp: handleRead_def Let_def bind_res_eq_Inr)
  let ?c1 = "c\<lparr>inputbuffer := b\<rparr>"
  from rest consider "invoke CallMessage (messagecallback cbs) ?c1 = Inr c'" | "handleClose tid cbs ?c1 = Inr c'"
    | "c' = ?c1" by (auto simp: handleError_def split: if_splits)
  then show ?thesis
  proof cases
    case 1
    from invoke_goes_on [OF keep 1] show ?thesis by (simp add: goes_on_def life_log_def)
  next
    case 2
    from handleClose_closes [OF keep 2] show ?thesis by (simp add: just_closed_def life_log_def)
  qed (simp add: goes_on_def life_log_def)
qed

lemma exec_task_goes_on:
  assumes keep: "cbs_keep cbs gentle" and run: "exec_task tid cbs wr t c = Inr c'"
  shows "goes_on c c' \<or> just_closed c c'"
proof (cases t)
  case (TSend m)
  with run sendInLoop_life [of tid cbs wr m c c'] show ?thesis by (simp add: exec_task_def goes_on_same)
next
  case TShutdown
  with run shutdownInLoop_life [of tid c c'] show ?thesis by (simp add: exec_task_def goes_on_same)
next
  case TForceClose
  with run handleClose_closes [OF keep, of tid c c'] show ?thesis
    by (auto simp: exec_task_def forceCloseInLoop_def bind_res_eq_Inr goes_on_same split: if_splits)
next
  case TWriteComplete
  with run have "invoke CallWriteComplete (writecompletecallback cbs) c = Inr c'"
    by (simp add: exec_task_def)
  from invoke_goes_on [OF keep this] show ?thesis by simp
qed (use run in \<open>auto simp: exec_task_def startReadInLoop_def stopReadInLoop_def bind_res_eq_Inr
    on_channel_Inr goes_on_def life_log_def split: if_splits\<close>)

lemma runInLoop_goes_on:
  assumes "cbs_keep cbs gentle" and "runInLoop tid (exec_task tid cbs wr) t c = Inr c'"
  shows "goes_on c c' \<or> just_closed c c'"
  using assms exec_task_goes_on [OF assms(1), of tid wr t c c']
  by (auto simp: runInLoop_def goes_on_same split: if_splits)

lemma goes_on_closing:
  assumes "goes_on (c\<lparr>conn_state := KDisconnecting\<rparr>) c' \<or> just_closed (c\<lparr>conn_state := KDisconnecting\<rparr>) c'"
    and "conn_state c = KConnected"
  shows "goes_on c c' \<or> just_closed c c'"
  using assms by (auto simp: goes_on_def just_closed_def life_log_def)

lemma conn_step_goes_on:
  assumes keep: "cbs_keep cbs gentle" and run: "conn_step tid cbs wr op c = Inr c'"
    and op: "op \<noteq> OEstablished" "op \<noteq> ODestroyed" and up: "conn_state c \<noteq> KConnecting"
  shows "goes_on c c' \<or> just_closed c c'"
proof (cases op)
  case (OSend buf)
  from run OSend obtain b where b: "send tid cbs wr buf c = Inr (b, c')"
    by (auto simp: bind_res_eq_Inr)
  then consider "c' = c" | m where "sendInLoop tid cbs wr m c = Inr c'"
    | m where "runInLoop tid (exec_task tid cbs wr) (TSend m) c = Inr c'"
    by (auto simp: send_def bind_res_eq_Inr split: if_splits)
  then show ?thesis
    by cases (auto simp: goes_on_same sendInLoop_life dest: runInLoop_goes_on [OF keep])
next
  case OShutdown
  show ?thesis
  proof (cases "conn_state c = KConnected")
    case True
    with run OShutdown have "runInLoop tid (exec_task tid cbs wr) TShutdown (c\<lparr>conn_state := KDisconnecting\<rparr>) = Inr c'"
      by (simp add: shutdown_def)
    from goes_on_closing [OF runInLoop_goes_on [OF keep this] True] show ?thesis .
  qed (use run OShutdown in \<open>simp add: shutdown_def goes_on_same\<close>)
next
  case OForceClose
  with run up show ?thesis by (auto simp: forceClose_def goes_on_def life_log_def split: if_splits)
next
  case OWrite
  with run handleWrite_life [of tid cbs wr c c'] show ?thesis by (simp add: goes_on_same)
qed (use run op exec_task_goes_on [OF keep] runInLoop_goes_on [OF keep] handleRead_goes_on [OF keep]
    handleClose_closes [OF keep] in \<open>auto simp: startRead_def stopRead_def handleError_def goes_on_same\<close>)

text \<open>A closed connection is deaf to everything but a start of reading.\<close>

lemma exec_task_none:
  assumes keep: "cbs_keep cbs gentle" and run: "exec_task tid cbs wr t c = Inr c'"
    and "conn_state c = KDisconnected" and none: "isNoneEvent (conn_channel c)" and "t \<noteq> TStartRead"
  shows "isNoneEvent (conn_channel c')"
proof -
  have "\<not> isReading (conn_channel c)" using none by (simp add: isNoneEvent_def isReading_def NoneEvent_def)
  moreover have "conn_channel c' = conn_channel c" if "t = TWriteComplete"
  proof -
    from run that have "invoke CallWriteComplete (writecompletecallback cbs) c = Inr c'" by (simp add: exec_task_def)
    from invoke_moves [OF gentle_keeps(1) [OF keep] this] show ?thesis by simp
  qed
  ultimately have "conn_channel c' = conn_channel c"
    using run assms(3,5)
    by (cases t) (auto simp: exec_task_def sendInLoop_def shutdownInLoop_def forceCloseInLoop_def stopReadInLoop_def
        bind_res_eq_Inr split: if_splits)
  with none show ?thesis by simp
qed

lemma conn_step_none:
  assumes keep: "cbs_keep cbs gentle" and run: "conn_step tid cbs wr op c = Inr c'"
    and "permitted c op" and c: "conn_state c = KDisconnected" "isNoneEvent (conn_channel c)"
  shows "isNoneEvent (conn_channel c')"
proof (cases op)
  case (OTask t)
  with run exec_task_none [OF keep _ c, of tid wr t c'] assms(3) show ?thesis by (auto simp: permitted_def)
next
  case OStopRead
  with run exec_task_none [OF keep _ c, of tid wr TStopRead c'] c(2) show ?thesis
    by (auto simp: stopRead_def runInLoop_def split: if_splits)
qed (use assms in \<open>auto simp: permitted_def send_def shutdown_def forceClose_def bind_res_eq_Inr\<close>)

lemma permitted_steps:
  assumes keep: "cbs_keep cbs gentle" and run: "conn_step tid cbs wr op c = Inr c'" and ok: "permitted c op"
    and up: "conn_state c \<noteq> KConnecting"
  shows "steady c c'" and "goes_on c c' \<or> just_closed c c'"
    and "ch_fd (conn_channel c') = ch_fd (conn_channel c)" "ch_loop (conn_channel c') = ch_loop (conn_channel c)"
      "eventHandling (conn_channel c') = eventHandling (conn_channel c)"
proof -
  have op: "op \<noteq> OEstablished" "op \<noteq> ODestroyed" using ok by (auto simp: permitted_def)
  show "steady c c'" by (rule conn_step_steady [OF gentle_keeps(3) [OF keep] run op])
  show "goes_on c c' \<or> just_closed c c'" by (rule conn_step_goes_on [OF keep run op up])
  from moves_fd [OF conn_step_moves [OF gentle_keeps(1) [OF keep] run]]
  show "ch_fd (conn_channel c') = ch_fd (conn_channel c)" "ch_loop (conn_channel c') = ch_loop (conn_channel c)"
    "eventHandling (conn_channel c') = eventHandling (conn_channel c)" by simp_all
qed

section \<open>The system\<close>

text \<open>
  \<open>w_tid\<close> and \<open>w_io\<close> are the threads that run the functors of the server's loop \<open>w_base\<close> and of the loops
  \<open>w_loops\<close> of the connections. \<open>w_cbs\<close> is what the callbacks given to the server do, \<open>w_wr\<close>, \<open>w_local\<close>,
  \<open>w_listen\<close> and \<open>w_opt\<close> answer write, getsockname, listen and setsockopt; \<open>w_buf\<close> is a new buffer.
\<close>

record 'k world =
  w_tid :: pid
  w_io :: pid
  w_base :: "server_task event_loop"
  w_loops :: "loop_ptr \<Rightarrow> task event_loop"
  w_cbs :: "user_callbacks \<Rightarrow> callbacks"
  w_wr :: write_result
  w_local :: "int \<Rightarrow> sockaddr"
  w_listen :: int
  w_opt :: "'k setsockopt"
  w_buf :: buffer

record 'k system =
  sys_server :: server
  objs :: "string \<Rightarrow> (conn_info \<times> connection) option"
  sockets :: 'k
  gone :: "(conn_info \<times> connection) list"
  closed_fds :: "int list"

definition new_system :: "server \<Rightarrow> 'k \<Rightarrow> 'k system" where
  "new_system s k = \<lparr>sys_server = s, objs = Map.empty, sockets = k, gone = [], closed_fds = []\<rparr>"

text \<open>
  The callbacks of a connection: the server's own, TcpServer::removeConnection, leaves the connection
  alone, is the last thing handleClose does, and comes after it (as in theory Teardown).
\<close>

definition obj_cbs :: "'k world \<Rightarrow> conn_info \<Rightarrow> callbacks" where
  "obj_cbs W info = setClosecallback (Some Inr) (w_cbs W (info_callbacks info))"

definition put :: "string \<Rightarrow> conn_info \<Rightarrow> connection \<Rightarrow> 'k system \<Rightarrow> 'k system" where
  "put n info c S = S\<lparr>objs := (objs S)(n \<mapsto> (info, c))\<rparr>"

definition with_obj ::
  "string \<Rightarrow> 'k system \<Rightarrow> (conn_info \<Rightarrow> connection \<Rightarrow> 'k system res) \<Rightarrow> 'k system res" where
  "with_obj n S f = (case objs S n of None \<Rightarrow> Inl NullDeref | Some (info, c) \<Rightarrow> f info c)"

text \<open>An arrival: newConnection registers the connection it has made.\<close>

definition arrive :: "'k world \<Rightarrow> int \<Rightarrow> sockaddr \<Rightarrow> int \<Rightarrow> channel_ptr \<Rightarrow> 'k system \<Rightarrow> 'k system res" where
  "arrive W fd peer errno chp S =
     bind_res (server_accept (w_tid W) (w_base W) (w_local W) fd peer errno (sys_server S)) (\<lambda>s.
     case drop (length (connections (sys_server S))) (connections s) of
       [] \<Rightarrow> Inr (S\<lparr>sys_server := s\<rparr>)
     | (n, info) # _ \<Rightarrow>
         bind_res (TcpConnection_ctor (w_opt W) (Some (w_loops W (info_loop info))) chp n (info_fd info)
             (info_local info) (info_peer info) (w_buf W) (w_buf W) (sockets S)) (\<lambda>(c, k).
         Inr (put n info c (S\<lparr>sys_server := s, sockets := k\<rparr>))))"

text \<open>The functors that the server and its connections queue.\<close>

fun run_request :: "'k world \<Rightarrow> server_task \<Rightarrow> 'k system \<Rightarrow> 'k system res" where
  "run_request W TListen S =
     bind_res (server_listen (w_tid W) (w_base W) (w_listen W) (sys_server S)) (\<lambda>s. Inr (S\<lparr>sys_server := s\<rparr>))"
| "run_request W (TEstablished n) S = with_obj n S (\<lambda>info c.
     bind_res (connectEstablished (w_io W) (obj_cbs W info) c) (\<lambda>c1. Inr (put n info c1 S)))"
| "run_request W (TRemove n) S = with_obj n S (\<lambda>info c.
     bind_res (removeConnectionInLoop (w_tid W) (w_base W) info (sys_server S)) (\<lambda>s. Inr (S\<lparr>sys_server := s\<rparr>)))"
| "run_request W (TDestroyed n) S = with_obj n S (\<lambda>info c.
     bind_res (connectDestroyed (w_io W) (obj_cbs W info) c) (\<lambda>c1.
     bind_res (TcpConnection_dtor (w_io W) c1) (\<lambda>fds.
     Inr (S\<lparr>objs := (objs S)(n := None), gone := gone S @ [(info, c1)], closed_fds := closed_fds S @ fds\<rparr>))))"

text \<open>An event of a connection or a call of the user; a close asks the server to remove the connection.\<close>

definition use_conn :: "'k world \<Rightarrow> string \<Rightarrow> conn_op \<Rightarrow> 'k system \<Rightarrow> 'k system res" where
  "use_conn W n op S = with_obj n S (\<lambda>info c.
     bind_res (conn_step (w_io W) (obj_cbs W info) (w_wr W) op c) (\<lambda>c1.
     let S1 = put n info c1 S in
     Inr (if conn_state c \<noteq> KDisconnected \<and> conn_state c1 = KDisconnected
          then S1\<lparr>sys_server := removeConnection info (sys_server S)\<rparr> else S1)))"

text \<open>The functor a loop runs next, and the functors that remain.\<close>

fun take_request ::
  "loop_ptr \<Rightarrow> (loop_ptr \<times> server_task) list \<Rightarrow> (server_task \<times> (loop_ptr \<times> server_task) list) option" where
  "take_request l [] = None"
| "take_request l (q # qs) =
     (if fst q = l then Some (snd q, qs)
      else map_option (\<lambda>(t, rest). (t, q # rest)) (take_request l qs))"

datatype sys_op = Arrive int sockaddr int channel_ptr | RunNext loop_ptr | Use string conn_op

fun sys_step :: "'k world \<Rightarrow> sys_op \<Rightarrow> 'k system \<Rightarrow> 'k system res" where
  "sys_step W (Arrive fd peer errno chp) S = arrive W fd peer errno chp S"
| "sys_step W (RunNext l) S =
     (case take_request l (requests (sys_server S)) of
        None \<Rightarrow> Inr S
      | Some (t, rest) \<Rightarrow> run_request W t (S\<lparr>sys_server := (sys_server S)\<lparr>requests := rest\<rparr>\<rparr>))"
| "sys_step W (Use n op) S = use_conn W n op S"

text \<open>
  What can happen: arrivals while the acceptor listens and its counter is in range, and to a connection
  what is permitted once the user has been told of it.
\<close>

fun sys_enabled :: "sys_op \<Rightarrow> 'k system \<Rightarrow> bool" where
  "sys_enabled (Arrive fd peer errno chp) S \<longleftrightarrow>
     isReading (acc_channel (server_acceptor (sys_server S))) \<and> nxtConnId (sys_server S) < 2 ^ 31"
| "sys_enabled (RunNext l) S = True"
| "sys_enabled (Use n op) S \<longleftrightarrow>
     (case objs S n of None \<Rightarrow> False | Some (info, c) \<Rightarrow> UP \<in> set (calls c) \<and> permitted c op)"

inductive sys_reach :: "'k world \<Rightarrow> 'k system \<Rightarrow> 'k system \<Rightarrow> bool" for W S0 where
  start: "sys_reach W S0 S0"
| step: "sys_reach W S0 S \<Longrightarrow> sys_enabled op S \<Longrightarrow> sys_step W op S = Inr S' \<Longrightarrow> sys_reach W S0 S'"

section \<open>The invariant\<close>

text \<open>The loops belong to other threads than those that run the functors (what the inverted check asks
  for), and the callbacks are there, return, and do not touch what is not theirs.\<close>

definition world_ok :: "'k world \<Rightarrow> bool" where
  "world_ok W \<longleftrightarrow> threadPid (w_base W) \<noteq> w_tid W \<and> 0 \<le> w_listen W \<and>
     (\<forall>l. loop_this (w_loops W l) = l \<and> threadPid (w_loops W l) \<noteq> w_io W \<and> \<not> eventHanding (w_loops W l)) \<and>
     (\<forall>u. cbs_keep (w_cbs W u) gentle \<and>
        (\<exists>f. connectioncallback (w_cbs W u) = Some f \<and> (\<forall>c. \<exists>c'. f c = Inr c')))"

fun about :: "string \<Rightarrow> server_task \<Rightarrow> bool" where
  "about n TListen = False"
| "about n (TEstablished m) = (m = n)"
| "about n (TDestroyed m) = (m = n)"
| "about n (TRemove m) = (m = n)"

definition pending :: "string \<Rightarrow> server \<Rightarrow> (loop_ptr \<times> server_task) list" where
  "pending n s = filter (\<lambda>q. about n (snd q)) (requests s)"

definition placed :: "'k world \<Rightarrow> conn_info \<Rightarrow> connection \<Rightarrow> bool" where
  "placed W info c \<longleftrightarrow> threadPid c \<noteq> w_io W \<and> ch_loop (conn_channel c) = loop_this c \<and> \<not> eventHanding c \<and>
     \<not> eventHandling (conn_channel c) \<and> ch_fd (conn_channel c) = info_fd info"

text \<open>The four phases of a connection: fresh, open, closed and forgotten by the server.\<close>

definition phase :: "server \<Rightarrow> conn_info \<Rightarrow> connection \<Rightarrow> bool" where
  "phase s info c \<longleftrightarrow> (let n = info_name info; registered = (n, info) \<in> set (connections s) in
     case conn_state c of
       KConnecting \<Rightarrow> life_log c = [] \<and> registered \<and> pending n s = [(info_loop info, TEstablished n)]
     | KConnected \<Rightarrow> life_log c = [UP] \<and> registered \<and> pending n s = []
     | KDisconnecting \<Rightarrow> life_log c = [UP] \<and> registered \<and> pending n s = []
     | KDisconnected \<Rightarrow> life_log c = [UP, DOWN, CallClose] \<and> isNoneEvent (conn_channel c) \<and>
         (registered \<and> pending n s = [(server_loop s, TRemove n)] \<or>
          n \<notin> fst ` set (connections s) \<and> pending n s = [(info_loop info, TDestroyed n)]))"

definition known_name :: "server \<Rightarrow> string \<Rightarrow> bool" where
  "known_name s n \<longleftrightarrow> (\<exists>i. 1 \<le> i \<and> i < nxtConnId s \<and> n = connection_name (server_name s) (ipPort s) i)"

text \<open>What the system knows under one name: nothing at all, or a connection in its phase.\<close>

fun slot_ok :: "'k world \<Rightarrow> acceptor \<Rightarrow> server \<Rightarrow> string \<Rightarrow> (conn_info \<times> connection) option \<Rightarrow> bool" where
  "slot_ok W a s n None \<longleftrightarrow> n \<notin> fst ` set (connections s) \<and> pending n s = []"
| "slot_ok W a s n (Some (info, c)) \<longleftrightarrow> info_name info = n \<and> info_fd info = listen_fd a \<and> known_name s n \<and>
     placed W info c \<and> phase s info c"

definition sys_ok :: "'k world \<Rightarrow> acceptor \<Rightarrow> 'k system \<Rightarrow> bool" where
  "sys_ok W a S \<longleftrightarrow> on_listener a (sys_server S) \<and>
     ch_loop (acc_channel (server_acceptor (sys_server S))) = loop_this (w_base W) \<and>
     (\<forall>n. slot_ok W a (sys_server S) n (objs S n)) \<and>
     (\<forall>(info, c) \<in> set (gone S). life_log c = [UP, DOWN, CallClose]) \<and>
     closed_fds S = replicate (length (gone S)) (listen_fd a)"

text \<open>A name that a step of the server does not concern.\<close>

definition same_for :: "string \<Rightarrow> server \<Rightarrow> server \<Rightarrow> bool" where
  "same_for n s s' \<longleftrightarrow> pending n s' = pending n s \<and> server_loop s' = server_loop s \<and>
     server_name s' = server_name s \<and> ipPort s' = ipPort s \<and> nxtConnId s \<le> nxtConnId s' \<and>
     (\<forall>i. (n, i) \<in> set (connections s') \<longleftrightarrow> (n, i) \<in> set (connections s))"

lemma slot_same:
  assumes "same_for n s s'" and "slot_ok W a s n x"
  shows "slot_ok W a s' n x"
proof -
  have keys: "n \<in> fst ` set (connections s') \<longleftrightarrow> n \<in> fst ` set (connections s)"
    using assms(1) unfolding same_for_def image_iff by (metis prod.collapse)
  have name: "known_name s n \<Longrightarrow> known_name s' n"
    using assms(1) unfolding known_name_def same_for_def by (metis order_less_le_trans)
  show ?thesis
  proof (cases x)
    case None
    with assms keys show ?thesis by (simp add: same_for_def)
  next
    case (Some p)
    then obtain info c where x: "x = Some (info, c)" by (cases p) simp
    with assms have "phase s info c" "info_name info = n" by simp_all
    then have "phase s' info c"
      using assms(1) keys by (simp add: phase_def same_for_def Let_def split: conn_state.splits)
    with assms(2) name show ?thesis unfolding x by simp
  qed
qed

lemma take_request_Some:
  "take_request l qs = Some (t, rest) \<Longrightarrow> \<exists>xs ys. qs = xs @ (l, t) # ys \<and> rest = xs @ ys"
proof (induction qs arbitrary: rest)
  case (Cons q qs)
  show ?case
  proof (cases "fst q = l")
    case True
    with Cons.prems have "q # qs = [] @ (l, t) # qs \<and> rest = [] @ qs" by (cases q) simp
    then show ?thesis by blast
  next
    case False
    with Cons.prems obtain rest' where "take_request l qs = Some (t, rest')" "rest = q # rest'" by auto
    with Cons.IH obtain xs ys where "qs = xs @ (l, t) # ys" "rest' = xs @ ys" by blast
    with \<open>rest = q # rest'\<close> have "q # qs = (q # xs) @ (l, t) # ys \<and> rest = (q # xs) @ ys" by simp
    then show ?thesis by blast
  qed
qed simp

text \<open>Taking a functor that concerns the name, of which there is only one, and taking another.\<close>

lemma pending_taken:
  assumes "take_request l (requests s) = Some (t, rest)"
  shows "about n t \<Longrightarrow> pending n s = [q] \<Longrightarrow> q = (l, t) \<and> pending n (s\<lparr>requests := rest\<rparr>) = []"
    and "about n t \<Longrightarrow> pending n s \<noteq> []"
    and "\<not> about n t \<Longrightarrow> pending n (s\<lparr>requests := rest\<rparr>) = pending n s"
proof -
  from take_request_Some [OF assms] obtain xs ys
    where s: "requests s = xs @ (l, t) # ys" "rest = xs @ ys" by blast
  show "about n t \<Longrightarrow> pending n s = [q] \<Longrightarrow> q = (l, t) \<and> pending n (s\<lparr>requests := rest\<rparr>) = []"
    by (auto simp: pending_def s append_eq_Cons_conv)
  show "about n t \<Longrightarrow> pending n s \<noteq> []" and
    "\<not> about n t \<Longrightarrow> pending n (s\<lparr>requests := rest\<rparr>) = pending n s"
    by (simp_all add: pending_def s)
qed

lemma pending_request [simp]:
  "pending n (request l t s) = (if about n t then pending n s @ [(l, t)] else pending n s)"
  by (simp add: pending_def request_def)

lemma pending_cong: "requests s' = requests s \<Longrightarrow> pending n s' = pending n s"
  by (simp add: pending_def)

text \<open>One name is updated, the others are left alone.\<close>

lemma sys_ok_update:
  assumes "sys_ok W a S" and "\<And>m. m \<noteq> n \<Longrightarrow> same_for m (sys_server S) (sys_server S')"
    and "\<And>m. m \<noteq> n \<Longrightarrow> objs S' m = objs S m" and "slot_ok W a (sys_server S') n (objs S' n)"
    and "on_listener a (sys_server S')"
    and "ch_loop (acc_channel (server_acceptor (sys_server S'))) = loop_this (w_base W)"
    and "\<forall>(info, c) \<in> set (gone S'). life_log c = [UP, DOWN, CallClose]"
    and "closed_fds S' = replicate (length (gone S')) (listen_fd a)"
  shows "sys_ok W a S'"
proof -
  have "slot_ok W a (sys_server S') m (objs S' m)" for m
  proof (cases "m = n")
    case False
    have "slot_ok W a (sys_server S) m (objs S m)" using assms(1) by (simp add: sys_ok_def)
    with slot_same [OF assms(2) [OF False]] assms(3) [OF False] show ?thesis by simp
  qed (use assms(4) in simp)
  with assms(5-8) show ?thesis unfolding sys_ok_def by blast
qed

section \<open>Every functor runs\<close>

lemma gentle_refl: "gentle c c"
  by (simp add: gentle_def leaves_output_def keeps_life_def)

lemma obj_cbs_ok:
  assumes "world_ok W"
  shows "cbs_keep (obj_cbs W info) gentle"
    and "\<exists>f. connectioncallback (obj_cbs W info) = Some f \<and> (\<forall>c. \<exists>c'. f c = Inr c')"
proof -
  have W: "cbs_keep (w_cbs W u) gentle" "\<exists>f. connectioncallback (w_cbs W u) = Some f \<and> (\<forall>c. \<exists>c'. f c = Inr c')" for u
    using assms by (simp_all add: world_ok_def)
  show "cbs_keep (obj_cbs W info) gentle"
    using W(1) [of "info_callbacks info"] gentle_refl by (auto simp: cbs_keep_def obj_cbs_def setClosecallback_def)
  show "\<exists>f. connectioncallback (obj_cbs W info) = Some f \<and> (\<forall>c. \<exists>c'. f c = Inr c')"
    using W(2) by (simp add: obj_cbs_def setClosecallback_def)
qed

lemma connectEstablished_runs:
  assumes W: "world_ok W" and "placed W info c" and "conn_state c = KConnecting" and "life_log c = []"
  shows "\<exists>c'. connectEstablished (w_io W) (obj_cbs W info) c = Inr c' \<and> placed W info c' \<and>
    (conn_state c' = KConnected \<or> conn_state c' = KDisconnecting) \<and> life_log c' = [UP]"
proof -
  let ?c2 = "c\<lparr>conn_state := KConnected,
    conn_channel := (conn_channel c)\<lparr>events := events (conn_channel c) OR ReadEvent, addedToLoop := True\<rparr>,
    calls := calls c @ [UP]\<rparr>"
  obtain f where f: "connectioncallback (obj_cbs W info) = Some f" and "\<exists>c'. f ?c2 = Inr c'"
    using obj_cbs_ok(2) [OF W, of info] by blast
  then obtain c' where c': "f ?c2 = Inr c'" by blast
  have "gentle ?c2 c'" by (rule cbs_keepD [where f = f, OF obj_cbs_ok(1) [OF W, of info] c']) (simp add: f)
  then have "leaves_output ?c2 c'" "keeps_life ?c2 c'" "steady ?c2 c'" by (simp_all add: gentle_def)
  then have "placed W info c'" "conn_state c' = KConnected \<or> conn_state c' = KDisconnecting" "life_log c' = [UP]"
    using assms(2-4) by (auto simp: placed_def leaves_output_def keeps_life_def steady_def life_log_def UP_def)
  moreover have "connectEstablished (w_io W) (obj_cbs W info) c = Inr c'"
    using assms(2,3) f c'
    by (simp add: connectEstablished_def placed_def assertInLoopThread_pass on_channel_def channel_ops_eq invoke_def UP_def)
  ultimately show ?thesis by blast
qed

lemma connectDestroyed_runs:
  assumes "placed W info c" and "conn_state c = KDisconnected" and "isNoneEvent (conn_channel c)"
  shows "\<exists>c'. connectDestroyed (w_io W) cbs c = Inr c' \<and> TcpConnection_dtor (w_io W) c' = Inr [info_fd info] \<and>
    life_log c' = life_log c"
proof -
  let ?c' = "c\<lparr>conn_channel := (conn_channel c)\<lparr>addedToLoop := False\<rparr>\<rparr>"
  have "connectDestroyed (w_io W) cbs c = Inr ?c'"
    using assms by (simp add: connectDestroyed_def placed_def assertInLoopThread_pass on_channel_def
        channel_remove_def removeChannel_def Let_def)
  moreover have "TcpConnection_dtor (w_io W) ?c' = Inr [info_fd info]"
    using assms by (simp add: TcpConnection_dtor_def placed_def channel_dtor_def isInloopthread_def Socket_dtor_def)
  moreover have "life_log ?c' = life_log c" by (simp add: life_log_def)
  ultimately show ?thesis by blast
qed

text \<open>The phase of a connection whose functor is about to run.\<close>

lemma pending_phase:
  assumes "phase s info c" and "pending (info_name info) s = [(l, t)]"
  shows "case t of
      TListen \<Rightarrow> False
    | TEstablished n \<Rightarrow> conn_state c = KConnecting \<and> life_log c = [] \<and> (n, info) \<in> set (connections s)
    | TRemove n \<Rightarrow> conn_state c = KDisconnected \<and> life_log c = [UP, DOWN, CallClose] \<and> isNoneEvent (conn_channel c) \<and>
        (n, info) \<in> set (connections s)
    | TDestroyed n \<Rightarrow> conn_state c = KDisconnected \<and> life_log c = [UP, DOWN, CallClose] \<and> isNoneEvent (conn_channel c) \<and>
        n \<notin> fst ` set (connections s)"
  using assms by (auto simp: phase_def Let_def split: conn_state.splits)

lemma sys_okD:
  assumes "sys_ok W a S"
  shows "on_listener a (sys_server S)" and "registry_ok (sys_server S)"
    and "ch_loop (acc_channel (server_acceptor (sys_server S))) = loop_this (w_base W)"
    and "slot_ok W a (sys_server S) n (objs S n)"
    and "\<forall>(info, c) \<in> set (gone S). life_log c = [UP, DOWN, CallClose]"
    and "closed_fds S = replicate (length (gone S)) (listen_fd a)"
  using assms by (simp_all add: sys_ok_def on_listener_def)

lemma on_listener_cong:
  assumes "on_listener a s" and "connections s' = connections s" and "nxtConnId s' = nxtConnId s"
    and "server_name s' = server_name s" and "ipPort s' = ipPort s"
    and "listen_fd (server_acceptor s') = listen_fd (server_acceptor s)"
    and "acc_closed (server_acceptor s') = acc_closed (server_acceptor s)"
    and "new_connection_callback (server_acceptor s') = new_connection_callback (server_acceptor s)"
  shows "on_listener a s'"
  using assms registry_ok_cong [of s' s] by (simp add: on_listener_def)

text \<open>The connection a functor is about.\<close>

lemma taken_obj:
  assumes ok: "sys_ok W a S" and req: "take_request l (requests (sys_server S)) = Some (t, rest)" and "about n t"
  obtains info c where "objs S n = Some (info, c)" and "info_name info = n" and "placed W info c"
    and "info_fd info = listen_fd a" and "known_name (sys_server S) n" and "pending n (sys_server S) = [(l, t)]"
    and "phase (sys_server S) info c" and "pending n ((sys_server S)\<lparr>requests := rest\<rparr>) = []"
proof -
  note slot = sys_okD(4) [OF ok, of n]
  have some: "pending n (sys_server S) \<noteq> []" by (rule pending_taken(2) [OF req assms(3)])
  with slot obtain info c where obj: "objs S n = Some (info, c)" by (cases "objs S n") auto
  with slot have s: "info_name info = n" "placed W info c" "info_fd info = listen_fd a"
      "known_name (sys_server S) n" "phase (sys_server S) info c" by simp_all
  then have "\<exists>q. pending n (sys_server S) = [q]" using some
    by (auto simp: phase_def Let_def split: conn_state.splits)
  then obtain q where q: "pending n (sys_server S) = [q]" ..
  with pending_taken(1) [OF req assms(3) q] have "pending n (sys_server S) = [(l, t)]" by simp
  with pending_taken(1) [OF req assms(3) q] s obj that show thesis by blast
qed

lemma about_one: "about n t \<Longrightarrow> about m t \<Longrightarrow> m = n"
  by (cases t) auto

lemma taken_same:
  assumes "take_request l (requests s) = Some (t, rest)" and "\<not> about m t"
  shows "same_for m s (s\<lparr>requests := rest\<rparr>)"
  using pending_taken(3) [OF assms] by (simp add: same_for_def)

lemma run_listen:
  assumes W: "world_ok W" and ok: "sys_ok W a S"
    and req: "take_request l (requests (sys_server S)) = Some (TListen, rest)"
  shows "\<exists>S'. run_request W TListen (S\<lparr>sys_server := (sys_server S)\<lparr>requests := rest\<rparr>\<rparr>) = Inr S' \<and> sys_ok W a S'"
proof -
  let ?s = "sys_server S" and ?acc = "server_acceptor (sys_server S)"
  let ?acc' = "?acc\<lparr>listening := True, acc_channel := (acc_channel ?acc)\<lparr>events := events (acc_channel ?acc) OR ReadEvent,
    addedToLoop := True\<rparr>\<rparr>"
  let ?s' = "?s\<lparr>requests := rest, server_acceptor := ?acc'\<rparr>"
  note sd = sys_okD(1-3,5,6) [OF ok]
  have "run_request W TListen (S\<lparr>sys_server := ?s\<lparr>requests := rest\<rparr>\<rparr>) = Inr (S\<lparr>sys_server := ?s'\<rparr>)"
    using W sd(3) by (simp add: world_ok_def server_listen_def acceptor_listen_def assertInLoopThread_pass Listen_def
        listen_stop_def channel_ops_eq)
  moreover have "sys_ok W a (S\<lparr>sys_server := ?s'\<rparr>)"
  proof (rule sys_ok_update [OF ok])
    have same: "same_for m ?s ?s'" for m
      using pending_taken(3) [OF req, of m] by (simp add: same_for_def pending_def)
    then show "same_for m ?s (sys_server (S\<lparr>sys_server := ?s'\<rparr>))" for m by simp
    show "slot_ok W a (sys_server (S\<lparr>sys_server := ?s'\<rparr>)) [] (objs (S\<lparr>sys_server := ?s'\<rparr>) [])"
      using slot_same [OF same sys_okD(4) [OF ok]] by simp
    show "on_listener a (sys_server (S\<lparr>sys_server := ?s'\<rparr>))"
      by (rule on_listener_cong [OF sd(1)]) simp_all
  qed (use sd in simp_all)
  ultimately show ?thesis by blast
qed

lemma run_established:
  assumes W: "world_ok W" and ok: "sys_ok W a S"
    and req: "take_request l (requests (sys_server S)) = Some (TEstablished n, rest)"
  shows "\<exists>S'. run_request W (TEstablished n) (S\<lparr>sys_server := (sys_server S)\<lparr>requests := rest\<rparr>\<rparr>) = Inr S' \<and>
    sys_ok W a S'"
proof -
  let ?s' = "(sys_server S)\<lparr>requests := rest\<rparr>"
  from taken_obj [OF ok req] obtain info c where obj: "objs S n = Some (info, c)" "info_name info = n"
    "placed W info c" "info_fd info = listen_fd a" "known_name (sys_server S) n"
    "pending n (sys_server S) = [(l, TEstablished n)]" "phase (sys_server S) info c" "pending n ?s' = []" by auto
  from pending_phase [OF obj(7)] obj(2,6)
  have c: "conn_state c = KConnecting" "life_log c = []" "(n, info) \<in> set (connections (sys_server S))" by simp_all
  from connectEstablished_runs [OF W obj(3) c(1,2)] obtain c' where
    c': "connectEstablished (w_io W) (obj_cbs W info) c = Inr c'" "placed W info c'"
      "conn_state c' = KConnected \<or> conn_state c' = KDisconnecting" "life_log c' = [UP]" by blast
  let ?S' = "put n info c' (S\<lparr>sys_server := ?s'\<rparr>)"
  have "run_request W (TEstablished n) (S\<lparr>sys_server := ?s'\<rparr>) = Inr ?S'"
    using obj(1) c'(1) by (simp add: with_obj_def)
  moreover have "sys_ok W a ?S'"
  proof (rule sys_ok_update [OF ok, where n = n])
    show "same_for m (sys_server S) (sys_server ?S')" if "m \<noteq> n" for m
      using taken_same [OF req, of m] that by (auto simp: put_def)
    have "phase ?s' info c'" using c'(3,4) c(3) obj(2,8) by (auto simp: phase_def Let_def)
    then show "slot_ok W a (sys_server ?S') n (objs ?S' n)"
      using obj(2,4,5) c'(2) by (simp add: put_def known_name_def)
    show "on_listener a (sys_server ?S')"
      by (rule on_listener_cong [OF sys_okD(1) [OF ok]]) (simp_all add: put_def)
  qed (use sys_okD(3,5,6) [OF ok] in \<open>simp_all add: put_def\<close>)
  ultimately show ?thesis by blast
qed

lemma run_remove:
  assumes W: "world_ok W" and ok: "sys_ok W a S"
    and req: "take_request l (requests (sys_server S)) = Some (TRemove n, rest)"
  shows "\<exists>S'. run_request W (TRemove n) (S\<lparr>sys_server := (sys_server S)\<lparr>requests := rest\<rparr>\<rparr>) = Inr S' \<and>
    sys_ok W a S'"
proof -
  let ?s1 = "(sys_server S)\<lparr>requests := rest\<rparr>"
  from taken_obj [OF ok req] obtain info c where obj: "objs S n = Some (info, c)" "info_name info = n"
    "placed W info c" "info_fd info = listen_fd a" "known_name (sys_server S) n"
    "pending n (sys_server S) = [(l, TRemove n)]" "phase (sys_server S) info c" "pending n ?s1 = []" by auto
  from pending_phase [OF obj(7)] obj(2,6)
  have c: "conn_state c = KDisconnected" "life_log c = [UP, DOWN, CallClose]" "isNoneEvent (conn_channel c)"
    "(n, info) \<in> set (connections (sys_server S))" by simp_all
  have reg: "registry_ok ?s1" using sys_okD(2) [OF ok] registry_ok_cong [of ?s1 "sys_server S"] by simp
  then have dist: "distinct (map fst (connections ?s1))" by (simp add: registry_ok_def)
  have key: "n \<in> fst ` set (connections ?s1)" using c(4) by force
  let ?s' = "request (info_loop info) (TDestroyed n)
    (?s1\<lparr>connections := filter (\<lambda>e. fst e \<noteq> n) (connections ?s1)\<rparr>)"
  have rem: "removeConnectionInLoop (w_tid W) (w_base W) info ?s1 = Inr ?s'"
    using W obj(2) key filter_key_once [OF dist, of n]
    by (simp add: world_ok_def removeConnectionInLoop_def assertInLoopThread_pass delete_filter Let_def)
  let ?S' = "S\<lparr>sys_server := ?s'\<rparr>"
  have "run_request W (TRemove n) (S\<lparr>sys_server := ?s1\<rparr>) = Inr ?S'"
    using obj(1) rem by (simp add: with_obj_def)
  moreover have "sys_ok W a ?S'"
  proof (rule sys_ok_update [OF ok, where n = n])
    show "same_for m (sys_server S) (sys_server ?S')" if "m \<noteq> n" for m
      using taken_same [OF req, of m] that by (auto simp: same_for_def pending_def request_def)
    have "pending n ?s' = [(info_loop info, TDestroyed n)]"
      using obj(8) by (simp add: pending_def request_def)
    then have "phase ?s' info c" using c(1-3) obj(2) by (auto simp: phase_def Let_def request_def)
    then show "slot_ok W a (sys_server ?S') n (objs ?S' n)"
      using obj(1-5) by (simp add: known_name_def request_def)
    have "registry_ok ?s'" using server_step_registry [OF reg, of "w_tid W" "w_base W" "Gone info" ?s'] rem by simp
    then show "on_listener a (sys_server ?S')"
      using sys_okD(1) [OF ok] by (simp add: on_listener_def request_def)
  qed (use sys_okD(3,5,6) [OF ok] in \<open>simp_all add: request_def\<close>)
  ultimately show ?thesis by blast
qed

lemma run_destroyed:
  assumes W: "world_ok W" and ok: "sys_ok W a S"
    and req: "take_request l (requests (sys_server S)) = Some (TDestroyed n, rest)"
  shows "\<exists>S'. run_request W (TDestroyed n) (S\<lparr>sys_server := (sys_server S)\<lparr>requests := rest\<rparr>\<rparr>) = Inr S' \<and>
    sys_ok W a S'"
proof -
  let ?s' = "(sys_server S)\<lparr>requests := rest\<rparr>"
  from taken_obj [OF ok req] obtain info c where obj: "objs S n = Some (info, c)" "info_name info = n"
    "placed W info c" "info_fd info = listen_fd a" "known_name (sys_server S) n"
    "pending n (sys_server S) = [(l, TDestroyed n)]" "phase (sys_server S) info c" "pending n ?s' = []" by auto
  from pending_phase [OF obj(7)] obj(2,6)
  have c: "conn_state c = KDisconnected" "life_log c = [UP, DOWN, CallClose]" "isNoneEvent (conn_channel c)"
    "n \<notin> fst ` set (connections (sys_server S))" by simp_all
  from connectDestroyed_runs [OF obj(3) c(1,3), of "obj_cbs W info"] obj(4) obtain c' where
    c': "connectDestroyed (w_io W) (obj_cbs W info) c = Inr c'"
      "TcpConnection_dtor (w_io W) c' = Inr [listen_fd a]" "life_log c' = life_log c" by auto
  let ?S' = "S\<lparr>sys_server := ?s', objs := (objs S)(n := None), gone := gone S @ [(info, c')],
    closed_fds := closed_fds S @ [listen_fd a]\<rparr>"
  have "run_request W (TDestroyed n) (S\<lparr>sys_server := ?s'\<rparr>) = Inr ?S'"
    using obj(1) c'(1,2) by (simp add: with_obj_def)
  moreover have "sys_ok W a ?S'"
  proof (rule sys_ok_update [OF ok, where n = n])
    show "same_for m (sys_server S) (sys_server ?S')" if "m \<noteq> n" for m
      using taken_same [OF req, of m] that by auto
    show "slot_ok W a (sys_server ?S') n (objs ?S' n)" using c(4) obj(8) by simp
    show "on_listener a (sys_server ?S')"
      by (rule on_listener_cong [OF sys_okD(1) [OF ok]]) simp_all
    show "closed_fds ?S' = replicate (length (gone ?S')) (listen_fd a)"
      using sys_okD(6) [OF ok] by (simp add: replicate_append_same)
  qed (use sys_okD(3,5) [OF ok] c(2) c'(3) in simp_all)
  ultimately show ?thesis by blast
qed

lemma run_next:
  assumes "world_ok W" and "sys_ok W a S" and "take_request l (requests (sys_server S)) = Some (t, rest)"
  shows "\<exists>S'. run_request W t (S\<lparr>sys_server := (sys_server S)\<lparr>requests := rest\<rparr>\<rparr>) = Inr S' \<and> sys_ok W a S'"
proof (cases t)
  case TListen
  with assms(3) run_listen [OF assms(1,2)] show ?thesis by simp
next
  case (TEstablished n)
  with assms(3) run_established [OF assms(1,2)] show ?thesis by simp
next
  case (TDestroyed n)
  with assms(3) run_destroyed [OF assms(1,2)] show ?thesis by simp
next
  case (TRemove n)
  with assms(3) run_remove [OF assms(1,2)] show ?thesis by simp
qed

section \<open>Every step keeps the invariant\<close>

lemma use_keeps:
  assumes W: "world_ok W" and ok: "sys_ok W a S" and en: "sys_enabled (Use n op) S"
    and run: "use_conn W n op S = Inr S'"
  shows "sys_ok W a S'"
proof -
  let ?s = "sys_server S"
  from en obtain info c where obj: "objs S n = Some (info, c)" and up: "UP \<in> set (calls c)" and op: "permitted c op"
    by (auto split: option.splits)
  from run obj obtain c' where c': "conn_step (w_io W) (obj_cbs W info) (w_wr W) op c = Inr c'"
    and S': "S' = (if conn_state c \<noteq> KDisconnected \<and> conn_state c' = KDisconnected
      then (put n info c' S)\<lparr>sys_server := removeConnection info ?s\<rparr> else put n info c' S)"
    by (auto simp: use_conn_def with_obj_def Let_def bind_res_eq_Inr)
  have slot: "info_name info = n" "info_fd info = listen_fd a" "known_name ?s n" "placed W info c" "phase ?s info c"
    using sys_okD(4) [OF ok, of n] obj by simp_all
  have "UP \<in> set (life_log c)" using up by (simp add: life_log_def UP_def)
  then have st: "conn_state c \<noteq> KConnecting" using slot(5) by (auto simp: phase_def Let_def)
  note keep = obj_cbs_ok(1) [OF W, of info]
  note steps = permitted_steps [OF keep c' op st]
  have placed: "placed W info c'" using slot(4) steps(1,3-5) by (simp add: placed_def steady_def)
  have others: "objs S' m = objs S m" if "m \<noteq> n" for m using that by (simp add: S' put_def)
  have obj': "objs S' n = Some (info, c')" by (simp add: S' put_def)
  have rest: "gone S' = gone S" "closed_fds S' = closed_fds S" by (simp_all add: S' put_def)
  from steps(2) show ?thesis
  proof
    assume on: "goes_on c c'"
    then have s': "sys_server S' = ?s" by (auto simp: S' goes_on_def put_def)
    have "isNoneEvent (conn_channel c')" if "conn_state c = KDisconnected"
      using conn_step_none [OF keep c' op that] slot(5) that by (auto simp: phase_def Let_def)
    then have "phase ?s info c'"
      using on slot(5) by (auto simp: goes_on_def phase_def Let_def split: conn_state.splits)
    then show ?thesis
      using placed slot(1-3) sys_okD(1,3,5,6) [OF ok] others
      by (intro sys_ok_update [OF ok, where n = n]) (simp_all add: s' obj' rest same_for_def)
  next
    assume closed: "just_closed c c'"
    then have s': "sys_server S' = removeConnection info ?s" by (auto simp: S' just_closed_def put_def)
    have "phase (removeConnection info ?s) info c'"
      using closed slot(1,5) st unfolding removeConnection_def
      by (auto simp: just_closed_def phase_def Let_def request_def pending_def split: conn_state.splits)
    moreover have "same_for m ?s (removeConnection info ?s)" if "m \<noteq> n" for m
      using that slot(1) by (auto simp: same_for_def removeConnection_def pending_def request_def)
    moreover have "on_listener a (removeConnection info ?s)"
      by (rule on_listener_cong [OF sys_okD(1) [OF ok]]) (simp_all add: removeConnection_def request_def)
    ultimately show ?thesis
      using placed slot(1-3) sys_okD(3,5,6) [OF ok] others
      by (intro sys_ok_update [OF ok, where n = n])
        (simp_all add: s' obj' rest known_name_def removeConnection_def request_def)
  qed
qed

lemma arrive_keeps:
  assumes W: "world_ok W" and ok: "sys_ok W a S" and id: "nxtConnId (sys_server S) < 2 ^ 31"
    and run: "arrive W fd peer errno chp S = Inr S'"
  shows "sys_ok W a S'"
proof -
  let ?s = "sys_server S"
  note inv = sys_okD(1) [OF ok] and reg = sys_okD(2) [OF ok]
  have tid: "threadPid (w_base W) \<noteq> w_tid W" using W by (simp add: world_ok_def)
  from run obtain s where s: "server_accept (w_tid W) (w_base W) (w_local W) fd peer errno ?s = Inr s"
    by (auto simp: arrive_def bind_res_eq_Inr)
  then have new: "newConnection (w_tid W) (w_base W) (listen_fd a) (w_local W (listen_fd a)) peer ?s = Inr s"
    by (auto simp: server_accept_eq [OF inv tid] split: if_splits)
  from newConnection_Inr [OF reg id new] obtain info where
    i: "connections s = connections ?s @ [(info_name info, info)]"
      "info_name info = connection_name (server_name ?s) (ipPort ?s) (nxtConnId ?s)" "info_fd info = listen_fd a"
      "server_acceptor s = server_acceptor ?s"
      "requests s = requests ?s @ [(info_loop info, TEstablished (info_name info))]"
      "nxtConnId s = nxtConnId ?s + 1" "server_name s = server_name ?s" "ipPort s = ipPort ?s" by blast
  have loop: "server_loop s = server_loop ?s"
    using new by (auto simp: newConnection_def bind_res_eq_Inr Let_def request_def)
  let ?n = "info_name info"
  obtain c k where c: "TcpConnection_ctor (w_opt W) (Some (w_loops W (info_loop info))) chp ?n (info_fd info)
      (info_local info) (info_peer info) (w_buf W) (w_buf W) (sockets S) = Inr (c, k)"
    by (simp add: TcpConnection_ctor_def Let_def)
  have S': "S' = put ?n info c (S\<lparr>sys_server := s, sockets := k\<rparr>)"
    using run s c by (simp add: arrive_def i(1))
  have w: "loop_this (w_loops W l) = l \<and> threadPid (w_loops W l) \<noteq> w_io W \<and> \<not> eventHanding (w_loops W l)" for l
    using W by (simp add: world_ok_def)
  have placed: "placed W info c" and fresh: "conn_state c = KConnecting" "life_log c = []"
    using c w [of "info_loop info"]
    by (auto simp: TcpConnection_ctor_def Let_def placed_def event_loop.defs channel_setter_defs new_channel_def
        life_log_def)
  have unknown: "\<not> known_name ?s ?n"
  proof
    assume "known_name ?s ?n"
    then obtain j where j: "1 \<le> j" "j < nxtConnId ?s" "?n = connection_name (server_name ?s) (ipPort ?s) j"
      by (auto simp: known_name_def)
    have "length (ipPort ?s) \<le> 51" "1 \<le> nxtConnId ?s" using reg by (simp_all add: registry_ok_def)
    with j i(2) id connection_name_inject [of "ipPort ?s" j "nxtConnId ?s" "server_name ?s"] show False by simp
  qed
  have "objs S ?n = None" using sys_okD(4) [OF ok, of ?n] unknown by (cases "objs S ?n") auto
  then have none: "?n \<notin> fst ` set (connections ?s)" "pending ?n ?s = []"
    using sys_okD(4) [OF ok, of ?n] by simp_all
  have phase: "phase s info c"
    using none(2) fresh by (simp add: phase_def Let_def i(1,5) pending_def)
  have known: "known_name s ?n"
    using reg i(2,6-8) unfolding known_name_def registry_ok_def by (intro exI [of _ "nxtConnId ?s"]) simp
  have same: "same_for m ?s s" if "m \<noteq> ?n" for m
    using that by (auto simp: same_for_def i(1,5-8) loop pending_def)
  have "server_step (w_tid W) (w_base W) (New (listen_fd a) (w_local W (listen_fd a)) peer) ?s = Inr s"
    using new id by simp
  from server_step_on_listener [OF inv this] have "on_listener a s" by simp
  with placed phase known same i(3) sys_okD(3,5,6) [OF ok] show ?thesis
    by (intro sys_ok_update [OF ok, where n = ?n]) (simp_all add: S' put_def i(4))
qed

lemma sys_step_keeps:
  assumes W: "world_ok W" and ok: "sys_ok W a S" and en: "sys_enabled op S" and run: "sys_step W op S = Inr S'"
  shows "sys_ok W a S'"
proof (cases op)
  case (Arrive fd peer errno chp)
  with arrive_keeps [OF W ok] en run show ?thesis by simp
next
  case (RunNext l)
  show ?thesis
  proof (cases "take_request l (requests (sys_server S))")
    case None
    with RunNext run ok show ?thesis by simp
  next
    case (Some p)
    with run_next [OF W ok, of l "fst p" "snd p"] RunNext run show ?thesis by (auto simp: case_prod_unfold)
  qed
next
  case (Use n op)
  with use_keeps [OF W ok] en run show ?thesis by simp
qed

lemma sys_reach_ok: "sys_reach W S0 S \<Longrightarrow> world_ok W \<Longrightarrow> sys_ok W a S0 \<Longrightarrow> sys_ok W a S"
  by (induction rule: sys_reach.induct) (auto intro: sys_step_keeps)

lemma started_ok:
  assumes "TcpServer_ctor (\<lambda>reuse. Inr a) (Some (loop_this (w_base W))) (Inr text) name opt = Inr s0"
    and "length text \<le> 51" and "ch_loop (acc_channel a) = loop_this (w_base W)"
    and "setThreadNum n s0 = Inr s1" and "server_start (w_tid W) (w_base W) startLoop s1 = Inr s2"
  shows "sys_ok W a (new_system s2 k)"
proof -
  have s0: "connections s0 = []" "requests s0 = []" "on_listener a s0"
      "ch_loop (acc_channel (server_acceptor s0)) = loop_this (w_base W)"
    using assms(1,3) TcpServer_ctor_on_listener [OF assms(1,2)]
    by (auto simp: TcpServer_ctor_def setNewConnectioncallback_def bind_res_eq_Inr)
  have s2: "connections s2 = []" "requests s2 = [(server_loop s0, TListen)]" "nxtConnId s2 = nxtConnId s0"
      "server_name s2 = server_name s0" "ipPort s2 = ipPort s0" "server_acceptor s2 = server_acceptor s0"
    using assms(4,5) s0(1,2)
    by (auto simp: setThreadNum_def server_start_def request_def bind_res_eq_Inr Let_def)
  have "on_listener a s2"
    by (rule on_listener_cong [OF s0(3)]) (simp_all add: s0(1) s2)
  with s0 s2 show ?thesis by (simp add: sys_ok_def new_system_def pending_def)
qed

section \<open>Properties\<close>


definition sample_world :: "unit world" where
  "sample_world = \<lparr>w_tid = 8, w_io = 8,
     w_base = \<lparr>loop_this = 0, looping = False, quit_flag = False, eventHanding = False,
       callingPendingFunctors = False, iteration = 0, threadPid = 7, wakeup_writes = 0, pendingFunctors = [],
       currentActiveChannel = None, activeChannels = []\<rparr>,
     w_loops = (\<lambda>l. sample_event_loop\<lparr>loop_this := l\<rparr>), w_cbs = (\<lambda>u. sample_callbacks), w_wr = two_bytes,
     w_local = (\<lambda>fd. []), w_listen = 0, w_opt = (\<lambda>level name v len k. (0, k)), w_buf = sample_buffer\<rparr>"

lemma sample_world_ok: "world_ok sample_world"
  using sample_callbacks_keep [of gentle] gentle_refl
  by (simp add: world_ok_def sample_world_def sample_event_loop_def sample_callbacks_def)

text \<open>A server with one thread, whose loop is 10: it listens, a client comes and goes.\<close>

definition sample_system_ops :: "sys_op list" where
  "sample_system_ops = [RunNext 0, Arrive 7 [1] 0 2, RunNext 10, Use ''s-10.0.0.1:80#1'' OClose,
     RunNext 0, RunNext 10]"

fun sys_run :: "'k world \<Rightarrow> sys_op list \<Rightarrow> 'k system \<Rightarrow> 'k system option" where
  "sys_run W [] S = Some S"
| "sys_run W (op # ops) S =
     (if sys_enabled op S then case sys_step W op S of Inl e \<Rightarrow> None | Inr S1 \<Rightarrow> sys_run W ops S1 else None)"

lemma sys_run_reach:
  "sys_run W ops S = Some S' \<Longrightarrow> sys_reach W S0 S \<Longrightarrow> sys_reach W S0 S'"
  by (induction ops arbitrary: S) (auto intro: sys_reach.step split: if_splits sum.splits)

lemmas sample_system_defs = sample_server_defs serthreadnum_def sample_world_def sample_system_ops_def new_system_def
    server_listen_def acceptor_listen_def Listen_def listen_stop_def channel_ops_eq new_channel_def
    isReading_def ReadEvent_def arrive_def server_accept_def handle_read_def Accept_def setSockAddrInet6_def
    sample_connection_names loop_at_def TcpConnection_ctor_def channel_setter_defs put_def with_obj_def
    sample_event_loop_def event_loop.defs connectEstablished_def on_channel_def invoke_def obj_cbs_def sample_callbacks_def
    setClosecallback_def UP_def permitted_def isNoneEvent_def NoneEvent_def use_conn_def handleClose_def removeConnection_def
    removeConnectionInLoop_def connectDestroyed_def channel_remove_def removeChannel_def TcpConnection_dtor_def channel_dtor_def
    isInloopthread_def Socket_dtor_def

lemma sample_world_run:
  "\<exists>s2. server_start 8 (w_base sample_world) (\<lambda>i. 10) (sample_server\<lparr>threadpool := serthreadnum 1 (threadpool sample_server)\<rparr>) = Inr s2 \<and>
      (\<exists>S. sys_run sample_world sample_system_ops (new_system s2 ()) = Some S \<and> length (gone S) = 1)"
  by (simp add: sample_system_defs)


end
