(* ===== verification/ClientPath.thy ===== *)
theory ClientPath
  imports TcpClient Teardown
begin

text \<open>
  The connection of a client from its making to its end: Connector::handleWrite
  (network/src/connector.cc) hands the connected descriptor to TcpClient::newConnection
  (network/src/TcpClient.cc), which makes a TcpConnection and establishes it
  (network/src/TcpConnection.cc); when the peer closes, TcpClient::removeConnection is the close
  callback, and the loop destroys the connection.

  Theories Connector and TcpConnection both have states with the names of the source; their
  constructors are qualified here.
\<close>

section \<open>The two chains\<close>

text \<open>
  newConnection is the last thing handleWrite does, so as the connector's callback it is \<open>Some\<close> of
  a function that leaves the connector alone, and runs after it on what was handed out. The
  descriptor's two addresses, \<open>local\<close> and \<open>peer\<close>, are those compared by isSelfConnect; \<open>peer_text\<close> is
  the text of \<open>peer\<close>. \<open>ch_this\<close>, \<open>inbuf\<close> and \<open>outbuf\<close> are the new connection's channel and
  buffers, \<open>k\<close> the kernel's socket options.
\<close>

definition client_handleWrite ::
  "pid \<Rightarrow> host \<Rightarrow> 'k setsockopt \<Rightarrow> task event_loop \<Rightarrow> callbacks \<Rightarrow> channel_ptr \<Rightarrow> buffer \<Rightarrow> buffer \<Rightarrow> string \<Rightarrow>
   int \<Rightarrow> sockaddr \<Rightarrow> sockaddr \<Rightarrow> client \<times> 'k \<Rightarrow> (client \<times> TcpConnection.connection option \<times> 'k) res" where
  "client_handleWrite tid h opt l cbs ch_this inbuf outbuf peer_text so_error local peer = (\<lambda>(c, k).
     bind_res (connector_handleWrite tid h (Some (\<lambda>fd con. Inr con)) so_error local peer (connector c)) (\<lambda>con.
     let c1 = c\<lparr>connector := con\<rparr> in
     case drop (length (handed (connector c))) (handed con) of
       [] \<Rightarrow> Inr (c1, None, k)
     | sockfd # _ \<Rightarrow>
         bind_res (client_newConnection tid l peer_text local peer sockfd c1) (\<lambda>c2.
         bind_res (TcpConnection_ctor opt (Some l) ch_this
             (client_connection_name (client_name c1) peer_text (nxtconnid c1)) sockfd local peer inbuf outbuf k)
           (\<lambda>(conn, k1).
         bind_res (connectEstablished tid cbs conn) (\<lambda>conn1. Inr (c2, Some conn1, k1))))))"

text \<open>
  Close and destruction, as \<open>peer_close\<close> of theory Teardown: the client's removeConnection leaves the
  connection alone and is the last thing handleClose does.
\<close>

definition client_peer_close ::
  "pid \<Rightarrow> callbacks \<Rightarrow> task event_loop \<Rightarrow> (16 word \<Rightarrow> 32 word \<Rightarrow> int \<Rightarrow> int) \<Rightarrow> (int \<Rightarrow> int \<times> int) \<Rightarrow> conn_info \<Rightarrow>
   TcpConnection.connection \<times> client \<Rightarrow> (TcpConnection.connection \<times> client) res" where
  "client_peer_close tid cbs l sys_socket sys_connect info = (\<lambda>(conn, c).
     bind_res (handleRead tid (setClosecallback (Some Inr) cbs) (Inr []) 0 conn) (\<lambda>conn1.
     bind_res (client_removeConnection tid l sys_socket sys_connect info c) (\<lambda>c1.
     bind_res (connectDestroyed tid (setClosecallback (Some Inr) cbs) conn1) (\<lambda>conn2. Inr (conn2, c1)))))"

section \<open>Making the connection\<close>

text \<open>The connector waits for the descriptor of \<open>ch\<close> to become writable.\<close>

definition awaits :: "pid \<Rightarrow> Connector.connector \<Rightarrow> connector_handler channel \<Rightarrow> bool" where
  "awaits tid k ch \<longleftrightarrow> cstate k = Connector.KConnecting \<and> cchannel k = Some ch \<and> threadPid k \<noteq> tid \<and>
     ch_loop ch = loop_this k \<and> \<not> eventHanding k"

lemma handleWrite_outcome:
  assumes "awaits tid k ch"
  shows "connector_handleWrite tid h (Some (\<lambda>fd con. Inr con)) so_error local peer k =
    (let k1 = queueInLoop tid TResetChannel (k\<lparr>cchannel := Some (ch\<lparr>events := NoneEvent, addedToLoop := False\<rparr>)\<rparr>) in
     if so_error \<noteq> 0 \<or> isSelfConnect h local peer then Inr (k1\<lparr>closed := closed k @ [ch_fd ch]\<rparr>)
     else if connect_flag k then Inr (k1\<lparr>cstate := Connector.KConnected, handed := handed k @ [ch_fd ch]\<rparr>)
     else Inr (k1\<lparr>cstate := Connector.KConnected, closed := closed k @ [ch_fd ch]\<rparr>))"
  using assms
  by (simp add: awaits_def connector_handleWrite_def removeAndReset_ok retry_def Let_def)

text \<open>A new connection with a quiet callback is established at once.\<close>

lemma established:
  assumes "threadPid l \<noteq> tid" and "connectioncallback cbs = Some f" and "quiet f"
  obtains conn conn1 where
    "TcpConnection_ctor opt (Some l) chp nm fd la pa ib ob k = Inr (conn, setKeepAlive opt True k)"
    and "connectEstablished tid cbs conn = Inr conn1" and "conn_state conn1 = TcpConnection.KConnected"
    and "isReading (conn_channel conn1)" and "ch_fd (conn_channel conn1) = fd"
    and "calls conn1 = [CallConnection TcpConnection.KConnected]"
proof -
  let ?ch = "setCloseCallback (Some HClose) (setWriteEventCallback (Some HWrite)
    (setReadEventCallback (Some HRead) (setErrorEventCallback (Some HError) (new_channel (loop_this l) fd))))"
  obtain conn where conn: "TcpConnection_ctor opt (Some l) chp nm fd la pa ib ob k = Inr (conn, setKeepAlive opt True k)"
    and c: "conn_state conn = TcpConnection.KConnecting" "conn_channel conn = ?ch" "calls conn = []"
      "threadPid conn = threadPid l" "loop_this conn = loop_this l"
    by (simp add: TcpConnection_ctor_def Let_def event_loop.defs)
  let ?c2 = "conn\<lparr>conn_state := TcpConnection.KConnected,
    conn_channel := ?ch\<lparr>events := events ?ch OR ReadEvent, addedToLoop := True\<rparr>,
    calls := [CallConnection TcpConnection.KConnected]\<rparr>"
  obtain conn1 where f: "f ?c2 = Inr conn1" and c1: "conn_state conn1 = conn_state ?c2"
      "conn_channel conn1 = conn_channel ?c2" "calls conn1 = calls ?c2"
    using assms(3) unfolding quiet_def by (elim allE [of _ ?c2]) auto
  have own: "ch_loop ?ch = loop_this l" by (simp add: channel_setter_defs new_channel_def)
  have "connectEstablished tid cbs conn = f ?c2"
    using c assms(1,2) own
    by (simp add: connectEstablished_def assertInLoopThread_pass on_channel_def channel_ops_eq invoke_def Let_def)
  with f have "connectEstablished tid cbs conn = Inr conn1" by simp
  moreover have "isReading (conn_channel conn1)"
    using c1(2) by (simp add: isReading_def channel_setter_defs new_channel_def ReadEvent_def)
  moreover have "ch_fd (conn_channel conn1) = fd"
    using c1(2) by (simp add: channel_setter_defs new_channel_def)
  ultimately show thesis using that [OF conn] c1 by simp
qed

text \<open>A connected connector cannot be started again.\<close>

lemma no_second_start:
  assumes "cstate k = Connector.KConnected" and "threadPid k \<noteq> tid"
  shows "exec_connector_task tid ss sc TStartInLoop k = Inl AssertFailed"
  using assms by (simp add: exec_connector_task_def startInLoop_def assertInLoopThread_pass)

section \<open>The client's own state\<close>

text \<open>The client never retries, and the connection it holds lives on its loop.\<close>

definition client_ok :: "client \<Rightarrow> bool" where
  "client_ok c \<longleftrightarrow> no_retry c \<and> (\<forall>info. connection c = Some info \<longrightarrow> info_loop info = client_loop c)"

lemma client_step_ok:
  assumes ok: "client_ok c" and step: "client_step tid l ss sc e c = Inr c'"
  shows "client_ok c'"
proof -
  have "no_retry c'" using client_step_no_retry ok step by (auto simp: client_ok_def)
  moreover have "info_loop info = client_loop c'" if "connection c' = Some info" for info
    using ok step that
    by (cases e) (auto simp: client_ok_def no_retry_def client_connect_def client_disconnect_def client_stop_def
      ask_def client_newConnection_def client_removeConnection_def client_setter_defs Let_def bind_res_eq_Inr
      split: option.splits)
  ultimately show ?thesis by (simp add: client_ok_def)
qed

interpretation clo: machine "client_step tid l ss sc" client_ok for tid l ss sc
  by unfold_locales (rule client_step_ok)

section \<open>Properties\<close>


definition sample_client_await :: client where
  "sample_client_await = sample_client\<lparr>connector := sample_connector\<lparr>cstate := Connector.KConnecting,
     connect_flag := True, cchannel := Some (new_channel 0 5)\<rparr>\<rparr>"

lemma sample_client_awaits: "awaits 8 (connector sample_client_await) (new_channel 0 5)"
  by (simp add: awaits_def sample_client_await_def sample_connector_simps new_channel_def)


text \<open>C27: When the peer of a client's connection closes, the connection is torn down completely: in
  any run of the client, for the connection it holds, no assert trips on the way, the user
  hears DOWN once and the close callback runs once, the channel ends up without interest and removed,
  the connection can be destroyed, which closes its descriptor, and the client forgets it and leaves its connector as it is.\<close>

theorem client_peer_close_tears_down:
  assumes "TcpClient_ctor loop name k = Inr c0" and "run_res (client_step tid l ss sc) ops c0 = Inr c"
    and "connection c = Some info"
    and "conn_state conn = TcpConnection.KConnected \<or> conn_state conn = TcpConnection.KDisconnecting"
    and "buf_inv (inputbuffer conn)" and "ch_loop (conn_channel conn) = loop_this conn"
    and "\<not> eventHandling (conn_channel conn)" and "\<not> eventHanding conn"
    and "threadPid conn \<noteq> tid" and "threadPid l \<noteq> tid"
    and "connectioncallback cbs = Some f" and "quiet f"
  shows "\<exists>conn' c'. client_peer_close tid cbs l ss sc info (conn, c) = Inr (conn', c') \<and>
    conn_state conn' = TcpConnection.KDisconnected \<and>
    calls conn' = calls conn @ [CallConnection TcpConnection.KDisconnected, CallClose] \<and>
    isNoneEvent (conn_channel conn') \<and> \<not> addedToLoop (conn_channel conn') \<and> 
    TcpConnection_dtor tid conn' = Inr [ch_fd (conn_channel conn)] \<and>
    connection c' = None \<and> connector c' = connector c \<and>
    client_requests c' = client_requests c @ [CDestroyed (info_name info)]"
proof -
  have "client_ok c0"
    using assms(1) by (auto simp: TcpClient_ctor_def client_ok_def no_retry_def split: option.splits)
  from clo.run_inv [OF this assms(2)] assms(3)
  have c: "\<not> retry_flag c" "info_loop info = client_loop c" by (auto simp: client_ok_def no_retry_def)
  let ?c' = "ask (CDestroyed (info_name info)) (c\<lparr>connection := None\<rparr>)"
  have gone: "client_removeConnection tid l ss sc info c = Inr ?c'"
    using c assms(3,10) by (simp add: client_removeConnection_def assertInLoopThread_pass Let_def ask_def)
  from assms(4-9,11,12) obtain conn1 conn2 where
    "handleRead tid (setClosecallback (Some Inr) cbs) (Inr []) 0 conn = Inr conn1"
    "connectDestroyed tid (setClosecallback (Some Inr) cbs) conn1 = Inr conn2"
    and c2: "conn_state conn2 = TcpConnection.KDisconnected"
      "calls conn2 = calls conn @ [CallConnection TcpConnection.KDisconnected, CallClose]"
      "isNoneEvent (conn_channel conn2)" "\<not> addedToLoop (conn_channel conn2)" 
      "TcpConnection_dtor tid conn2 = Inr [ch_fd (conn_channel conn)]"
    by (rule closed_by_peer)
  with gone have "client_peer_close tid cbs l ss sc info (conn, c) = Inr (conn2, ?c')"
    by (simp add: client_peer_close_def)
  with c2 show ?thesis by (simp add: ask_def)
qed

lemma client_peer_close_tears_down_witness:
  "\<exists>info c conn' c'. connection c = Some info \<and>
     client_peer_close 8 (setConnectionCallback (Some defaultConnectionCallback) sample_callbacks) sample_event_loop
       (\<lambda>f t p. 5) (\<lambda>fd. (0, 0)) info (sample_connection\<lparr>conn_state := TcpConnection.KConnected\<rparr>, c) = Inr (conn', c') \<and>
     connection c' = None \<and> conn_state conn' = TcpConnection.KDisconnected"
proof -
  let ?cbs = "setConnectionCallback (Some defaultConnectionCallback) sample_callbacks"
  let ?conn = "sample_connection\<lparr>conn_state := TcpConnection.KConnected\<rparr>"
  have ctor: "TcpClient_ctor (Some 0) ''c'' sample_connector = Inr sample_client"
    by (simp add: TcpClient_ctor_def sample_client_def)
  have pid: "threadPid sample_event_loop \<noteq> 8" by (simp add: sample_event_loop_def)
  obtain c info where run: "run_res (client_step 8 sample_event_loop (\<lambda>f t p. 5) (\<lambda>fd. (0, 0)))
      [CNew ''10.0.0.1:80'' [] [] 5] sample_client = Inr c" and c: "connection c = Some info"
    using pid by (simp add: client_newConnection_def assertInLoopThread_pass Let_def ask_def)
  have conn: "conn_state ?conn = TcpConnection.KConnected \<or> conn_state ?conn = TcpConnection.KDisconnecting"
    "buf_inv (inputbuffer ?conn)" "ch_loop (conn_channel ?conn) = loop_this ?conn"
    "\<not> eventHandling (conn_channel ?conn)" "\<not> eventHanding ?conn" "threadPid ?conn \<noteq> 8"
    using sample_buffer_inv
    by (simp_all add: sample_connection_def sample_event_loop_def event_loop.defs new_channel_def)
  have cb: "connectioncallback ?cbs = Some defaultConnectionCallback" by (simp add: setConnectionCallback_def)
  from client_peer_close_tears_down [OF ctor run c conn pid cb quiet_default] c show ?thesis by blast
qed

end
