(* ===== verification/RpcMessage.thy ===== *)
theory RpcMessage
  imports Prelude
begin

unbundle bit_operations_syntax

text \<open>
  class RpcMessage and its enums (rpto_rpc/proto/rpc.pb.h, rpto_rpc/proto/rpc.pb.cc, generated
  from rpto_rpc/proto/rpc.proto and part of the repository).

  \<^item> \<open>rpc_message\<close> is the message; strings are byte lists, the two enums are \<open>int\<close> fields as in
    the class. The unknown fields are kept as the bytes they were read from.
  \<^item> The protobuf runtime is not in the repository. What the generated code calls of it (tags,
    varints, length-delimited fields, their sizes, unknown fields, the UTF-8 check) is the
    record \<open>wire\<close>, an argument; \<open>wire_ok\<close> states the documented behaviour relied on.
    \<open>leb128\<close> is such a runtime, with the base-128 varints of the wire format.
  \<^item> \<open>parse_loop\<close> is the \<open>while\<close> of \<open>_InternalParse\<close> with fuel; one unit more than there are
    bytes is enough (\<open>parse_loop_fuel\<close>), since every round reads a tag.
  \<^item> Arenas, reflection and descriptors are not modelled.
\<close>

section \<open>The message\<close>

definition MessageType_IsValid :: "int \<Rightarrow> bool" where
  "MessageType_IsValid v = (if v = 0 then True else if v = 1 then True else False)"

definition ErrorCode_IsValid :: "int \<Rightarrow> bool" where
  "ErrorCode_IsValid v \<longleftrightarrow> v \<in> {0, 1, 2, 3, 4, 5, 6}"

definition REQUEST :: "32 word" where "REQUEST = 0"
definition RESPONSE :: "32 word" where "RESPONSE = 1"

record rpc_message =
  service :: "byte list"
  method_name :: "byte list"
  request :: "byte list"
  response :: "byte list"
  msg_id :: "64 word"
  msg_type :: "32 word"
  msg_error :: "32 word"
  unknown_fields :: "byte list"

definition RpcMessage_ctor :: rpc_message where
  "RpcMessage_ctor = \<lparr>service = [], method_name = [], request = [], response = [], msg_id = 0,
     msg_type = 0, msg_error = 0, unknown_fields = []\<rparr>"

definition RpcMessage_copy :: "rpc_message \<Rightarrow> rpc_message" where
  "RpcMessage_copy from =
     (let m = RpcMessage_ctor\<lparr>unknown_fields := unknown_fields from\<rparr>;
          m1 = (if service from \<noteq> [] then m\<lparr>service := service from\<rparr> else m);
          m2 = (if method_name from \<noteq> [] then m1\<lparr>method_name := method_name from\<rparr> else m1);
          m3 = (if request from \<noteq> [] then m2\<lparr>request := request from\<rparr> else m2);
          m4 = (if response from \<noteq> [] then m3\<lparr>response := response from\<rparr> else m3) in
      m4\<lparr>msg_id := msg_id from, msg_type := msg_type from, msg_error := msg_error from\<rparr>)"

definition Clear :: "rpc_message \<Rightarrow> rpc_message" where
  "Clear m = m\<lparr>service := [], method_name := [], request := [], response := [], msg_id := 0,
     msg_type := 0, msg_error := 0, unknown_fields := []\<rparr>"

definition MergeImpl :: "rpc_message \<Rightarrow> rpc_message \<Rightarrow> rpc_message" where
  "MergeImpl from m =
     (let m1 = (if service from \<noteq> [] then m\<lparr>service := service from\<rparr> else m);
          m2 = (if method_name from \<noteq> [] then m1\<lparr>method_name := method_name from\<rparr> else m1);
          m3 = (if request from \<noteq> [] then m2\<lparr>request := request from\<rparr> else m2);
          m4 = (if response from \<noteq> [] then m3\<lparr>response := response from\<rparr> else m3);
          m5 = (if msg_id from \<noteq> 0 then m4\<lparr>msg_id := msg_id from\<rparr> else m4);
          m6 = (if msg_type from \<noteq> 0 then m5\<lparr>msg_type := msg_type from\<rparr> else m5);
          m7 = (if msg_error from \<noteq> 0 then m6\<lparr>msg_error := msg_error from\<rparr> else m6) in
      m7\<lparr>unknown_fields := unknown_fields m7 @ unknown_fields from\<rparr>)"

text \<open>\<open>same\<close> tells whether the source is the message itself.\<close>

definition CopyFrom :: "bool \<Rightarrow> rpc_message \<Rightarrow> rpc_message \<Rightarrow> rpc_message" where
  "CopyFrom same from m = (if same then m else MergeImpl from (Clear m))"

definition InternalSwap :: "rpc_message \<Rightarrow> rpc_message \<Rightarrow> rpc_message \<times> rpc_message" where
  "InternalSwap a b =
     (a\<lparr>unknown_fields := unknown_fields b, service := service b, method_name := method_name b,
        request := request b, response := response b, msg_id := msg_id b, msg_type := msg_type b,
        msg_error := msg_error b\<rparr>,
      b\<lparr>unknown_fields := unknown_fields a, service := service a, method_name := method_name a,
        request := request a, response := response a, msg_id := msg_id a, msg_type := msg_type a,
        msg_error := msg_error a\<rparr>)"

text \<open>
  Moving and swapping: no message of the program lives on an arena, so the two owning arenas are the
  same (none) and the contents are swapped. \<open>same\<close> is as before.
\<close>

definition move_assign :: "bool \<Rightarrow> rpc_message \<Rightarrow> rpc_message \<Rightarrow> rpc_message \<times> rpc_message" where
  "move_assign same m from = (if same then (m, from) else InternalSwap m from)"

definition RpcMessage_move :: "rpc_message \<Rightarrow> rpc_message \<times> rpc_message" where
  "RpcMessage_move from = move_assign False RpcMessage_ctor from"

definition Swap :: "bool \<Rightarrow> rpc_message \<Rightarrow> rpc_message \<Rightarrow> rpc_message \<times> rpc_message" where
  "Swap same m other = (if same then (m, other) else InternalSwap m other)"

definition MergeFrom :: "rpc_message \<Rightarrow> rpc_message \<Rightarrow> rpc_message" where
  "MergeFrom from m = MergeImpl from m"

section \<open>Accessors\<close>

text \<open>
  \<open>mutable_service()\<close> and its like return a pointer to the string, through which the caller changes
  it; the change is the argument.
\<close>

definition clear_type :: "rpc_message \<Rightarrow> rpc_message" where "clear_type m = m\<lparr>msg_type := 0\<rparr>"
definition set_type :: "32 word \<Rightarrow> rpc_message \<Rightarrow> rpc_message" where
  "set_type v m = m\<lparr>msg_type := v\<rparr>"
definition clear_id :: "rpc_message \<Rightarrow> rpc_message" where "clear_id m = m\<lparr>msg_id := 0\<rparr>"
definition set_id :: "64 word \<Rightarrow> rpc_message \<Rightarrow> rpc_message" where "set_id v m = m\<lparr>msg_id := v\<rparr>"
definition clear_error :: "rpc_message \<Rightarrow> rpc_message" where "clear_error m = m\<lparr>msg_error := 0\<rparr>"
definition set_error :: "32 word \<Rightarrow> rpc_message \<Rightarrow> rpc_message" where
  "set_error v m = m\<lparr>msg_error := v\<rparr>"

definition clear_service :: "rpc_message \<Rightarrow> rpc_message" where "clear_service m = m\<lparr>service := []\<rparr>"
definition set_service :: "byte list \<Rightarrow> rpc_message \<Rightarrow> rpc_message" where
  "set_service v m = m\<lparr>service := v\<rparr>"
definition mutable_service :: "(byte list \<Rightarrow> byte list) \<Rightarrow> rpc_message \<Rightarrow> rpc_message" where
  "mutable_service change m = m\<lparr>service := change (service m)\<rparr>"
definition release_service :: "rpc_message \<Rightarrow> byte list \<times> rpc_message" where
  "release_service m = (service m, m\<lparr>service := []\<rparr>)"
definition set_allocated_service :: "byte list option \<Rightarrow> rpc_message \<Rightarrow> rpc_message" where
  "set_allocated_service p m = m\<lparr>service := (case p of None \<Rightarrow> [] | Some v \<Rightarrow> v)\<rparr>"

definition clear_method :: "rpc_message \<Rightarrow> rpc_message" where "clear_method m = m\<lparr>method_name := []\<rparr>"
definition set_method :: "byte list \<Rightarrow> rpc_message \<Rightarrow> rpc_message" where
  "set_method v m = m\<lparr>method_name := v\<rparr>"
definition mutable_method :: "(byte list \<Rightarrow> byte list) \<Rightarrow> rpc_message \<Rightarrow> rpc_message" where
  "mutable_method change m = m\<lparr>method_name := change (method_name m)\<rparr>"
definition release_method :: "rpc_message \<Rightarrow> byte list \<times> rpc_message" where
  "release_method m = (method_name m, m\<lparr>method_name := []\<rparr>)"
definition set_allocated_method :: "byte list option \<Rightarrow> rpc_message \<Rightarrow> rpc_message" where
  "set_allocated_method p m = m\<lparr>method_name := (case p of None \<Rightarrow> [] | Some v \<Rightarrow> v)\<rparr>"

definition clear_request :: "rpc_message \<Rightarrow> rpc_message" where "clear_request m = m\<lparr>request := []\<rparr>"
definition set_request :: "byte list \<Rightarrow> rpc_message \<Rightarrow> rpc_message" where
  "set_request v m = m\<lparr>request := v\<rparr>"
definition mutable_request :: "(byte list \<Rightarrow> byte list) \<Rightarrow> rpc_message \<Rightarrow> rpc_message" where
  "mutable_request change m = m\<lparr>request := change (request m)\<rparr>"
definition release_request :: "rpc_message \<Rightarrow> byte list \<times> rpc_message" where
  "release_request m = (request m, m\<lparr>request := []\<rparr>)"
definition set_allocated_request :: "byte list option \<Rightarrow> rpc_message \<Rightarrow> rpc_message" where
  "set_allocated_request p m = m\<lparr>request := (case p of None \<Rightarrow> [] | Some v \<Rightarrow> v)\<rparr>"

definition clear_response :: "rpc_message \<Rightarrow> rpc_message" where "clear_response m = m\<lparr>response := []\<rparr>"
definition set_response :: "byte list \<Rightarrow> rpc_message \<Rightarrow> rpc_message" where
  "set_response v m = m\<lparr>response := v\<rparr>"
definition mutable_response :: "(byte list \<Rightarrow> byte list) \<Rightarrow> rpc_message \<Rightarrow> rpc_message" where
  "mutable_response change m = m\<lparr>response := change (response m)\<rparr>"
definition release_response :: "rpc_message \<Rightarrow> byte list \<times> rpc_message" where
  "release_response m = (response m, m\<lparr>response := []\<rparr>)"
definition set_allocated_response :: "byte list option \<Rightarrow> rpc_message \<Rightarrow> rpc_message" where
  "set_allocated_response p m = m\<lparr>response := (case p of None \<Rightarrow> [] | Some v \<Rightarrow> v)\<rparr>"

section \<open>The runtime\<close>

record wire =
  put_tag :: "32 word \<Rightarrow> byte list"
  get_tag :: "byte list \<Rightarrow> (32 word \<times> byte list) option"
  put_varint :: "64 word \<Rightarrow> byte list"
  get_varint :: "byte list \<Rightarrow> (64 word \<times> byte list) option"
  varint_size :: "64 word \<Rightarrow> nat"
  put_bytes :: "byte list \<Rightarrow> byte list"
  get_bytes :: "byte list \<Rightarrow> (byte list \<times> byte list) option"
  bytes_size :: "byte list \<Rightarrow> nat"
  get_unknown :: "32 word \<Rightarrow> byte list \<Rightarrow> (byte list \<times> byte list) option"
  utf8 :: "byte list \<Rightarrow> bool"

text \<open>An enum goes out as a sign-extended varint; a varint comes in cut to 32 bits.\<close>

definition enum_out :: "32 word \<Rightarrow> 64 word" where "enum_out v = scast v"
definition enum_in :: "64 word \<Rightarrow> 32 word" where "enum_in v = ucast v"

lemma enum_in_out [simp]: "enum_in (enum_out v) = v"
  unfolding enum_in_def enum_out_def
  by (rule bit_word_eqI) (auto simp: bit_simps)

section \<open>Serialization\<close>

definition opt_field :: "bool \<Rightarrow> byte list \<Rightarrow> byte list" where
  "opt_field present bs = (if present then bs else [])"

definition InternalSerialize :: "wire \<Rightarrow> rpc_message \<Rightarrow> byte list" where
  "InternalSerialize W m =
     opt_field (msg_type m \<noteq> 0) (put_tag W 8 @ put_varint W (enum_out (msg_type m))) @
     opt_field (msg_id m \<noteq> 0) (put_tag W 16 @ put_varint W (msg_id m)) @
     opt_field (service m \<noteq> []) (put_tag W 26 @ put_bytes W (service m)) @
     opt_field (method_name m \<noteq> []) (put_tag W 34 @ put_bytes W (method_name m)) @
     opt_field (request m \<noteq> []) (put_tag W 42 @ put_bytes W (request m)) @
     opt_field (response m \<noteq> []) (put_tag W 50 @ put_bytes W (response m)) @
     opt_field (msg_error m \<noteq> 0) (put_tag W 56 @ put_varint W (enum_out (msg_error m))) @
     unknown_fields m"

definition ByteSizeLong :: "wire \<Rightarrow> rpc_message \<Rightarrow> nat" where
  "ByteSizeLong W m =
     (if service m \<noteq> [] then 1 + bytes_size W (service m) else 0) +
     (if method_name m \<noteq> [] then 1 + bytes_size W (method_name m) else 0) +
     (if request m \<noteq> [] then 1 + bytes_size W (request m) else 0) +
     (if response m \<noteq> [] then 1 + bytes_size W (response m) else 0) +
     (if msg_id m \<noteq> 0 then varint_size W (msg_id m) + 1 else 0) +
     (if msg_type m \<noteq> 0 then 1 + varint_size W (enum_out (msg_type m)) else 0) +
     (if msg_error m \<noteq> 0 then 1 + varint_size W (enum_out (msg_error m)) else 0) +
     length (unknown_fields m)"

section \<open>Parsing\<close>

datatype parse_result = Failure | MessageDone rpc_message "byte list" "32 word option" | NoFuel

text \<open>The cases of the \<open>switch\<close>: what is left, and the message with the field set.\<close>

definition parse_known ::
  "wire \<Rightarrow> 32 word \<Rightarrow> byte list \<Rightarrow> rpc_message \<Rightarrow> (byte list \<times> rpc_message) option option" where
  "parse_known W tag ptr m =
     (let field = drop_bit 3 tag; low = (ucast tag :: byte);
          varint = (\<lambda>set. map_option (\<lambda>(v, p). (p, set v)) (get_varint W ptr));
          bytes = (\<lambda>check set. case get_bytes W ptr of None \<Rightarrow> None
                     | Some (s, p) \<Rightarrow> if check \<longrightarrow> utf8 W s then Some (p, set s) else None) in
      if field = 1 \<and> low = 8 then Some (varint (\<lambda>v. m\<lparr>msg_type := enum_in v\<rparr>))
      else if field = 2 \<and> low = 16 then Some (varint (\<lambda>v. m\<lparr>msg_id := v\<rparr>))
      else if field = 3 \<and> low = 26 then Some (bytes True (\<lambda>s. m\<lparr>service := s\<rparr>))
      else if field = 4 \<and> low = 34 then Some (bytes True (\<lambda>s. m\<lparr>method_name := s\<rparr>))
      else if field = 5 \<and> low = 42 then Some (bytes False (\<lambda>s. m\<lparr>request := s\<rparr>))
      else if field = 6 \<and> low = 50 then Some (bytes False (\<lambda>s. m\<lparr>response := s\<rparr>))
      else if field = 7 \<and> low = 56 then Some (varint (\<lambda>v. m\<lparr>msg_error := enum_in v\<rparr>))
      else None)"

fun parse_loop :: "wire \<Rightarrow> nat \<Rightarrow> byte list \<Rightarrow> rpc_message \<Rightarrow> parse_result" where
  "parse_loop W 0 ptr m = NoFuel"
| "parse_loop W (Suc n) ptr m =
     (if ptr = [] then MessageDone m [] None
      else case get_tag W ptr of
        None \<Rightarrow> Failure
      | Some (tag, p) \<Rightarrow>
          (case parse_known W tag p m of
             Some None \<Rightarrow> Failure
           | Some (Some (p1, m1)) \<Rightarrow> parse_loop W n p1 m1
           | None \<Rightarrow>
               if tag = 0 \<or> tag AND 7 = 4 then MessageDone m p (Some tag)
               else
                 (case get_unknown W tag p of
                    None \<Rightarrow> Failure
                  | Some (raw, p1) \<Rightarrow>
                      parse_loop W n p1 (m\<lparr>unknown_fields := unknown_fields m @ raw\<rparr>))))"

text \<open>\<open>ParseFromArray\<close>: clear, parse, and succeed when the input ended the message.\<close>

definition ParseFromArray :: "wire \<Rightarrow> byte list \<Rightarrow> rpc_message \<Rightarrow> rpc_message option" where
  "ParseFromArray W bs m =
     (case parse_loop W (Suc (length bs)) bs (Clear m) of
        MessageDone m' rest None \<Rightarrow> Some m'
      | _ \<Rightarrow> None)"

section \<open>What is relied on\<close>

definition wire_ok :: "wire \<Rightarrow> bool" where
  "wire_ok W \<longleftrightarrow>
     (\<forall>t r. t < 128 \<and> t \<noteq> 0 \<longrightarrow> length (put_tag W t) = 1 \<and> get_tag W (put_tag W t @ r) = Some (t, r)) \<and>
     (\<forall>v r. get_varint W (put_varint W v @ r) = Some (v, r) \<and> length (put_varint W v) = varint_size W v) \<and>
     (\<forall>s r. length s < 2 ^ 31 \<longrightarrow>
        get_bytes W (put_bytes W s @ r) = Some (s, r) \<and> length (put_bytes W s) = bytes_size W s)"

text \<open>Reading never gives back more than it got, and a tag takes at least a byte.\<close>

definition wire_consumes :: "wire \<Rightarrow> bool" where
  "wire_consumes W \<longleftrightarrow>
     (\<forall>b t r. get_tag W b = Some (t, r) \<longrightarrow> length r < length b) \<and>
     (\<forall>b v r. get_varint W b = Some (v, r) \<longrightarrow> length r \<le> length b) \<and>
     (\<forall>b s r. get_bytes W b = Some (s, r) \<longrightarrow> length r \<le> length b) \<and>
     (\<forall>t b s r. get_unknown W t b = Some (s, r) \<longrightarrow> length r \<le> length b)"

lemma parse_known_consumes:
  assumes "wire_consumes W" and "parse_known W tag p m = Some (Some (p1, m1))"
  shows "length p1 \<le> length p"
proof -
  have v: "length p1 \<le> length p" if "map_option (\<lambda>(v, p). (p, set v)) (get_varint W p) = Some (p1, m1)"
    for set :: "64 word \<Rightarrow> rpc_message"
    using that assms(1) by (auto simp: wire_consumes_def)
  have b: "length p1 \<le> length p" if "(case get_bytes W p of None \<Rightarrow> None
      | Some (s, p) \<Rightarrow> if check \<longrightarrow> utf8 W s then Some (p, set s) else None) = Some (p1, m1)"
    for set :: "byte list \<Rightarrow> rpc_message" and check
    using that assms(1) by (auto simp: wire_consumes_def split: option.splits if_splits)
  show ?thesis using assms(2) v b unfolding parse_known_def Let_def
    by (auto split: if_splits)
qed

lemma parse_loop_fuel:
  assumes "wire_consumes W"
  shows "length ptr < n \<Longrightarrow> parse_loop W n ptr m \<noteq> NoFuel"
proof (induction n arbitrary: ptr m)
  case 0
  then show ?case by simp
next
  case (Suc n)
  have known: "parse_loop W n p1 m1 \<noteq> NoFuel"
    if "get_tag W ptr = Some (tag, p)" "parse_known W tag p m = Some (Some (p1, m1))" for tag p p1 m1
  proof (rule Suc.IH)
    show "length p1 < n"
      using that parse_known_consumes [OF assms that(2)] assms Suc.prems
      unfolding wire_consumes_def by fastforce
  qed
  have unknown: "parse_loop W n p1 m1 \<noteq> NoFuel"
    if "get_tag W ptr = Some (tag, p)" "get_unknown W tag p = Some (raw, p1)" for tag p p1 m1 raw
  proof (rule Suc.IH)
    show "length p1 < n"
      using that assms Suc.prems unfolding wire_consumes_def by fastforce
  qed
  show ?case using known unknown by (simp split: option.split prod.split)
qed

lemma parse_loop_more:
  "parse_loop W n ptr m \<noteq> NoFuel \<Longrightarrow> parse_loop W (n + k) ptr m = parse_loop W n ptr m"
proof (induction n arbitrary: ptr m)
  case 0
  then show ?case by simp
next
  case (Suc n)
  show ?case using Suc.prems by (auto simp: Suc.IH split: option.split prod.split if_splits)
qed

section \<open>Round trip\<close>

text \<open>After some rounds the parser is at \<open>ptr'\<close> with the message \<open>m'\<close>.\<close>

definition reaches :: "wire \<Rightarrow> byte list \<Rightarrow> rpc_message \<Rightarrow> byte list \<Rightarrow> rpc_message \<Rightarrow> bool" where
  "reaches W ptr m ptr' m' \<longleftrightarrow> (\<exists>k. \<forall>n. parse_loop W (k + n) ptr m = parse_loop W n ptr' m')"

lemma reaches_refl: "reaches W ptr m ptr m"
  unfolding reaches_def by (rule exI [of _ 0]) simp

lemma reaches_trans:
  assumes "reaches W p m p1 m1" and "reaches W p1 m1 p2 m2"
  shows "reaches W p m p2 m2"
proof -
  from assms obtain j k where j: "\<And>n. parse_loop W (j + n) p m = parse_loop W n p1 m1"
    and k: "\<And>n. parse_loop W (k + n) p1 m1 = parse_loop W n p2 m2"
    unfolding reaches_def by blast
  have "parse_loop W ((j + k) + n) p m = parse_loop W n p2 m2" for n
    using j [of "k + n"] k [of n] by (simp add: add.assoc)
  then show ?thesis unfolding reaches_def by blast
qed

lemma reaches_field:
  assumes "wire_ok W" and "t < 128" and "t \<noteq> 0"
    and "parse_known W t (bs @ r) m = Some (Some (r, m'))"
  shows "reaches W (opt_field present (put_tag W t @ bs) @ r) m r (if present then m' else m)"
proof (cases present)
  case True
  from assms(1-3) have "put_tag W t \<noteq> []" and "get_tag W (put_tag W t @ bs @ r) = Some (t, bs @ r)"
    unfolding wire_ok_def by (metis length_0_conv zero_neq_one, metis)
  with assms(4) have "parse_loop W (1 + n) (put_tag W t @ bs @ r) m = parse_loop W n r m'" for n
    by simp
  with True show ?thesis unfolding reaches_def opt_field_def by (metis append.assoc)
next
  case False
  then show ?thesis by (simp add: opt_field_def reaches_refl)
qed

lemma known_fields:
  assumes "wire_ok W"
  shows "parse_known W 8 (put_varint W v @ r) m = Some (Some (r, m\<lparr>msg_type := enum_in v\<rparr>))"
    and "parse_known W 16 (put_varint W v @ r) m = Some (Some (r, m\<lparr>msg_id := v\<rparr>))"
    and "parse_known W 56 (put_varint W v @ r) m = Some (Some (r, m\<lparr>msg_error := enum_in v\<rparr>))"
    and "length s < 2 ^ 31 \<Longrightarrow> utf8 W s \<Longrightarrow>
      parse_known W 26 (put_bytes W s @ r) m = Some (Some (r, m\<lparr>service := s\<rparr>))"
    and "length s < 2 ^ 31 \<Longrightarrow> utf8 W s \<Longrightarrow>
      parse_known W 34 (put_bytes W s @ r) m = Some (Some (r, m\<lparr>method_name := s\<rparr>))"
    and "length s < 2 ^ 31 \<Longrightarrow>
      parse_known W 42 (put_bytes W s @ r) m = Some (Some (r, m\<lparr>request := s\<rparr>))"
    and "length s < 2 ^ 31 \<Longrightarrow>
      parse_known W 50 (put_bytes W s @ r) m = Some (Some (r, m\<lparr>response := s\<rparr>))"
  using assms by (simp_all add: wire_ok_def parse_known_def)

text \<open>What the generated code can write and read back.\<close>

definition rpc_ok :: "wire \<Rightarrow> rpc_message \<Rightarrow> bool" where
  "rpc_ok W m \<longleftrightarrow> utf8 W (service m) \<and> utf8 W (method_name m) \<and> length (service m) < 2 ^ 31 \<and>
     length (method_name m) < 2 ^ 31 \<and> length (request m) < 2 ^ 31 \<and> length (response m) < 2 ^ 31 \<and>
     unknown_fields m = []"

lemma serialize_reaches:
  assumes W: "wire_ok W" and m: "rpc_ok W m"
  shows "reaches W (InternalSerialize W m) RpcMessage_ctor [] m"
proof -
  note field = reaches_field [OF W]
  note known = known_fields [OF W]
  let ?m1 = "if msg_type m \<noteq> 0 then RpcMessage_ctor\<lparr>msg_type := msg_type m\<rparr> else RpcMessage_ctor"
  let ?m2 = "if msg_id m \<noteq> 0 then ?m1\<lparr>msg_id := msg_id m\<rparr> else ?m1"
  let ?m3 = "if service m \<noteq> [] then ?m2\<lparr>service := service m\<rparr> else ?m2"
  let ?m4 = "if method_name m \<noteq> [] then ?m3\<lparr>method_name := method_name m\<rparr> else ?m3"
  let ?m5 = "if request m \<noteq> [] then ?m4\<lparr>request := request m\<rparr> else ?m4"
  let ?m6 = "if response m \<noteq> [] then ?m5\<lparr>response := response m\<rparr> else ?m5"
  let ?m7 = "if msg_error m \<noteq> 0 then ?m6\<lparr>msg_error := msg_error m\<rparr> else ?m6"
  have lens: "length (service m) < 2 ^ 31" "length (method_name m) < 2 ^ 31" "length (request m) < 2 ^ 31"
      "length (response m) < 2 ^ 31" "utf8 W (service m)" "utf8 W (method_name m)" "unknown_fields m = []"
    using m by (simp_all add: rpc_ok_def)
  define r7 where "r7 = opt_field (msg_error m \<noteq> 0) (put_tag W 56 @ put_varint W (enum_out (msg_error m)))"
  define r6 where "r6 = opt_field (response m \<noteq> []) (put_tag W 50 @ put_bytes W (response m)) @ r7"
  define r5 where "r5 = opt_field (request m \<noteq> []) (put_tag W 42 @ put_bytes W (request m)) @ r6"
  define r4 where "r4 = opt_field (method_name m \<noteq> []) (put_tag W 34 @ put_bytes W (method_name m)) @ r5"
  define r3 where "r3 = opt_field (service m \<noteq> []) (put_tag W 26 @ put_bytes W (service m)) @ r4"
  define r2 where "r2 = opt_field (msg_id m \<noteq> 0) (put_tag W 16 @ put_varint W (msg_id m)) @ r3"
  have enum: "reaches W (opt_field p (put_tag W t @ put_varint W (enum_out v)) @ r) x r (if p then y v else x)"
    if "parse_known W t (put_varint W (enum_out v) @ r) x = Some (Some (r, y (enum_in (enum_out v))))"
      "t < 128" "t \<noteq> 0" for p t v r x y
    using field [OF that(2,3,1)] by (simp only: enum_in_out)
  have last: "reaches W r7 x [] (if msg_error m \<noteq> 0 then x\<lparr>msg_error := msg_error m\<rparr> else x)" for x
  proof -
    have "reaches W (r7 @ []) x [] (if msg_error m \<noteq> 0 then x\<lparr>msg_error := msg_error m\<rparr> else x)"
      unfolding r7_def
      by (rule enum [where y = "\<lambda>v. x\<lparr>msg_error := v\<rparr>"])
        (insert known(3) [of "enum_out (msg_error m)" "[]" x], simp_all)
    then show ?thesis by simp
  qed
  have "InternalSerialize W m =
      opt_field (msg_type m \<noteq> 0) (put_tag W 8 @ put_varint W (enum_out (msg_type m))) @ r2"
    by (simp add: InternalSerialize_def r2_def r3_def r4_def r5_def r6_def r7_def lens(7))
  moreover have "reaches W (opt_field (msg_type m \<noteq> 0) (put_tag W 8 @ put_varint W (enum_out (msg_type m))) @ r2)
      RpcMessage_ctor r2 ?m1"
    by (rule enum [where y = "\<lambda>v. RpcMessage_ctor\<lparr>msg_type := v\<rparr>"]) (simp_all add: known)
  ultimately have "reaches W (InternalSerialize W m) RpcMessage_ctor r2 ?m1" by (simp only:)
  also have "reaches W r2 ?m1 r3 ?m2"
    unfolding r2_def by (rule field [OF _ _ known(2)]) simp_all
  also (reaches_trans) have "reaches W r3 ?m2 r4 ?m3"
    unfolding r3_def by (rule field [OF _ _ known(4)]) (insert lens, simp_all)
  also (reaches_trans) have "reaches W r4 ?m3 r5 ?m4"
    unfolding r4_def by (rule field [OF _ _ known(5)]) (insert lens, simp_all)
  also (reaches_trans) have "reaches W r5 ?m4 r6 ?m5"
    unfolding r5_def by (rule field [OF _ _ known(6)]) (insert lens, simp_all)
  also (reaches_trans) have "reaches W r6 ?m5 r7 ?m6"
    unfolding r6_def by (rule field [OF _ _ known(7)]) (insert lens, simp_all)
  also (reaches_trans) have "reaches W r7 ?m6 [] ?m7"
    by (rule last)
  finally (reaches_trans) have "reaches W (InternalSerialize W m) RpcMessage_ctor [] ?m7" .
  moreover have "?m7 = m"
    using lens(7) by (simp add: RpcMessage_ctor_def)
  ultimately show ?thesis by simp
qed

lemma length_InternalSerialize:
  assumes "wire_ok W" and "rpc_ok W m"
  shows "length (InternalSerialize W m) = ByteSizeLong W m"
proof -
  have tag: "length (put_tag W t) = 1" if "t < 128" "t \<noteq> 0" for t
    using assms(1) that by (simp add: wire_ok_def)
  have varint: "length (put_varint W v) = varint_size W v" for v
    using assms(1) by (simp add: wire_ok_def)
  have bytes: "length (put_bytes W s) = bytes_size W s" if "length s < 2 ^ 31" for s
    using assms(1) that by (simp add: wire_ok_def)
  have "length (service m) < 2 ^ 31" "length (method_name m) < 2 ^ 31" "length (request m) < 2 ^ 31"
      "length (response m) < 2 ^ 31"
    using assms(2) by (simp_all add: rpc_ok_def)
  note bytes [OF this(1)] bytes [OF this(2)] bytes [OF this(3)] bytes [OF this(4)]
  then show ?thesis
    by (simp add: InternalSerialize_def ByteSizeLong_def opt_field_def tag varint)
qed

text \<open>Copying gives the source; merging into a cleared message is copying.\<close>

lemma CopyFrom_eq: "CopyFrom False from m = from"
  by (cases "from"; cases m) (simp add: CopyFrom_def MergeImpl_def Clear_def Let_def)

lemma RpcMessage_copy_eq: "RpcMessage_copy from = from"
  by (cases "from") (simp add: RpcMessage_copy_def RpcMessage_ctor_def Let_def)

lemma InternalSwap_eq: "InternalSwap a b = (b, a)"
  by (cases a; cases b) (simp add: InternalSwap_def)

lemma RpcMessage_move_eq: "RpcMessage_move from = (from, RpcMessage_ctor)"
  by (simp add: RpcMessage_move_def move_assign_def InternalSwap_eq)

text \<open>Merging is associative and has the empty message as its unit: later messages win, field by field.\<close>

lemma MergeFrom_empty: "MergeFrom RpcMessage_ctor m = m" "MergeFrom m RpcMessage_ctor = m"
  by (cases m; simp add: MergeFrom_def MergeImpl_def RpcMessage_ctor_def Let_def)+

lemma MergeFrom_fields:
  "service (MergeFrom src m) = (if service src \<noteq> [] then service src else service m)"
  "method_name (MergeFrom src m) = (if method_name src \<noteq> [] then method_name src else method_name m)"
  "request (MergeFrom src m) = (if request src \<noteq> [] then request src else request m)"
  "response (MergeFrom src m) = (if response src \<noteq> [] then response src else response m)"
  "msg_id (MergeFrom src m) = (if msg_id src \<noteq> 0 then msg_id src else msg_id m)"
  "msg_type (MergeFrom src m) = (if msg_type src \<noteq> 0 then msg_type src else msg_type m)"
  "msg_error (MergeFrom src m) = (if msg_error src \<noteq> 0 then msg_error src else msg_error m)"
  "unknown_fields (MergeFrom src m) = unknown_fields m @ unknown_fields src"
  by (simp_all add: MergeFrom_def MergeImpl_def Let_def)

lemma MergeFrom_assoc: "MergeFrom c (MergeFrom b a) = MergeFrom (MergeFrom c b) a"
  by (rule rpc_message.equality) (simp_all add: MergeFrom_fields)

lemma Clear_eq: "Clear m = RpcMessage_ctor"
  by (cases m) (simp add: Clear_def RpcMessage_ctor_def)

section \<open>The wire format's own varints\<close>

fun enc :: "nat \<Rightarrow> byte list" where
  "enc n = (if n < 128 then [of_nat n] else of_nat (n mod 128 + 128) # enc (n div 128))"

declare enc.simps [simp del]

fun unenc :: "byte list \<Rightarrow> (nat \<times> byte list) option" where
  "unenc [] = None"
| "unenc (b # bs) =
     (if unat b < 128 then Some (unat b, bs)
      else map_option (\<lambda>(n, r). (unat b - 128 + 128 * n, r)) (unenc bs))"

lemma unenc_enc: "unenc (enc n @ r) = Some (n, r)"
proof (induction n rule: enc.induct)
  case (1 n)
  show ?case
  proof (cases "n < 128")
    case True
    then show ?thesis by (subst enc.simps) (simp add: unat_of_nat)
  next
    case False
    have "n mod 128 < 128" by simp
    then have "(n mod 128 + 128) mod 2 ^ LENGTH(8) = n mod 128 + 128"
      by (intro mod_less) simp
    then have "unat (of_nat (n mod 128 + 128) :: byte) = n mod 128 + 128"
      by (simp only: unat_of_nat)
    moreover have "n mod 128 + 128 * (n div 128) = n" by simp
    ultimately show ?thesis using False 1 by (subst enc.simps) simp
  qed
qed

lemma unenc_shorter: "unenc b = Some (n, r) \<Longrightarrow> length r < length b"
proof (induction b arbitrary: n r)
  case (Cons x b)
  then show ?case by (fastforce split: if_splits)
qed simp

definition leb128 :: wire where
  "leb128 = \<lparr>put_tag = (\<lambda>t. enc (unat t)),
     get_tag = (\<lambda>b. map_option (\<lambda>(n, r). (of_nat n, r)) (unenc b)),
     put_varint = (\<lambda>v. enc (unat v)),
     get_varint = (\<lambda>b. map_option (\<lambda>(n, r). (of_nat n, r)) (unenc b)),
     varint_size = (\<lambda>v. length (enc (unat v))),
     put_bytes = (\<lambda>s. enc (length s) @ s),
     get_bytes = (\<lambda>b. case unenc b of None \<Rightarrow> None
       | Some (n, r) \<Rightarrow> if n \<le> length r then Some (take n r, drop n r) else None),
     bytes_size = (\<lambda>s. length (enc (length s)) + length s),
     get_unknown = (\<lambda>t b. None),
     utf8 = list_all (\<lambda>c. c < 128)\<rparr>"

lemma leb128_ok: "wire_ok leb128"
proof -
  have "length (enc (unat t)) = 1" if "t < 128" for t :: "32 word"
    using that by (subst enc.simps) (simp add: word_less_nat_alt)
  then show ?thesis by (simp add: wire_ok_def leb128_def unenc_enc)
qed

lemma leb128_consumes: "wire_consumes leb128"
  by (auto simp: wire_consumes_def leb128_def dest!: unenc_shorter split: option.splits if_splits)

section \<open>Properties\<close>

text \<open>C13: RPC messages survive the wire: for a runtime that reads back what it writes, parsing the
  serialized form of a message (with UTF-8 names, fields below 2 GiB and no unknown fields)
  gives that message back, whatever the target held before, enum values outside the declared
  ones included; and ByteSizeLong announces exactly the number of bytes written.\<close>

theorem rpc_message_roundtrip:
  assumes "wire_ok W" and "wire_consumes W" and "rpc_ok W m"
  shows "ParseFromArray W (InternalSerialize W m) old = Some m \<and>
    length (InternalSerialize W m) = ByteSizeLong W m"
proof -
  let ?bs = "InternalSerialize W m"
  from serialize_reaches [OF assms(1,3)] obtain k where
    k: "\<And>n. parse_loop W (k + n) ?bs RpcMessage_ctor = parse_loop W n [] m"
    unfolding reaches_def by blast
  have fin: "parse_loop W (k + 1) ?bs RpcMessage_ctor = MessageDone m [] None"
    using k [of 1] by simp
  have "parse_loop W (Suc (length ?bs)) ?bs RpcMessage_ctor \<noteq> NoFuel"
    by (rule parse_loop_fuel [OF assms(2)]) simp
  from parse_loop_more [OF this, of "k + 1"] parse_loop_more [of W "k + 1" ?bs RpcMessage_ctor "Suc (length ?bs)"] fin
  have "parse_loop W (Suc (length ?bs)) ?bs RpcMessage_ctor = MessageDone m [] None"
    by (simp add: add.commute add.left_commute)
  then show ?thesis
    using length_InternalSerialize [OF assms(1,3)] by (simp add: ParseFromArray_def Clear_eq)
qed

definition sample_message :: rpc_message where
  "sample_message = RpcMessage_ctor\<lparr>service := [97], method_name := [98], request := [1, 2, 255],
     msg_id := 300, msg_type := 1\<rparr>"

lemma rpc_message_roundtrip_witness:
  "ParseFromArray leb128 (InternalSerialize leb128 sample_message) RpcMessage_ctor = Some sample_message"
proof -
  have "rpc_ok leb128 sample_message"
    by (simp add: rpc_ok_def sample_message_def RpcMessage_ctor_def leb128_def)
  from rpc_message_roundtrip [OF leb128_ok leb128_consumes this] show ?thesis by blast
qed

end
