(* ===== verification/Codec.thy ===== *)
theory Codec
  imports Buffer RpcMessage
begin

text \<open>
  class ProtoRpcCodec (rpto_rpc/rpc_framework/Rpc.Codec.h, rpto_rpc/rpc_framework/Rpc.Codec.cc).

  \<^item> A frame is the length, the tag "RPC0", the serialized message and the checksum; the length
    counts everything behind itself; both integers are in network order (\<open>frame\<close>).
  \<^item> zlib's \<open>adler32\<close> is an argument, used only through its value on the empty input
    (documented to be the start value). Messages are RpcMessages; their runtime is the
    argument \<open>W\<close> of theory RpcMessage.
  \<^item> \<open>messagecb_\<close> is a function on a state of its own that gets the message. \<open>buf\<close> arguments
    that are pointers are the bytes from there to the end of the readable part.
  \<^item> \<open>onMessage\<close>'s loop has fuel; every round that goes on takes at least eight bytes out of
    the buffer, so fuel beyond the number of readable bytes is enough.
  \<^item> A negative size passed to ParseFromArray is \<open>OutOfBounds\<close>.
\<close>

section \<open>Frames\<close>

definition KHeaderLen :: int where "KHeaderLen = 4"
definition KChecksumLen :: int where "KChecksumLen = 4"
definition KMaxMessageLen :: int where "KMaxMessageLen = 64 * 1024 * 1024"
definition KMinMessageLen :: int where "KMinMessageLen = 4"
definition tag :: "byte list" where "tag = [0x52, 0x50, 0x43, 0x30]"

lemmas codec_consts = KHeaderLen_def KChecksumLen_def KMaxMessageLen_def KMinMessageLen_def

datatype codec_error = KNoError | KInvalidLength | KcheckSumError | KInvalidNameLen
  | KUnKnownMessageType | KParseEroor

type_synonym adler = "32 word \<Rightarrow> byte list \<Rightarrow> 32 word"

definition asInt32 :: "host \<Rightarrow> byte list \<Rightarrow> 32 word" where
  "asInt32 h buf = net_to_host_32 h (of_mem h (take 4 buf))"

definition checksum :: "adler \<Rightarrow> byte list \<Rightarrow> int \<Rightarrow> 32 word" where
  "checksum adler buf len = adler 1 (take (nat len) buf)"

definition vailddataChecksum :: "adler \<Rightarrow> host \<Rightarrow> byte list \<Rightarrow> int \<Rightarrow> bool res" where
  "vailddataChecksum adler h buf len =
     (if len < KChecksumLen \<or> int (length buf) < len then Inl OutOfBounds
      else
        let expectedCheckSum = asInt32 h (drop (nat (len - KChecksumLen)) buf);
            actualCheckSum = checksum adler buf (len - KChecksumLen) in
        Inr (expectedCheckSum = actualCheckSum))"

section \<open>Sending\<close>

definition serializeToBuffer :: "wire \<Rightarrow> rpc_message \<Rightarrow> buffer \<Rightarrow> (int \<times> buffer) res" where
  "serializeToBuffer W message buf =
     (if ByteSizeLong W message \<ge> 2 ^ 31 then Inl FatalLog
      else
        let byte_size = int (ByteSizeLong W message) in
        bind_res (ensureWriteableBytes (of_int (byte_size + KChecksumLen)) buf) (\<lambda>buf1.
        bind_res (write_at (buffer_vec buf1) (writeIndex buf1) (InternalSerialize W message)) (\<lambda>v.
        bind_res (hasWritten (of_int byte_size) (buf1\<lparr>buffer_vec := v\<rparr>)) (\<lambda>buf2.
        Inr (byte_size, buf2)))))"

definition fillEmptyMessage :: "adler \<Rightarrow> wire \<Rightarrow> host \<Rightarrow> rpc_message \<Rightarrow> buffer \<Rightarrow> buffer res" where
  "fillEmptyMessage adler W h message buf =
     bind_res (assert_res (readableBytes buf = 0)) (\<lambda>_.
     bind_res (Buffer.append tag buf) (\<lambda>b1.
     bind_res (serializeToBuffer W message b1) (\<lambda>(byte_size, b2).
     bind_res (read_at (buffer_vec b2) (readerIndex b2) (readableBytes b2)) (\<lambda>readable.
     let checkSum = checksum adler readable (int (length readable)) in
     bind_res (appendInt32 h checkSum b2) (\<lambda>b3.
     bind_res (assert_res (readableBytes b3 =
       of_nat (length tag) + of_int byte_size + of_int KChecksumLen)) (\<lambda>_.
     let len = host_to_net_32 h (ucast (readableBytes b3)) in
     prepend (mem h 4 len) b3))))))"

text \<open>\<open>buf0\<close> is the freshly constructed buffer; the result is what is handed to
  \<open>TcpConnection::send\<close>.\<close>

definition codec_send :: "adler \<Rightarrow> wire \<Rightarrow> host \<Rightarrow> buffer \<Rightarrow> rpc_message \<Rightarrow> buffer res" where
  "codec_send adler W h buf0 message = fillEmptyMessage adler W h message buf0"

section \<open>Receiving\<close>

definition parseFromBuffer :: "wire \<Rightarrow> byte list \<Rightarrow> int \<Rightarrow> rpc_message \<Rightarrow> rpc_message option res" where
  "parseFromBuffer W buf len message =
     (if len < 0 \<or> int (length buf) < len then Inl OutOfBounds
      else Inr (ParseFromArray W (take (nat len) buf) message))"

definition parse ::
  "adler \<Rightarrow> wire \<Rightarrow> host \<Rightarrow> byte list \<Rightarrow> int \<Rightarrow> rpc_message \<Rightarrow> (codec_error \<times> rpc_message) res" where
  "parse adler W h buf len message =
     bind_res (vailddataChecksum adler h buf len) (\<lambda>valid.
     if valid then
       if take (length tag) buf \<noteq> tag then
         let data = drop (length tag) buf;
             datalen = len - KChecksumLen - int (length tag) in
         bind_res (parseFromBuffer W data datalen message) (\<lambda>r.
         case r of Some m \<Rightarrow> Inr (KNoError, m) | None \<Rightarrow> Inr (KParseEroor, message))
       else Inr (KUnKnownMessageType, message)
     else Inr (KcheckSumError, message))"

fun onMessage ::
  "adler \<Rightarrow> wire \<Rightarrow> host \<Rightarrow> (rpc_message \<Rightarrow> 's \<Rightarrow> 's res) \<Rightarrow> nat \<Rightarrow> buffer \<times> 's \<Rightarrow>
   (buffer \<times> 's) res option" where
  "onMessage adler W h messagecb 0 (buffer, s) = None"
| "onMessage adler W h messagecb (Suc n) (buffer, s) =
     (if readableBytes buffer \<ge> of_int (KChecksumLen + KHeaderLen) then
        (case peekInt32 h buffer of
           Inl e \<Rightarrow> Some (Inl e)
         | Inr len32 \<Rightarrow>
             let len = sint len32 in
             if len > KMaxMessageLen \<or> len < KMinMessageLen then Some (Inr (buffer, s))
             else if readableBytes buffer \<ge> of_int (KHeaderLen + len) then
               (case bind_res (read_at (buffer_vec buffer) (readerIndex buffer) (readableBytes buffer))
                  (\<lambda>bytes. parse adler W h (drop (nat KHeaderLen) bytes) len RpcMessage_ctor) of
                  Inl e \<Rightarrow> Some (Inl e)
                | Inr (errorCode, message) \<Rightarrow>
                    if errorCode = KNoError then
                      (case bind_res (messagecb message s) (\<lambda>s1.
                         bind_res (retrieve (of_int (KHeaderLen + len)) buffer) (\<lambda>b1. Inr (b1, s1))) of
                         Inl e \<Rightarrow> Some (Inl e)
                       | Inr st \<Rightarrow> onMessage adler W h messagecb n st)
                    else Some (Inr (buffer, s)))
             else Some (Inr (buffer, s)))
      else Some (Inr (buffer, s)))"

section \<open>What is written\<close>

definition be32 :: "32 word \<Rightarrow> byte list" where "be32 x = rev (bytes_le 4 x)"

lemma length_be32 [simp]: "length (be32 x) = 4"
  by (simp add: be32_def)

definition body :: "adler \<Rightarrow> byte list \<Rightarrow> byte list" where
  "body adler payload = tag @ payload @ be32 (adler 1 (tag @ payload))"

definition frame :: "adler \<Rightarrow> byte list \<Rightarrow> byte list" where
  "frame adler payload = be32 (of_nat (length (body adler payload))) @ body adler payload"

lemma length_tag [simp]: "length tag = 4"
  by (simp add: tag_def)

lemma length_body [simp]: "length (body adler payload) = length payload + 8"
  by (simp add: body_def)

lemma asInt32_be32: "asInt32 h (be32 x @ r) = x"
proof -
  have "take 4 (be32 x @ r) = mem h 4 (host_to_net_32 h x)"
    by (simp add: mem_host_to_net_32 be32_def)
  then show ?thesis by (simp add: asInt32_def of_mem_mem)
qed

text \<open>The readable part never moves in front of the cheap prepend space.\<close>

lemma makespace_reader:
  "makespace len b = Inr b' \<Longrightarrow> readerIndex b' = readerIndex b \<or> readerIndex b' = KCheapPrependSize"
  by (auto simp: makespace_def Let_def bind_res_eq_Inr split: if_splits)

lemma ensureWriteableBytes_reader:
  "ensureWriteableBytes len b = Inr b' \<Longrightarrow> readerIndex b' = readerIndex b \<or> readerIndex b' = KCheapPrependSize"
  by (auto simp: ensureWriteableBytes_def bind_res_eq_Inr dest: makespace_reader split: if_splits)

lemma append_reader:
  "Buffer.append d b = Inr b' \<Longrightarrow> readerIndex b' = readerIndex b \<or> readerIndex b' = KCheapPrependSize"
  by (auto simp: append_def hasWritten_def bind_res_eq_Inr dest: ensureWriteableBytes_reader)

lemma appendInt32_reader:
  "appendInt32 h x b = Inr b' \<Longrightarrow> readerIndex b' = readerIndex b \<or> readerIndex b' = KCheapPrependSize"
  by (auto simp: appendInt32_def dest: append_reader)

lemma write_payload:
  assumes inv: "buf_inv b" and room: "length d \<le> unat (writeableBytes b)"
  shows "\<exists>b'. bind_res (write_at (buffer_vec b) (writeIndex b) d)
      (\<lambda>v. hasWritten (of_nat (length d)) (b\<lparr>buffer_vec := v\<rparr>)) = Inr b' \<and> buf_inv b' \<and>
    content b' = content b @ d \<and> readerIndex b' = readerIndex b \<and>
    unat (writeIndex b') = unat (writeIndex b) + length d"
proof -
  note W = write_hasWritten [OF inv room]
  let ?b1 = "b\<lparr>buffer_vec := splice (unat (writeIndex b)) d (buffer_vec b)\<rparr>"
  have "length (splice (unat (writeIndex b)) d (buffer_vec b)) = length (buffer_vec b)"
    using room unat_writeable [OF inv] buf_invD [OF inv] by (intro length_splice) simp
  then have "writeableBytes ?b1 = writeableBytes b" by (simp add: writeableBytes_def vector_size_def)
  moreover have "of_nat (length d) \<le> writeableBytes b"
    using room unat_size_lt [of "writeableBytes b"] by (simp add: le_size_iff unat_of_nat_size)
  ultimately have "hasWritten (of_nat (length d)) ?b1 = Inr (?b1\<lparr>writeIndex := writeIndex b + of_nat (length d)\<rparr>)"
    by (simp add: hasWritten_def)
  with W show ?thesis by simp
qed

lemma readable_of_nat: "buf_inv b \<Longrightarrow> readableBytes b = of_nat (length (content b))"
proof -
  assume "buf_inv b"
  have "readableBytes b = of_nat (unat (readableBytes b))" by simp
  then show ?thesis by (simp only: unat_readable [OF \<open>buf_inv b\<close>])
qed

lemma serializeToBuffer_ok:
  assumes inv: "buf_inv b" and W: "wire_ok W" "rpc_ok W m" and small: "ByteSizeLong W m < 2 ^ 30"
    and fits: "unat (writeIndex b) + ByteSizeLong W m + 4 \<le> vector_max_size"
  shows "\<exists>b'. serializeToBuffer W m b = Inr (int (ByteSizeLong W m), b') \<and> buf_inv b' \<and>
    content b' = content b @ InternalSerialize W m \<and>
    (readerIndex b' = readerIndex b \<or> readerIndex b' = KCheapPrependSize) \<and>
    unat (writeIndex b') \<le> unat (writeIndex b) + ByteSizeLong W m"
proof -
  let ?n = "ByteSizeLong W m"
  have len: "length (InternalSerialize W m) = ?n" by (rule length_InternalSerialize [OF W])
  have size: "of_int (int ?n + KChecksumLen) = (of_nat (?n + 4) :: size_t)" by (simp add: KChecksumLen_def)
  have n: "unat (of_nat (?n + 4) :: size_t) = ?n + 4" using small by (intro unat_of_nat_size) simp
  have "buffer_fits (unat (of_nat (?n + 4) :: size_t)) b"
    unfolding n using fits by (simp add: buffer_fits_def)
  from ensureWriteableBytes_ok [OF inv this] n small obtain b1 where
    b1: "ensureWriteableBytes (of_nat (?n + 4)) b = Inr b1" "buf_inv b1" "content b1 = content b"
    and room: "?n + 4 \<le> unat (writeableBytes b1)" and w: "unat (writeIndex b1) \<le> unat (writeIndex b)"
    by (auto simp del: of_nat_add)
  from room len have "length (InternalSerialize W m) \<le> unat (writeableBytes b1)" by simp
  from write_payload [OF b1(2) this] len obtain v b2 where
    b2: "write_at (buffer_vec b1) (writeIndex b1) (InternalSerialize W m) = Inr v"
      "hasWritten (of_nat ?n) (b1\<lparr>buffer_vec := v\<rparr>) = Inr b2" "buf_inv b2"
      "content b2 = content b @ InternalSerialize W m" "readerIndex b2 = readerIndex b1"
      "unat (writeIndex b2) = unat (writeIndex b1) + ?n"
    unfolding bind_res_eq_Inr using b1(3) by auto
  have "serializeToBuffer W m b = Inr (int ?n, b2)"
    using small size b1(1) b2(1,2) by (simp add: serializeToBuffer_def Let_def)
  with b2 w ensureWriteableBytes_reader [OF b1(1)] show ?thesis by auto
qed

lemma fillEmptyMessage_ok:
  assumes inv: "buf_inv b" and empty: "content b = []" and room: "4 \<le> unat (readerIndex b)"
    and W: "wire_ok W" "rpc_ok W m" and small: "ByteSizeLong W m < 2 ^ 30"
    and fits: "unat (writeIndex b) + ByteSizeLong W m + 12 \<le> vector_max_size"
  shows "\<exists>b'. fillEmptyMessage adler W h m b = Inr b' \<and> buf_inv b' \<and>
    content b' = frame adler (InternalSerialize W m)"
proof -
  let ?n = "ByteSizeLong W m" and ?p = "InternalSerialize W m"
  have len: "length ?p = ?n" by (rule length_InternalSerialize [OF W])
  have r0: "readableBytes b = 0" using readable_of_nat [OF inv] empty by simp
  have "buffer_fits (length tag) b" using fits by (simp add: buffer_fits_def)
  from append_ok [OF inv this] empty obtain b1 where
    b1: "Buffer.append tag b = Inr b1" "buf_inv b1" "content b1 = tag"
      "unat (writeIndex b1) \<le> unat (writeIndex b) + 4" by auto
  from b1(4) fits have "unat (writeIndex b1) + ?n + 4 \<le> vector_max_size" by simp
  from serializeToBuffer_ok [OF b1(2) W small this] b1(3) obtain b2 where
    b2: "serializeToBuffer W m b1 = Inr (int ?n, b2)" "buf_inv b2" "content b2 = tag @ ?p"
      "readerIndex b2 = readerIndex b1 \<or> readerIndex b2 = KCheapPrependSize"
      "unat (writeIndex b2) \<le> unat (writeIndex b1) + ?n" by auto
  have read: "read_at (buffer_vec b2) (readerIndex b2) (readableBytes b2) = Inr (tag @ ?p)"
    using read_at_ok [OF b2(2), of "readableBytes b2"] b2(3) unat_readable [OF b2(2)] by simp
  let ?sum = "adler 1 (tag @ ?p)"
  have "buffer_fits 4 b2" using b1(4) b2(5) fits by (simp add: buffer_fits_def)
  from appendInt32_ok [OF b2(2) this, of h ?sum] b2(3) obtain b3 where
    b3: "appendInt32 h ?sum b2 = Inr b3" "buf_inv b3" "content b3 = body adler ?p"
    by (auto simp: body_def be32_def)
  have readable: "readableBytes b3 = of_nat (?n + 8)"
    using readable_of_nat [OF b3(2)] b3(3) len by simp
  have sumlen: "checksum adler (tag @ ?p) (int (length (tag @ ?p))) = ?sum"
    by (simp add: checksum_def)
  have "4 \<le> unat (readerIndex b3)"
    using room append_reader [OF b1(1)] b2(4) appendInt32_reader [OF b3(1)] by auto
  then have "length (mem h 4 (host_to_net_32 h (of_nat (?n + 8)))) \<le> unat (readerIndex b3)" by simp
  from prepend_ok [OF b3(2) this] obtain b4 where
    b4: "prepend (mem h 4 (host_to_net_32 h (of_nat (?n + 8)))) b3 = Inr b4" "buf_inv b4"
      "content b4 = frame adler ?p"
    using b3(3) len by (auto simp: frame_def be32_def mem_host_to_net_32)
  have "take_bit 64 (?n + 8) = ?n + 8" using small by (intro take_bit_nat_eq_self) simp
  then have "(ucast (of_nat (?n + 8) :: size_t) :: 32 word) = of_nat (?n + 8)"
    by (simp del: of_nat_add add: unsigned_of_nat)
  then have "fillEmptyMessage adler W h m b = Inr b4"
    using r0 b1(1) b2(1) read sumlen b3(1) readable b4(1)
    by (simp add: fillEmptyMessage_def KChecksumLen_def Let_def)
  with b4 show ?thesis by blast
qed

section \<open>What is read\<close>

lemma parse_split:
  assumes "length t = 4"
  shows "parse adler W h (t @ p @ be32 x @ rest) (int (length p) + 8) m =
    (if x \<noteq> adler 1 (t @ p) then Inr (KcheckSumError, m)
     else if t = tag then Inr (KUnKnownMessageType, m)
     else case ParseFromArray W p m of Some m' \<Rightarrow> Inr (KNoError, m') | None \<Rightarrow> Inr (KParseEroor, m))"
proof -
  let ?buf = "t @ p @ be32 x @ rest" and ?len = "int (length p) + 8"
  have n: "nat (?len - KChecksumLen) = length (t @ p)" using assms by (simp add: KChecksumLen_def)
  have expected: "asInt32 h (drop (nat (?len - KChecksumLen)) ?buf) = x"
    unfolding n by (simp add: asInt32_be32)
  have actual: "checksum adler ?buf (?len - KChecksumLen) = adler 1 (t @ p)"
    unfolding checksum_def n by simp
  have valid: "vailddataChecksum adler h ?buf ?len = Inr (x = adler 1 (t @ p))"
    using assms expected actual by (simp add: vailddataChecksum_def KChecksumLen_def)
  have t: "take (length tag) ?buf = t" "drop (length tag) ?buf = p @ be32 x @ rest" using assms by simp_all
  have data: "parseFromBuffer W (p @ be32 x @ rest) (?len - KChecksumLen - int (length tag)) m =
      Inr (ParseFromArray W p m)"
    by (simp add: parseFromBuffer_def KChecksumLen_def)
  show ?thesis
    unfolding parse_def valid t Let_def bind_res_Inr data by simp
qed

lemma unat_small_int: "0 \<le> k \<Longrightarrow> k < 2 ^ 63 \<Longrightarrow> unat (of_int k :: size_t) = nat k"
  using unat_of_nat_size [of "nat k"] by simp

lemma sint_length:
  assumes "k \<le> 64 * 1024 * 1024"
  shows "sint (of_nat k :: 32 word) = int k"
proof -
  have "sint (of_nat k :: 32 word) = sint (of_int (int k) :: 32 word)" by simp
  also have "\<dots> = signed_take_bit 31 (int k)" by (simp only: signed_of_int) simp
  also have "\<dots> = int k" using assms by (intro signed_take_bit_int_eq_self) simp_all
  finally show ?thesis .
qed

text \<open>With fewer bytes than the length in front of the buffer announces, the loop stops.\<close>

lemma onMessage_short:
  assumes inv: "buf_inv b" and c: "content b = be32 (of_nat k) @ bytes"
    and k: "k \<le> 64 * 1024 * 1024" "length bytes < k"
  shows "onMessage adler W h cb (Suc n) (b, s) = Some (Inr (b, s))"
proof -
  have peek: "peekInt32 h b = Inr (of_nat k)"
    using inv c by (intro peekInt32_be [where rest = bytes]) (simp_all add: be32_def)
  have readable: "unat (readableBytes b) = length bytes + 4"
    using unat_readable [OF inv] c by simp
  have "\<not> readableBytes b \<ge> of_int (KHeaderLen + int k)"
    unfolding le_size_iff readable using k by (subst unat_small_int) (simp_all add: KHeaderLen_def)
  then show ?thesis unfolding onMessage.simps peek sum.case Let_def sint_length [OF k(1)] by simp
qed

lemma onMessage_stop:
  assumes "buf_inv b" and "length (content b) < 8"
  shows "onMessage adler W h cb (Suc n) (b, s) = Some (Inr (b, s))"
proof -
  have "\<not> readableBytes b \<ge> of_int (KChecksumLen + KHeaderLen)"
    using assms by (simp add: le_size_iff unat_readable KChecksumLen_def KHeaderLen_def)
  then show ?thesis by simp
qed

text \<open>A complete frame in front of the buffer: what one round of the loop looks at.\<close>

lemma onMessage_frame:
  assumes inv: "buf_inv b" and c: "content b = be32 (of_nat k) @ bytes"
    and k: "4 \<le> k" "k \<le> 64 * 1024 * 1024" "k \<le> length bytes"
  shows "onMessage adler W h cb (Suc n) (b, s) =
    (case parse adler W h bytes (int k) RpcMessage_ctor of
       Inl e \<Rightarrow> Some (Inl e)
     | Inr (errorCode, message) \<Rightarrow>
         if errorCode = KNoError then
           (case bind_res (cb message s) (\<lambda>s1.
              bind_res (retrieve (of_int (KHeaderLen + int k)) b) (\<lambda>b1. Inr (b1, s1))) of
              Inl e \<Rightarrow> Some (Inl e) | Inr st \<Rightarrow> onMessage adler W h cb n st)
         else Some (Inr (b, s)))"
proof -
  have peek: "peekInt32 h b = Inr (of_nat k)"
    using inv c by (intro peekInt32_be [where rest = bytes]) (simp_all add: be32_def)
  have readable: "unat (readableBytes b) = length (content b)" by (rule unat_readable [OF inv])
  have read: "read_at (buffer_vec b) (readerIndex b) (readableBytes b) = Inr (content b)"
    using read_at_ok [OF inv, of "readableBytes b"] readable by simp
  have drop4: "drop (nat KHeaderLen) (content b) = bytes" by (simp add: c KHeaderLen_def)
  have sint_k: "sint (of_nat k :: 32 word) = int k" by (rule sint_length [OF k(2)])
  have ge8: "readableBytes b \<ge> of_int (KChecksumLen + KHeaderLen)"
    using k c by (simp add: le_size_iff readable KChecksumLen_def KHeaderLen_def)
  have ge: "readableBytes b \<ge> of_int (KHeaderLen + int k)"
    unfolding le_size_iff readable
    using k c by (subst unat_small_int) (simp_all add: KHeaderLen_def)
  have range: "\<not> (int k > KMaxMessageLen \<or> int k < KMinMessageLen)"
    using k by (simp add: KMaxMessageLen_def KMinMessageLen_def)
  show ?thesis
    unfolding onMessage.simps if_P [OF ge8] peek sum.case Let_def sint_k if_not_P [OF range] if_P [OF ge]
      read bind_res_Inr drop4 ..
qed

text \<open>A round that goes on has taken its frame, at least eight bytes, out of the buffer.\<close>

lemma onMessage_fuel:
  "buf_inv b \<Longrightarrow> length (content b) < n \<Longrightarrow> onMessage adler W h cb n (b, s) \<noteq> None"
proof (induction n arbitrary: b s)
  case 0
  then show ?case by simp
next
  case (Suc n)
  have more: "onMessage adler W h cb n (b1, s1) \<noteq> None"
    if "4 \<le> len" "len \<le> 64 * 1024 * 1024" "readableBytes b \<ge> of_int (4 + len)"
      "retrieve (of_int (4 + len)) b = Inr b1" for len b1 s1
  proof -
    have u: "unat (of_int (4 + len) :: size_t) = nat (4 + len)"
      using that(1,2) by (intro unat_small_int) simp_all
    then have fits: "unat (of_int (4 + len) :: size_t) \<le> length (content b)"
      using that(3) unat_readable [OF Suc.prems(1)] by (simp add: le_size_iff)
    from retrieve_ok [OF Suc.prems(1) this] that(4) u
    have b1: "buf_inv b1" "content b1 = drop (nat (4 + len)) (content b)" by auto
    have "length (content b1) < n" using b1(2) fits u that(1) Suc.prems(2) by simp
    with b1(1) show ?thesis by (rule Suc.IH)
  qed
  show ?case
    using more
    by (auto simp: Let_def codec_consts bind_res_eq_Inr not_less split: sum.split prod.split)
qed

text \<open>A frame of the codec's own, complete or cut off, stops the loop.\<close>

lemma own_frame_stops:
  assumes "buf_inv b" and "frame adler p = got @ missing" and "content b = got @ (if missing = [] then rest else [])"
    and "length p + 8 \<le> 64 * 1024 * 1024"
  shows "onMessage adler W h cb (Suc n) (b, s) = Some (Inr (b, s))"
proof (cases "missing = []")
  case True
  let ?x = "adler 1 (tag @ p)"
  have c: "content b = be32 (of_nat (length p + 8)) @ tag @ p @ be32 ?x @ rest"
    using True assms(2,3) by (simp add: frame_def body_def add.commute)
  have "parse adler W h (tag @ p @ be32 ?x @ rest) (int (length p + 8)) RpcMessage_ctor =
      Inr (KUnKnownMessageType, RpcMessage_ctor)"
    using parse_split [of tag adler W h p ?x rest RpcMessage_ctor] by (simp add: add.commute)
  with onMessage_frame [OF assms(1) c, of adler W h cb n s] assms(4) show ?thesis by simp
next
  case False
  then have c: "content b = got" using assms(3) by simp
  have "length (frame adler p) = length got + length missing" by (simp add: assms(2))
  moreover have "length (frame adler p) = length p + 12" by (simp add: frame_def)
  ultimately have short: "length got < length p + 12" using False by (cases missing) simp_all
  show ?thesis
  proof (cases "8 \<le> length got")
    case False
    with c show ?thesis by (intro onMessage_stop [OF assms(1)]) simp
  next
    case True
    have "take 4 got = take 4 (frame adler p)" using assms(2) True by simp
    then have "got = be32 (of_nat (length p + 8)) @ drop 4 got"
      by (metis append_take_drop_id append_eq_conv_conj frame_def length_be32 length_body)
    with c have "content b = be32 (of_nat (length p + 8)) @ drop 4 got" by simp
    then show ?thesis
      by (rule onMessage_short [OF assms(1)]) (use short True assms(4) in simp_all)
  qed
qed

section \<open>Properties\<close>

lemma sample_message_ok: "rpc_ok leb128 sample_message"
  by (simp add: rpc_ok_def sample_message_def RpcMessage_ctor_def leb128_def)

lemma sample_message_size: "ByteSizeLong leb128 sample_message < 2 ^ 30"
  by (simp add: ByteSizeLong_def sample_message_def RpcMessage_ctor_def leb128_def enc.simps
    enum_out_def)

text \<open>C19: A sent message is one well-formed frame: on a fresh buffer fillEmptyMessage trips no
  assert and leaves exactly the frame of the serialized message: length in network order,
  tag, payload and checksum, the length counting tag, payload and checksum.\<close>

theorem send_writes_frame:
  assumes "buf_inv b" and "content b = []" and "4 \<le> unat (readerIndex b)"
    and "wire_ok W" and "rpc_ok W m" and "ByteSizeLong W m < 2 ^ 30"
    and "unat (writeIndex b) + ByteSizeLong W m + 12 \<le> vector_max_size"
  shows "\<exists>b'. codec_send adler W h b m = Inr b' \<and> buf_inv b' \<and>
    content b' = be32 (of_nat (ByteSizeLong W m + 8)) @ tag @ InternalSerialize W m @
      be32 (adler 1 (tag @ InternalSerialize W m))"
  using fillEmptyMessage_ok [OF assms] length_InternalSerialize [OF assms(4,5)]
  by (simp add: codec_send_def frame_def body_def add.commute)

lemma send_writes_frame_witness:
  "\<exists>b'. codec_send (\<lambda>s bs. s) leb128 LittleEndianHost sample_buffer sample_message = Inr b' \<and>
    drop 4 (take 8 (content b')) = tag"
proof -
  have fits: "unat (writeIndex sample_buffer) + ByteSizeLong leb128 sample_message + 12 \<le> vector_max_size"
    using sample_message_size by (simp add: vector_max_size_def)
  have "4 \<le> unat (readerIndex sample_buffer)" by simp
  from send_writes_frame [OF sample_buffer_inv sample_buffer_content this leb128_ok sample_message_ok
      sample_message_size fits, of "\<lambda>s bs. s" LittleEndianHost]
  show ?thesis by auto
qed

text \<open>The outcome of parse, for every tag, payload and checksum field: a wrong checksum is a
  checksum error; with the right one the tag test is inverted: the codec's own tag is an
  unknown message type, and any other tag is accepted and its payload parsed.\<close>

theorem parse_outcome:
  assumes "length t = 4"
  shows "parse adler W h (t @ p @ be32 x @ rest) (int (length p) + 8) m =
    (if x \<noteq> adler 1 (t @ p) then Inr (KcheckSumError, m)
     else if t = tag then Inr (KUnKnownMessageType, m)
     else case ParseFromArray W p m of Some m' \<Rightarrow> Inr (KNoError, m') | None \<Rightarrow> Inr (KParseEroor, m))"
  using assms by (rule parse_split)

lemma parse_outcome_witness:
  "parse (\<lambda>s bs. s) leb128 LittleEndianHost ([1, 2, 3, 4] @ [] @ be32 1 @ []) 8 RpcMessage_ctor =
     Inr (KNoError, RpcMessage_ctor)"
proof -
  have t: "length [1, 2, 3, 4 :: byte] = 4" by simp
  have "ParseFromArray leb128 [] RpcMessage_ctor = Some RpcMessage_ctor"
    by (simp add: ParseFromArray_def Clear_eq)
  with parse_outcome [OF t, of "\<lambda>s bs. s" leb128 LittleEndianHost "[]" 1 "[]" RpcMessage_ctor]
  show ?thesis by (simp add: tag_def)
qed

text \<open>The codec delivers none of its own messages: with a complete frame as the codec writes
  it in front of the buffer, onMessage returns at once, with nothing delivered and the
  buffer untouched, whatever follows, so the connection is stuck from then on; the same
  happens while the frame is incomplete.\<close>

theorem own_frames_never_delivered:
  assumes "buf_inv b" and "frame adler p = got @ missing" and "content b = got @ (if missing = [] then rest else [])"
    and "length p + 8 \<le> 64 * 1024 * 1024"
  shows "onMessage adler W h cb (Suc n) (b, s) = Some (Inr (b, s))"
  using assms by (rule own_frame_stops)

text \<open>A buffer that holds just the given bytes, behind the prepend space.\<close>

definition buffer_of :: "byte list \<Rightarrow> buffer" where
  "buffer_of bs = \<lparr>buffer_vec = replicate 8 0 @ bs, readerIndex = 8, writeIndex = of_nat (8 + length bs)\<rparr>"

lemma buffer_of:
  assumes "length bs < 2 ^ 62"
  shows "buf_inv (buffer_of bs)" and "content (buffer_of bs) = bs"
proof -
  have "unat (of_nat (8 + length bs) :: size_t) = 8 + length bs"
    using assms by (intro unat_of_nat_size) simp
  then show "buf_inv (buffer_of bs)" and "content (buffer_of bs) = bs"
    using assms by (simp_all add: buf_inv_def content_def buffer_of_def vector_max_size_def del: of_nat_add)
qed

lemma own_frames_never_delivered_witness:
  "onMessage (\<lambda>s bs. s) leb128 LittleEndianHost (\<lambda>m s. Inr (m # s)) 100
     (buffer_of (frame (\<lambda>s bs. s) [8, 1]), []) = Some (Inr (buffer_of (frame (\<lambda>s bs. s) [8, 1]), []))"
proof -
  let ?f = "frame (\<lambda>s bs. s) [8, 1]"
  have small: "length ?f < 2 ^ 62" by (simp add: frame_def)
  have fuel: "100 = Suc 99" by simp
  show ?thesis unfolding fuel
    by (rule own_frames_never_delivered [OF buffer_of(1) [OF small], where p = "[8, 1]" and got = ?f
          and missing = "[]" and rest = "[]"])
      (simp_all add: buffer_of(2) [OF small])
qed

text \<open>Frames that are tagged with anything but "RPC0".\<close>

definition tagged :: "adler \<Rightarrow> byte list \<times> byte list \<Rightarrow> byte list" where
  "tagged adler = (\<lambda>(t, p). be32 (of_nat (length p + 8)) @ t @ p @ be32 (adler 1 (t @ p)))"

definition foreign :: "wire \<Rightarrow> byte list \<times> byte list \<Rightarrow> bool" where
  "foreign W = (\<lambda>(t, p). length t = 4 \<and> t \<noteq> tag \<and> length p + 8 \<le> 64 * 1024 * 1024 \<and>
     ParseFromArray W p RpcMessage_ctor \<noteq> None)"

definition payload_message :: "wire \<Rightarrow> byte list \<times> byte list \<Rightarrow> rpc_message" where
  "payload_message W = (\<lambda>(t, p). the (ParseFromArray W p RpcMessage_ctor))"

text \<open>One round that delivers.\<close>

lemma onMessage_round:
  assumes inv: "buf_inv b" and c: "content b = tagged adler (t, p) @ rest" and f: "foreign W (t, p)"
  shows "\<exists>b1. onMessage adler W h (\<lambda>m s. Inr (f m s)) (Suc n) (b, s) =
      onMessage adler W h (\<lambda>m s. Inr (f m s)) n (b1, f (payload_message W (t, p)) s) \<and>
    buf_inv b1 \<and> content b1 = rest"
proof -
  let ?k = "length p + 8" and ?bytes = "t @ p @ be32 (adler 1 (t @ p)) @ rest"
  from f have t: "length t = 4" "t \<noteq> tag" and k: "?k \<le> 64 * 1024 * 1024"
    and m: "ParseFromArray W p RpcMessage_ctor = Some (payload_message W (t, p))"
    by (auto simp: foreign_def payload_message_def)
  have c': "content b = be32 (of_nat ?k) @ ?bytes" using c by (simp add: tagged_def)
  have pr: "parse adler W h ?bytes (int ?k) RpcMessage_ctor = Inr (KNoError, payload_message W (t, p))"
    using parse_split [OF t(1), of adler W h p "adler 1 (t @ p)" rest RpcMessage_ctor] t(2) m
    by (simp add: add.commute)
  have u: "unat (of_int (KHeaderLen + int ?k) :: size_t) = ?k + 4"
    using k by (subst unat_small_int) (simp_all add: KHeaderLen_def)
  have "?k + 4 \<le> length (content b)" using c' t(1) by simp
  with retrieve_ok [OF inv, of "of_int (KHeaderLen + int ?k)"] u obtain b1 where
    b1: "retrieve (of_int (KHeaderLen + int ?k)) b = Inr b1" "buf_inv b1"
      "content b1 = drop (?k + 4) (content b)" by auto
  have "content b1 = rest" unfolding b1(3) c' using t(1) by simp
  moreover have "4 \<le> ?k" "?k \<le> length ?bytes" using t(1) by simp_all
  ultimately show ?thesis
    using onMessage_frame [OF inv c' _ k, of adler W h "\<lambda>m s. Inr (f m s)" n s] pr b1(1,2) by auto
qed

text \<open>What the codec does deliver, it delivers exactly once and in order: with any number of
  complete frames in front of the buffer that carry a foreign tag, the right checksum and a payload
  that parses, followed by fewer than eight bytes, onMessage hands their messages to the callback
  one by one, consumes exactly their bytes and returns.\<close>

theorem onMessage_delivers_stream:
  assumes "buf_inv b" and "content b = concat (map (tagged adler) fs) @ rest" and "length rest < 8"
    and "\<forall>f \<in> set fs. foreign W f" and "length fs < n"
  shows "\<exists>b'. onMessage adler W h (\<lambda>m s. Inr (f m s)) n (b, s) =
      Some (Inr (b', fold f (map (payload_message W) fs) s)) \<and> buf_inv b' \<and> content b' = rest"
  using assms
proof (induction fs arbitrary: b s n)
  case Nil
  then obtain k where "n = Suc k" by (cases n) auto
  moreover have "content b = rest" using Nil.prems(2) by simp
  moreover from this have "onMessage adler W h (\<lambda>m s. Inr (f m s)) (Suc k) (b, s) = Some (Inr (b, s))"
    using Nil.prems(3) by (intro onMessage_stop [OF Nil.prems(1)]) simp
  ultimately show ?case using Nil.prems(1) by (simp del: onMessage.simps)
next
  case (Cons fr fs)
  obtain t p where fr: "fr = (t, p)" by (cases fr)
  from Cons.prems(5) obtain k where n: "n = Suc k" "length fs < k" by (cases n) auto
  have c: "content b = tagged adler (t, p) @ concat (map (tagged adler) fs) @ rest"
    using Cons.prems(2) fr by simp
  have "foreign W (t, p)" using Cons.prems(4) fr by simp
  from onMessage_round [OF Cons.prems(1) c this, of h f k s] obtain b1 where
    b1: "onMessage adler W h (\<lambda>m s. Inr (f m s)) (Suc k) (b, s) =
        onMessage adler W h (\<lambda>m s. Inr (f m s)) k (b1, f (payload_message W (t, p)) s)"
      "buf_inv b1" "content b1 = concat (map (tagged adler) fs) @ rest" by blast
  from Cons.IH [OF b1(2,3) Cons.prems(3) _ n(2), of "f (payload_message W (t, p)) s"] Cons.prems(4) b1(1)
  show ?case unfolding n(1) fr by (simp del: onMessage.simps)
qed

lemma onMessage_delivers_stream_witness:
  "\<exists>b'. onMessage (\<lambda>s bs. s) leb128 LittleEndianHost (\<lambda>m s. Inr (m # s)) 3
     (buffer_of (tagged (\<lambda>s bs. s) ([1, 2, 3, 4], []) @ tagged (\<lambda>s bs. s) ([1, 2, 3, 5], []) @ [7]), []) =
     Some (Inr (b', [RpcMessage_ctor, RpcMessage_ctor])) \<and> content b' = [7]"
proof -
  let ?fs = "[([1, 2, 3, 4], []), ([1, 2, 3, 5], [])] :: (byte list \<times> byte list) list"
  let ?bs = "concat (map (tagged (\<lambda>s bs. s)) ?fs) @ [7]"
  have small: "length ?bs < 2 ^ 62" by (simp add: tagged_def)
  have p: "ParseFromArray leb128 [] RpcMessage_ctor = Some RpcMessage_ctor"
    by (simp add: ParseFromArray_def Clear_eq)
  have "\<exists>b'. onMessage (\<lambda>s bs. s) leb128 LittleEndianHost (\<lambda>m s. Inr (m # s)) 3 (buffer_of ?bs, []) =
      Some (Inr (b', fold (#) (map (payload_message leb128) ?fs) [])) \<and> buf_inv b' \<and> content b' = [7]"
    by (rule onMessage_delivers_stream [OF buffer_of(1) [OF small] buffer_of(2) [OF small]])
      (simp_all add: foreign_def tag_def p)
  then show ?thesis by (auto simp add: payload_message_def p simp del: onMessage.simps)
qed

text \<open>Eight bytes from the peer break the receiver: the frame of length 4 that holds only the
  checksum 1 of the empty string (adler32 starts at 1) passes the length and the checksum
  test, is not tagged "RPC0", and so makes parse hand a payload of size -4 to
  ParseFromArray.\<close>

theorem eight_bytes_negative_size:
  assumes "buf_inv b" and "content b = [0, 0, 0, 4, 0, 0, 0, 1] @ rest" and "adler 1 [] = 1"
  shows "onMessage adler W h cb (Suc n) (b, s) = Some (Inl OutOfBounds)"
proof -
  have one: "be32 1 = [0, 0, 0, 1]" and four: "be32 4 = [0, 0, 0, 4]"
    by (simp_all add: be32_def bytes_le_numeral)
  let ?bytes = "be32 1 @ rest"
  have c: "content b = be32 (of_nat 4) @ ?bytes" using assms(2) by (simp add: one four)
  have "vailddataChecksum adler h ?bytes 4 = Inr True"
    using assms(3) by (simp add: vailddataChecksum_def KChecksumLen_def checksum_def asInt32_be32)
  moreover have "take (length tag) ?bytes \<noteq> tag" by (simp add: one tag_def)
  ultimately have "parse adler W h ?bytes (int 4) RpcMessage_ctor = Inl OutOfBounds"
    by (simp add: parse_def parseFromBuffer_def KChecksumLen_def)
  with onMessage_frame [OF assms(1) c, of adler W h cb n s] show ?thesis by simp
qed

lemma eight_bytes_negative_size_witness:
  "onMessage (\<lambda>s bs. s) leb128 LittleEndianHost (\<lambda>m s. Inr (m # s)) 9
     (buffer_of [0, 0, 0, 4, 0, 0, 0, 1], []) = Some (Inl OutOfBounds)"
proof -
  let ?bs = "[0, 0, 0, 4, 0, 0, 0, 1] :: byte list"
  have small: "length ?bs < 2 ^ 62" by simp
  have fuel: "9 = Suc 8" by simp
  show ?thesis unfolding fuel
    by (rule eight_bytes_negative_size [OF buffer_of(1) [OF small], where rest = "[]"])
      (simp_all add: buffer_of(2) [OF small])
qed

text \<open>C34: onMessage always returns: whatever bytes the peer sent and however the message callback
  ends, fuel of one more than the readable bytes is enough for the loop to stop, because
  every round that continues has removed a frame of at least eight bytes.\<close>

theorem onMessage_terminates:
  assumes "buf_inv b"
  shows "\<exists>r. onMessage adler W h cb (Suc (length (content b))) (b, s) = Some r"
  using onMessage_fuel [OF assms, of "Suc (length (content b))" adler W h cb s] by auto

lemma onMessage_terminates_witness:
  "\<exists>r. onMessage (\<lambda>s bs. s) leb128 LittleEndianHost (\<lambda>m s. Inr (m # s)) 1 (sample_buffer, []) = Some r"
  using onMessage_terminates [OF sample_buffer_inv, of "\<lambda>s bs. s" leb128 LittleEndianHost "\<lambda>m s. Inr (m # s)" "[]"]
  by simp

end
