(* ===== verification/FrameStream.thy ===== *)
theory FrameStream
  imports Codec
begin

text \<open>
  What ProtoRpcCodec::onMessage (rpto_rpc/rpc_framework/Rpc.Codec.cc) makes of the bytes of a connection, as a
  function on the bytes alone, whatever buffers and reads they come in.

  \<^item> \<open>frame_head\<close> is what stands in front of the bytes, \<open>decode\<close> takes frames off until something
    else stands there. Both are specifications; the code is the loop of theory Codec.
  \<^item> \<open>feed\<close> is the receiving side of a connection: TcpConnection::handleRead
    (network/src/TcpConnection.cc) with onMessage as its message callback, read by read.
\<close>

section \<open>Bytes\<close>

datatype head = Waiting | Rejected | Broken error | Frame rpc_message "byte list"

definition frame_head :: "adler \<Rightarrow> wire \<Rightarrow> host \<Rightarrow> byte list \<Rightarrow> head" where
  "frame_head adler W h bs =
     (if length bs < 8 then Waiting
      else
        let k = sint (asInt32 h bs) in
        if k > KMaxMessageLen \<or> k < KMinMessageLen then Rejected
        else if length bs < nat (4 + k) then Waiting
        else case parse adler W h (drop 4 bs) k RpcMessage_ctor of
               Inl e \<Rightarrow> Broken e
             | Inr (code, m) \<Rightarrow> if code = KNoError then Frame m (drop (nat (4 + k)) bs) else Rejected)"

lemma frame_head_shorter: "frame_head adler W h bs = Frame m rest \<Longrightarrow> length rest < length bs"
  by (auto simp: frame_head_def Let_def KMinMessageLen_def split: if_splits sum.splits prod.splits
      intro!: diff_less)

function decode :: "adler \<Rightarrow> wire \<Rightarrow> host \<Rightarrow> byte list \<Rightarrow> rpc_message list \<times> byte list res" where
  "decode adler W h bs =
     (case frame_head adler W h bs of
        Waiting \<Rightarrow> ([], Inr bs)
      | Rejected \<Rightarrow> ([], Inr bs)
      | Broken e \<Rightarrow> ([], Inl e)
      | Frame m rest \<Rightarrow> (case decode adler W h rest of (ms, r) \<Rightarrow> (m # ms, r)))"
  by pat_completeness auto
termination by (relation "measure (\<lambda>(adler, W, h, bs). length bs)") (auto dest: frame_head_shorter)

declare decode.simps [simp del]

text \<open>The decision about a frame only looks at the frame.\<close>

lemma asInt32_append: "4 \<le> length bs \<Longrightarrow> asInt32 h (bs @ xs) = asInt32 h bs"
  by (simp add: asInt32_def)

lemma parse_append:
  assumes "4 \<le> k" and "nat k \<le> length bs"
  shows "parse adler W h (bs @ xs) k m = parse adler W h bs k m"
proof -
  have "asInt32 h (drop (nat (k - KChecksumLen)) (bs @ xs)) = asInt32 h (drop (nat (k - KChecksumLen)) bs)"
    using assms asInt32_append [of "drop (nat (k - KChecksumLen)) bs" h xs] by (simp add: KChecksumLen_def)
  moreover have "checksum adler (bs @ xs) (k - KChecksumLen) = checksum adler bs (k - KChecksumLen)"
    using assms by (simp add: checksum_def KChecksumLen_def)
  moreover have le: "k \<le> int (length bs)" using assms by simp
  ultimately have "vailddataChecksum adler h (bs @ xs) k = vailddataChecksum adler h bs k"
    using assms by (simp add: vailddataChecksum_def KChecksumLen_def)
  moreover have "parseFromBuffer W (drop (length tag) (bs @ xs)) (k - KChecksumLen - int (length tag)) m =
      parseFromBuffer W (drop (length tag) bs) (k - KChecksumLen - int (length tag)) m"
    using assms le by (auto simp: parseFromBuffer_def KChecksumLen_def)
  moreover have "take (length tag) (bs @ xs) = take (length tag) bs" using assms by simp
  ultimately show ?thesis by (simp only: parse_def Let_def)
qed

lemma frame_head_append:
  assumes "frame_head adler W h bs \<noteq> Waiting"
  shows "frame_head adler W h (bs @ xs) =
    (case frame_head adler W h bs of Frame m rest \<Rightarrow> Frame m (rest @ xs) | other \<Rightarrow> other)"
proof -
  let ?k = "sint (asInt32 h bs)"
  have len: "8 \<le> length bs" using assms by (auto simp: frame_head_def split: if_splits)
  then have k: "asInt32 h (bs @ xs) = asInt32 h bs" by (intro asInt32_append) simp
  show ?thesis
  proof (cases "?k > KMaxMessageLen \<or> ?k < KMinMessageLen")
    case True
    with len k show ?thesis by (simp add: frame_head_def)
  next
    case False
    then have ge: "4 \<le> ?k" by (simp add: KMinMessageLen_def)
    have whole: "nat (4 + ?k) \<le> length bs"
      using assms len False by (auto simp: frame_head_def Let_def split: if_splits)
    then have "parse adler W h (drop 4 bs @ xs) ?k RpcMessage_ctor = parse adler W h (drop 4 bs) ?k RpcMessage_ctor"
      using ge by (intro parse_append) simp_all
    with len k False whole show ?thesis
      by (auto simp: frame_head_def Let_def split: sum.splits prod.splits)
  qed
qed

text \<open>Decoding can be interrupted anywhere.\<close>

lemma decode_append:
  "decode adler W h (bs @ xs) =
    (case decode adler W h bs of
       (ms, Inl e) \<Rightarrow> (ms, Inl e)
     | (ms, Inr rest) \<Rightarrow> (case decode adler W h (rest @ xs) of (ms', r) \<Rightarrow> (ms @ ms', r)))"
proof (induction adler W h bs rule: decode.induct)
  case (1 adler W h bs)
  show ?case
  proof (cases "frame_head adler W h bs")
    case Waiting
    then have "decode adler W h bs = ([], Inr bs)" by (simp add: decode.simps)
    then show ?thesis by simp
  next
    case Rejected
    then have "decode adler W h bs = ([], Inr bs)" by (simp add: decode.simps)
    then show ?thesis by simp
  next
    case (Broken e)
    then have "decode adler W h bs = ([], Inl e)" by (simp add: decode.simps)
    moreover have "decode adler W h (bs @ xs) = ([], Inl e)"
      using Broken frame_head_append [of adler W h bs xs] by (simp add: decode.simps)
    ultimately show ?thesis by simp
  next
    case (Frame m rest)
    obtain ms r where d: "decode adler W h rest = (ms, r)" by (cases "decode adler W h rest")
    have "decode adler W h bs = (m # ms, r)" using Frame d by (simp add: decode.simps [of adler W h bs])
    moreover have "decode adler W h (bs @ xs) = (case decode adler W h (rest @ xs) of (ms, r) \<Rightarrow> (m # ms, r))"
      using Frame frame_head_append [of adler W h bs xs] by (simp add: decode.simps [of adler W h "bs @ xs"])
    ultimately show ?thesis
      using 1 [OF Frame] d by (simp split: sum.split prod.split)
  qed
qed

text \<open>What is left over stays: it does not decode to anything by itself.\<close>

lemma decode_rest:
  "decode adler W h bs = (ms, Inr rest) \<Longrightarrow> decode adler W h rest = ([], Inr rest) \<and> length rest \<le> length bs"
proof (induction adler W h bs arbitrary: ms rule: decode.induct)
  case (1 adler W h bs)
  show ?case
  proof (cases "frame_head adler W h bs")
    case (Frame m rest1)
    obtain ms1 r where d: "decode adler W h rest1 = (ms1, r)" by (cases "decode adler W h rest1")
    with Frame 1(2) have "r = Inr rest" by (simp add: decode.simps [of adler W h bs])
    with 1(1) [OF Frame] d frame_head_shorter [OF Frame] show ?thesis by fastforce
  qed (use 1(2) in \<open>auto simp: decode.simps [of adler W h bs] decode.simps [of adler W h rest]\<close>)
qed

section \<open>onMessage\<close>

text \<open>One round of the loop.\<close>

lemma onMessage_head:
  assumes inv: "buf_inv b"
  shows "\<exists>b1. (\<forall>m rest. frame_head adler W h (content b) = Frame m rest \<longrightarrow>
      buf_inv b1 \<and> content b1 = rest \<and> unat (writeIndex b1) \<le> max 8 (unat (writeIndex b))) \<and>
    onMessage adler W h cb (Suc n) (b, s) =
      (case frame_head adler W h (content b) of
         Waiting \<Rightarrow> Some (Inr (b, s))
       | Rejected \<Rightarrow> Some (Inr (b, s))
       | Broken e \<Rightarrow> Some (Inl e)
       | Frame m rest \<Rightarrow>
           (case cb m s of Inl e \<Rightarrow> Some (Inl e) | Inr s1 \<Rightarrow> onMessage adler W h cb n (b1, s1)))"
proof (cases "length (content b) < 8")
  case True
  with onMessage_stop [OF inv True] show ?thesis by (simp add: frame_head_def del: onMessage.simps)
next
  case False
  let ?len = "sint (asInt32 h (content b))"
  have readable: "unat (readableBytes b) = length (content b)" by (rule unat_readable [OF inv])
  have read: "read_at (buffer_vec b) (readerIndex b) (readableBytes b) = Inr (content b)"
    using read_at_ok [OF inv, of "readableBytes b"] readable by simp
  have peek: "peekInt32 h b = Inr (asInt32 h (content b))"
    using peekInt32_content [OF inv, of h] False by (simp add: asInt32_def)
  have ge8: "readableBytes b \<ge> of_int (KChecksumLen + KHeaderLen)"
    using False by (simp add: le_size_iff readable KChecksumLen_def KHeaderLen_def)
  show ?thesis
  proof (cases "?len > KMaxMessageLen \<or> ?len < KMinMessageLen")
    case True
    with False ge8 peek show ?thesis by (simp add: frame_head_def)
  next
    case range: False
    then have u: "unat (of_int (KHeaderLen + ?len) :: size_t) = nat (4 + ?len)"
      by (subst unat_small_int) (simp_all add: codec_consts)
    have ge: "readableBytes b \<ge> of_int (KHeaderLen + ?len) \<longleftrightarrow> \<not> length (content b) < nat (4 + ?len)"
      unfolding le_size_iff u readable by (rule linorder_not_less [symmetric])
    show ?thesis
    proof (cases "length (content b) < nat (4 + ?len)")
      case True
      then have nge: "\<not> readableBytes b \<ge> of_int (KHeaderLen + ?len)" using ge by blast
      have "frame_head adler W h (content b) = Waiting"
        using False range True by (simp add: frame_head_def Let_def)
      then show ?thesis
        unfolding onMessage.simps if_P [OF ge8] peek sum.case Let_def if_not_P [OF range] if_not_P [OF nge] by simp
    next
      case whole: False
      then have "unat (of_int (KHeaderLen + ?len) :: size_t) \<le> length (content b)" unfolding u by simp
      from retrieve_ok [OF inv this] u obtain b1 where
        b1: "retrieve (of_int (KHeaderLen + ?len)) b = Inr b1" "buf_inv b1"
          "content b1 = drop (nat (4 + ?len)) (content b)" "unat (writeIndex b1) \<le> max 8 (unat (writeIndex b))"
        by auto
      have hd: "frame_head adler W h (content b) =
          (case parse adler W h (drop 4 (content b)) ?len RpcMessage_ctor of
             Inl e \<Rightarrow> Broken e
           | Inr (code, m) \<Rightarrow> if code = KNoError then Frame m (drop (nat (4 + ?len)) (content b)) else Rejected)"
        using False range whole by (simp add: frame_head_def Let_def)
      have four: "nat KHeaderLen = 4" by (simp add: KHeaderLen_def)
      have "onMessage adler W h cb (Suc n) (b, s) =
          (case parse adler W h (drop 4 (content b)) ?len RpcMessage_ctor of
             Inl e \<Rightarrow> Some (Inl e)
           | Inr (code, m) \<Rightarrow>
               if code = KNoError then
                 (case bind_res (cb m s) (\<lambda>s1. Inr (b1, s1)) of
                    Inl e \<Rightarrow> Some (Inl e) | Inr st \<Rightarrow> onMessage adler W h cb n st)
               else Some (Inr (b, s)))"
        using whole ge
        unfolding onMessage.simps if_P [OF ge8] peek sum.case Let_def if_not_P [OF range] read bind_res_Inr four b1(1)
        by simp
      then show ?thesis
        using b1(2-4) unfolding hd
        by (intro exI [of _ b1]) (auto split: sum.split prod.split)
    qed
  qed
qed

text \<open>The whole loop: first the messages, then how it ends.\<close>

lemma onMessage_decode:
  "buf_inv b \<Longrightarrow> length (content b) < n \<Longrightarrow> decode adler W h (content b) = (ms, r) \<Longrightarrow>
    (case run_res cb ms s of
       Inl e \<Rightarrow> onMessage adler W h cb n (b, s) = Some (Inl e)
     | Inr s' \<Rightarrow>
         (case r of
            Inl e \<Rightarrow> onMessage adler W h cb n (b, s) = Some (Inl e)
          | Inr rest \<Rightarrow> \<exists>b'. onMessage adler W h cb n (b, s) = Some (Inr (b', s')) \<and> buf_inv b' \<and>
              content b' = rest \<and> unat (writeIndex b') \<le> max 8 (unat (writeIndex b))))"
proof (induction n arbitrary: b s ms)
  case 0
  then show ?case by simp
next
  case (Suc n)
  from onMessage_head [OF Suc.prems(1), of adler W h cb n s] obtain b1 where
    b1: "\<And>m rest. frame_head adler W h (content b) = Frame m rest \<Longrightarrow>
      buf_inv b1 \<and> content b1 = rest \<and> unat (writeIndex b1) \<le> max 8 (unat (writeIndex b))"
    and step: "onMessage adler W h cb (Suc n) (b, s) =
      (case frame_head adler W h (content b) of
         Waiting \<Rightarrow> Some (Inr (b, s)) | Rejected \<Rightarrow> Some (Inr (b, s)) | Broken e \<Rightarrow> Some (Inl e)
       | Frame m rest \<Rightarrow>
           (case cb m s of Inl e \<Rightarrow> Some (Inl e) | Inr s1 \<Rightarrow> onMessage adler W h cb n (b1, s1)))"
    by blast
  note dec = Suc.prems(3) [unfolded decode.simps [of adler W h "content b"]]
  show ?case
  proof (cases "frame_head adler W h (content b)")
    case (Frame m rest)
    from dec Frame obtain ms1 where d: "decode adler W h rest = (ms1, r)" "ms = m # ms1"
      by (auto split: prod.splits)
    have c1: "buf_inv b1" "content b1 = rest" "unat (writeIndex b1) \<le> max 8 (unat (writeIndex b))"
      using b1 [OF Frame] by auto
    have "length (content b1) < n" using frame_head_shorter [OF Frame] c1(2) Suc.prems(2) by simp
    from Suc.IH [OF c1(1) this, of ms1] d(1) c1(2) have ih:
      "case run_res cb ms1 s1 of
         Inl e \<Rightarrow> onMessage adler W h cb n (b1, s1) = Some (Inl e)
       | Inr s' \<Rightarrow> (case r of
            Inl e \<Rightarrow> onMessage adler W h cb n (b1, s1) = Some (Inl e)
          | Inr rest \<Rightarrow> \<exists>b'. onMessage adler W h cb n (b1, s1) = Some (Inr (b', s')) \<and> buf_inv b' \<and>
              content b' = rest \<and> unat (writeIndex b') \<le> max 8 (unat (writeIndex b1)))" for s1 by blast
    show ?thesis
    proof (cases "cb m s")
      case (Inl e)
      with step Frame d(2) show ?thesis by simp
    next
      case (Inr s1)
      with step Frame have "onMessage adler W h cb (Suc n) (b, s) = onMessage adler W h cb n (b1, s1)" by simp
      with ih [of s1] d(2) Inr c1(3) show ?thesis
        by (auto simp del: onMessage.simps split: sum.splits)
    qed
  qed (use dec step Suc.prems(1) in \<open>auto simp del: onMessage.simps\<close>)
qed

section \<open>Reads\<close>

text \<open>
  A read of no bytes means that the peer has closed; handleRead then calls handleClose and not the
  message callback, and nothing is read after it.
\<close>

fun feed ::
  "adler \<Rightarrow> wire \<Rightarrow> host \<Rightarrow> (rpc_message \<Rightarrow> 's \<Rightarrow> 's res) \<Rightarrow> nat \<Rightarrow> byte list list \<Rightarrow> buffer \<times> 's \<Rightarrow>
   (buffer \<times> 's) res option" where
  "feed adler W h cb fuel [] (b, s) = Some (Inr (b, s))"
| "feed adler W h cb fuel (data # reads) (b, s) =
     (case readFd (Inr data) b of
        Inl e \<Rightarrow> Some (Inl e)
      | Inr (n, err, b1) \<Rightarrow>
          if n > 0 then
            (case onMessage adler W h cb fuel (b1, s) of
               None \<Rightarrow> None
             | Some (Inl e) \<Rightarrow> Some (Inl e)
             | Some (Inr st) \<Rightarrow> feed adler W h cb fuel reads st)
          else Some (Inr (b1, s)))"

definition reads_ok :: "buffer \<Rightarrow> byte list list \<Rightarrow> bool" where
  "reads_ok b reads \<longleftrightarrow> buf_inv b \<and> (\<forall>c \<in> set reads. c \<noteq> [] \<and> length c \<le> unat extrabuf_size) \<and>
     max 8 (unat (writeIndex b)) + length (concat reads) \<le> vector_max_size"

lemma feed_read:
  assumes "reads_ok b (c # reads)"
  obtains b1 where "readFd (Inr c) b = Inr (int (length c), None, b1)" and "buf_inv b1"
    and "content b1 = content b @ c" and "0 < length c"
    and "\<And>b2. buf_inv b2 \<Longrightarrow> unat (writeIndex b2) \<le> max 8 (unat (writeIndex b1)) \<Longrightarrow> reads_ok b2 reads"
proof -
  note ok = assms [unfolded reads_ok_def]
  have "length c \<le> readv_capacity b" using ok readv_capacity_ge [of b] by auto
  moreover have "unat (writeIndex b) + length c \<le> vector_max_size"
    using ok by (simp add: max_def split: if_splits)
  ultimately obtain b1 where b1: "readFd (Inr c) b = Inr (int (length c), None, b1)" "buf_inv b1"
      "content b1 = content b @ c" "unat (writeIndex b1) \<le> unat (writeIndex b) + length c"
    using readFd_ok ok by blast
  have "reads_ok b2 reads" if "buf_inv b2" "unat (writeIndex b2) \<le> max 8 (unat (writeIndex b1))" for b2
    using ok that b1(4) by (auto simp: reads_ok_def)
  moreover have "0 < length c" using ok by simp
  ultimately show thesis using that b1(1-3) by blast
qed

lemma feed_decode:
  "reads_ok b reads \<Longrightarrow> decode adler W h (content b) = ([], Inr (content b)) \<Longrightarrow>
    length (content b) + length (concat reads) < n \<Longrightarrow> decode adler W h (content b @ concat reads) = (ms, r) \<Longrightarrow>
    (case run_res cb ms s of
       Inl e \<Rightarrow> feed adler W h cb n reads (b, s) = Some (Inl e)
     | Inr s' \<Rightarrow>
         (case r of
            Inl e \<Rightarrow> feed adler W h cb n reads (b, s) = Some (Inl e)
          | Inr rest \<Rightarrow> \<exists>b'. feed adler W h cb n reads (b, s) = Some (Inr (b', s')) \<and> buf_inv b' \<and>
              content b' = rest))"
proof (induction reads arbitrary: b s ms)
  case Nil
  then show ?case by (auto simp: reads_ok_def)
next
  case (Cons c reads)
  from Cons.prems(1) obtain b1 where b1: "readFd (Inr c) b = Inr (int (length c), None, b1)" "buf_inv b1"
      "content b1 = content b @ c" "0 < length c"
    and next_ok: "\<And>b2. buf_inv b2 \<Longrightarrow> unat (writeIndex b2) \<le> max 8 (unat (writeIndex b1)) \<Longrightarrow> reads_ok b2 reads"
    by (rule feed_read) blast
  have feed: "feed adler W h cb n (c # reads) (b, s) =
      (case onMessage adler W h cb n (b1, s) of
         None \<Rightarrow> None | Some (Inl e) \<Rightarrow> Some (Inl e) | Some (Inr st) \<Rightarrow> feed adler W h cb n reads st)"
    using b1(1,4) by simp
  have len: "length (content b1) < n" using Cons.prems(3) b1(3) by simp
  obtain ms1 r1 where d1: "decode adler W h (content b1) = (ms1, r1)" by (cases "decode adler W h (content b1)")
  have all: "decode adler W h (content b1 @ concat reads) = (ms, r)" using Cons.prems(4) b1(3) by simp
  note one = onMessage_decode [OF b1(2) len d1, of cb s]
  note split = all [unfolded decode_append [of adler W h "content b1"] d1]
  show ?case
  proof (cases "run_res cb ms1 s")
    case (Inl e)
    with one feed have "feed adler W h cb n (c # reads) (b, s) = Some (Inl e)" by simp
    moreover obtain ms' where "ms = ms1 @ ms'" using split by (cases r1) (auto split: prod.splits)
    ultimately show ?thesis using Inl by (simp add: run_res_append del: feed.simps)
  next
    case s1: (Inr s1)
    show ?thesis
    proof (cases r1)
      case (Inl e)
      with one feed s1 split show ?thesis by (auto simp del: feed.simps)
    next
      case (Inr rest1)
      with one s1 obtain b2 where b2: "onMessage adler W h cb n (b1, s) = Some (Inr (b2, s1))" "buf_inv b2"
          "content b2 = rest1" "unat (writeIndex b2) \<le> max 8 (unat (writeIndex b1))" by auto
      obtain ms' where ms': "decode adler W h (content b2 @ concat reads) = (ms', r)" "ms = ms1 @ ms'"
        using split Inr b2(3) by (auto split: prod.splits)
      from decode_rest [OF d1 [unfolded Inr]] b2(3) have
        rest: "decode adler W h (content b2) = ([], Inr (content b2))" "length (content b2) \<le> length (content b1)"
        by simp_all
      have "length (content b2) + length (concat reads) < n" using Cons.prems(3) b1(3) rest(2) by simp
      note ih = Cons.IH [OF next_ok [OF b2(2,4)] rest(1) this ms'(1), of s1]
      have "feed adler W h cb n (c # reads) (b, s) = feed adler W h cb n reads (b2, s1)"
        unfolding feed b2(1) by simp
      with ih show ?thesis unfolding ms'(2) run_res_append s1 bind_res_Inr by (simp only:)
    qed
  qed
qed

text \<open>Once the first frame is rejected, the codec is silent for ever.\<close>

lemma rejected_stays:
  assumes "frame_head adler W h bs = Rejected"
  shows "decode adler W h (bs @ xs) = ([], Inr (bs @ xs))"
  using frame_head_append [of adler W h bs xs] assms by (simp add: decode.simps [of adler W h "bs @ xs"])

lemma rejected_whole:
  assumes "frame_head adler W h (bs @ xs) = Rejected"
  shows "decode adler W h bs = ([], Inr bs)"
proof -
  from assms have "frame_head adler W h bs = Waiting \<or> frame_head adler W h bs = Rejected"
    using frame_head_append [of adler W h bs xs] by (cases "frame_head adler W h bs") auto
  then show ?thesis by (auto simp: decode.simps [of adler W h bs])
qed

text \<open>A frame of the codec's own is rejected.\<close>

lemma own_frame_rejected:
  assumes "length p + 8 \<le> 64 * 1024 * 1024"
  shows "frame_head adler W h (frame adler p @ xs) = Rejected"
proof -
  let ?x = "adler 1 (tag @ p)" and ?k = "length p + 8"
  let ?bs = "be32 (of_nat ?k) @ tag @ p @ be32 ?x @ xs"
  have bs: "frame adler p @ xs = ?bs" by (simp add: frame_def body_def add.commute)
  have k: "sint (asInt32 h ?bs) = int ?k" unfolding asInt32_be32 by (rule sint_length [OF assms])
  have "parse adler W h (drop 4 ?bs) (int ?k) RpcMessage_ctor = Inr (KUnKnownMessageType, RpcMessage_ctor)"
    using parse_split [of tag adler W h p ?x xs RpcMessage_ctor] by (simp add: add.commute)
  moreover have "\<not> length ?bs < 8" and "\<not> length ?bs < nat (4 + int ?k)" by simp_all
  moreover have "\<not> (int ?k > KMaxMessageLen \<or> int ?k < KMinMessageLen)"
    using assms by (simp add: codec_consts)
  ultimately show ?thesis
    unfolding bs frame_head_def k Let_def by (simp only: if_False sum.case prod.case codec_error.distinct)
qed

lemma rejected_feed:
  assumes "reads_ok b reads" and "length (content b @ concat reads) < n"
    and "frame_head adler W h (content b @ concat reads) = Rejected"
  shows "\<exists>b'. feed adler W h cb n reads (b, s) = Some (Inr (b', s)) \<and>
    content b' = content b @ concat reads"
proof -
  note quiet = rejected_whole [OF assms(3)]
  have "decode adler W h (content b @ concat reads) = ([], Inr (content b @ concat reads))"
    using rejected_stays [OF assms(3), of "[]"] by simp
  from feed_decode [OF assms(1) quiet _ this, of n cb s] assms(2) show ?thesis by auto
qed

section \<open>Properties\<close>

text \<open>C8: The codec refines a decoder of byte strings: whatever buffer the bytes are in and whatever the
  callback does, onMessage runs the callback on exactly the messages that the decoder takes off the
  readable bytes, in order; it ends in the callback's first error, else in the decoder's error (a
  frame of negative payload size), and else leaves exactly the decoder's rest in the buffer.\<close>

theorem onMessage_refines_decode:
  assumes "buf_inv b" and "length (content b) < n" and "decode adler W h (content b) = (ms, r)"
  shows "case run_res cb ms s of
      Inl e \<Rightarrow> onMessage adler W h cb n (b, s) = Some (Inl e)
    | Inr s' \<Rightarrow>
        (case r of
           Inl e \<Rightarrow> onMessage adler W h cb n (b, s) = Some (Inl e)
         | Inr rest \<Rightarrow> \<exists>b'. onMessage adler W h cb n (b, s) = Some (Inr (b', s')) \<and> buf_inv b' \<and>
             content b' = rest \<and> unat (writeIndex b') \<le> max 8 (unat (writeIndex b)))"
  using assms by (rule onMessage_decode)

text \<open>A frame with a foreign tag and no payload, and its beginning.\<close>

definition sample_frame :: "byte list" where
  "sample_frame = tagged (\<lambda>s bs. s) ([1, 2, 3, 4], [])"

lemma sample_frame_eq: "sample_frame = [0, 0, 0, 8, 1, 2, 3, 4, 0, 0, 0, 1]"
  by (simp add: sample_frame_def tagged_def be32_def bytes_le_numeral)

lemma sample_decode:
  "decode (\<lambda>s bs. s) leb128 LittleEndianHost (sample_frame @ [0, 0]) = ([RpcMessage_ctor], Inr [0, 0])"
proof -
  have p: "ParseFromArray leb128 [] RpcMessage_ctor = Some RpcMessage_ctor"
    by (simp add: ParseFromArray_def Clear_eq)
  have four: "length [1, 2, 3, 4 :: byte] = 4" by simp
  have k: "sint (asInt32 LittleEndianHost (sample_frame @ [0, 0])) = 8"
    using sint_length [of 8] by (simp add: sample_frame_def tagged_def asInt32_be32)
  have "parse (\<lambda>s bs. s) leb128 LittleEndianHost (drop 4 (sample_frame @ [0, 0])) 8 RpcMessage_ctor =
      Inr (KNoError, RpcMessage_ctor)"
    using parse_split [OF four, of "\<lambda>s bs. s" leb128 LittleEndianHost "[]" 1 "[0, 0]" RpcMessage_ctor] p
    by (simp add: sample_frame_def tagged_def tag_def)
  then have "frame_head (\<lambda>s bs. s) leb128 LittleEndianHost (sample_frame @ [0, 0]) = Frame RpcMessage_ctor [0, 0]"
    by (simp add: frame_head_def k codec_consts) (simp add: sample_frame_eq)
  moreover have "frame_head (\<lambda>s bs. s) leb128 LittleEndianHost [0, 0] = Waiting" by (simp add: frame_head_def)
  ultimately show ?thesis by (simp add: decode.simps)
qed

lemma onMessage_refines_decode_witness:
  "\<exists>b'. onMessage (\<lambda>s bs. s) leb128 LittleEndianHost (\<lambda>m s. Inr (m # s)) 20 (buffer_of (sample_frame @ [0, 0]), []) =
     Some (Inr (b', [RpcMessage_ctor])) \<and> content b' = [0, 0]"
proof -
  have small: "length (sample_frame @ [0, 0]) < 2 ^ 62" "length (sample_frame @ [0, 0]) < 20"
    by (simp_all add: sample_frame_eq)
  have "decode (\<lambda>s bs. s) leb128 LittleEndianHost (content (buffer_of (sample_frame @ [0, 0]))) =
      ([RpcMessage_ctor], Inr [0, 0])"
    unfolding buffer_of(2) [OF small(1)] by (rule sample_decode)
  from onMessage_refines_decode [OF buffer_of(1) [OF small(1)] _ this, of 20 "\<lambda>m s. Inr (m # s)" "[]"] small(2)
  show ?thesis unfolding buffer_of(2) [OF small(1)] by auto
qed

text \<open>C9: It does not matter how the network splits the stream: however the bytes sent by the peer
  arrive, in any number of reads of any sizes that a read can have, the callback is run on exactly the
  messages that the decoder takes off all the bytes together, once each and in order, and the
  connection ends in the same error, or with the same bytes left.\<close>

theorem split_does_not_matter:
  assumes "reads_ok b reads" and "content b = []" and "length (concat reads) < n"
    and "decode adler W h (concat reads) = (ms, r)"
  shows "case run_res cb ms s of
      Inl e \<Rightarrow> feed adler W h cb n reads (b, s) = Some (Inl e)
    | Inr s' \<Rightarrow>
        (case r of
           Inl e \<Rightarrow> feed adler W h cb n reads (b, s) = Some (Inl e)
         | Inr rest \<Rightarrow> \<exists>b'. feed adler W h cb n reads (b, s) = Some (Inr (b', s')) \<and> buf_inv b' \<and>
             content b' = rest)"
proof -
  have "decode adler W h (content b) = ([], Inr (content b))"
    by (simp add: assms(2) decode.simps frame_head_def)
  then show ?thesis by (rule feed_decode [OF assms(1)]) (simp_all add: assms(2-4))
qed

lemma sample_reads_ok: "length (concat reads) \<le> 100 \<Longrightarrow> [] \<notin> set reads \<Longrightarrow> reads_ok sample_buffer reads"
proof -
  assume small: "length (concat reads) \<le> 100" and ne: "[] \<notin> set reads"
  have "length c \<le> 100" if "c \<in> set reads" for c
  proof -
    from that obtain ys zs where "reads = ys @ c # zs" by (meson split_list)
    with small show ?thesis by simp
  qed
  then have "\<forall>c \<in> set reads. c \<noteq> [] \<and> length c \<le> unat extrabuf_size"
    using ne by (fastforce simp: extrabuf_size_def)
  with small show ?thesis by (simp add: reads_ok_def vector_max_size_def)
qed

lemma split_does_not_matter_witness:
  "\<exists>b'. feed (\<lambda>s bs. s) leb128 LittleEndianHost (\<lambda>m s. Inr (m # s)) 20
       [take 5 sample_frame, drop 5 sample_frame @ [0], [0]] (sample_buffer, []) =
     Some (Inr (b', [RpcMessage_ctor])) \<and> content b' = [0, 0]"
proof -
  let ?reads = "[take 5 sample_frame, drop 5 sample_frame @ [0], [0]]"
  have all: "concat ?reads = sample_frame @ [0, 0]" by simp
  have len: "length (concat ?reads) < 20" unfolding all by (simp add: sample_frame_eq)
  have "reads_ok sample_buffer ?reads"
    using len by (intro sample_reads_ok) (simp_all add: sample_frame_eq)
  from split_does_not_matter [OF this _ len, of "\<lambda>s bs. s" leb128 LittleEndianHost "[RpcMessage_ctor]" "Inr [0, 0]"
      "\<lambda>m s. Inr (m # s)" "[]"]
  show ?thesis unfolding all sample_decode by auto
qed

text \<open>C11: One rejected frame silences a connection for ever: as soon as the bytes at the front of the
  stream are a frame that the codec rejects (a length out of range, a wrong checksum, the codec's
  own tag, a payload that does not parse), nothing is delivered, whatever follows it and however
  it is split; nothing is ever taken out of the input buffer again, which only grows, and neither an
  error nor a close tells anyone.\<close>

theorem rejected_frame_silences:
  assumes "reads_ok b reads" and "length (content b @ concat reads) < n"
    and "frame_head adler W h (content b @ concat reads) = Rejected"
  shows "\<exists>b'. feed adler W h cb n reads (b, s) = Some (Inr (b', s)) \<and>
    content b' = content b @ concat reads"
  using assms by (rule rejected_feed)

text \<open>A length of minus one, and then frames that would have been accepted.\<close>

lemma rejected_frame_silences_witness:
  "\<exists>b'. feed (\<lambda>s bs. s) leb128 LittleEndianHost (\<lambda>m s. Inr (m # s)) 50
       [[255, 255, 255, 255], sample_frame, sample_frame] (sample_buffer, []) = Some (Inr (b', [])) \<and>
     length (content b') = 28"
proof -
  let ?reads = "[[255, 255, 255, 255], sample_frame, sample_frame]"
  let ?bs = "concat ?reads"
  have len: "length ?bs = 28" by (simp add: sample_frame_eq)
  have ok: "reads_ok sample_buffer ?reads"
    using len by (intro sample_reads_ok) (simp_all add: sample_frame_eq)
  have minus: "be32 (- 1) = [255, 255, 255, 255]" by code_simp
  have "asInt32 LittleEndianHost ?bs = - 1"
    using asInt32_be32 [of LittleEndianHost "- 1" "sample_frame @ sample_frame"] by (simp add: minus)
  then have "frame_head (\<lambda>s bs. s) leb128 LittleEndianHost (content sample_buffer @ ?bs) = Rejected"
    using len by (simp add: frame_head_def codec_consts)
  from rejected_frame_silences [OF ok _ this, of 50 "\<lambda>m s. Inr (m # s)" "[]"] len show ?thesis by auto
qed

end
