(* ===== verification/RpcChannel.thy ===== *)
theory RpcChannel
  imports TcpConnection Codec "HOL-Library.AList"
begin

text \<open>
  class RpcChannel (rpto_rpc/rpc_framework/Rpc.Channel.h, rpto_rpc/rpc_framework/Rpc.Channel.cc).

  \<^item> Pointers (response objects, closures, the connection, the service map) are numbers, a null
    pointer is \<open>None\<close>. The connection \<open>conn_\<close> points to is passed along as an object of theory
    TcpConnection. \<open>outstandings_\<close> is an association list from ids.
  \<^item> \<open>id_\<close> is not initialised by either constructor: its first value is an argument.
  \<^item> A method descriptor is used through its service's full name, its name and the
    serialized request, which are the first fields of \<open>rpc_call\<close>.
  \<^item> \<open>handle_request_msg\<close> and \<open>handle_response_msg\<close> are declared and called but have no
    definition in the source (\<open>doneCallback\<close> neither): they are arguments.
  \<^item> The result of the destructor is the list of pointers deleted, in the order of the map.
\<close>

type_synonym ptr = nat

record outstanding_call =
  responses :: "ptr option"
  done_closure :: "ptr option"

record rpc_channel =
  rpc_id :: "64 word"
  outstandings :: "(64 word \<times> outstanding_call) list"
  rpc_conn :: "ptr option"
  services :: "ptr option"

record rpc_call =
  call_service :: "byte list"
  call_method :: "byte list"
  call_request :: "byte list"
  call_response :: "ptr option"
  call_done :: "ptr option"

definition RpcChannel_ctor :: "64 word \<Rightarrow> rpc_channel" where
  "RpcChannel_ctor id0 = \<lparr>rpc_id = id0, outstandings = [], rpc_conn = None, services = None\<rparr>"

definition RpcChannel_ctor_conn :: "64 word \<Rightarrow> ptr option \<Rightarrow> rpc_channel" where
  "RpcChannel_ctor_conn id0 conn =
     \<lparr>rpc_id = id0, outstandings = [], rpc_conn = conn, services = None\<rparr>"

text \<open>The map is ordered by the signed id; deleting a null pointer does nothing.\<close>

definition RpcChannel_dtor :: "rpc_channel \<Rightarrow> ptr list" where
  "RpcChannel_dtor ch =
     concat (map (\<lambda>(i, out). List.map_filter id [responses out, done_closure out])
       (sort_key (\<lambda>(i, out). sint i) (outstandings ch)))"

definition setConnection :: "ptr option \<Rightarrow> rpc_channel \<Rightarrow> rpc_channel" where
  "setConnection conn ch = ch\<lparr>rpc_conn := conn\<rparr>"

definition setService :: "ptr option \<Rightarrow> rpc_channel \<Rightarrow> rpc_channel" where
  "setService s ch = ch\<lparr>services := s\<rparr>"

text \<open>The message CallMethod builds.\<close>

definition request_message :: "64 word \<Rightarrow> rpc_call \<Rightarrow> rpc_message" where
  "request_message i call =
     set_request (call_request call) (set_method (call_method call)
       (set_service (call_service call) (set_id i (set_type REQUEST RpcMessage_ctor))))"

text \<open>\<open>buf0\<close> is the freshly constructed buffer of ProtoRpcCodec::send, \<open>conn\<close> the object \<open>conn_\<close>
  points to.\<close>

definition CallMethod ::
  "pid \<Rightarrow> callbacks \<Rightarrow> write_result \<Rightarrow> adler \<Rightarrow> wire \<Rightarrow> host \<Rightarrow> buffer \<Rightarrow> rpc_call \<Rightarrow>
   connection \<times> rpc_channel \<Rightarrow> (connection \<times> rpc_channel) res" where
  "CallMethod tid cbs wr adler W h buf0 call = (\<lambda>(conn, ch).
     let i = rpc_id ch + 1;
         message = request_message i call;
         out = \<lparr>responses = call_response call, done_closure = call_done call\<rparr>;
         ch1 = ch\<lparr>rpc_id := rpc_id ch + 1,
                  outstandings := AList.update i out (outstandings ch)\<rparr> in
     bind_res (codec_send adler W h buf0 message) (\<lambda>buf.
     case rpc_conn ch of
       None \<Rightarrow> Inl NullDeref
     | Some p \<Rightarrow> bind_res (send tid cbs wr buf conn) (\<lambda>(b, conn1). Inr (conn1, ch1))))"

definition onRpcMessage ::
  "(rpc_message \<Rightarrow> rpc_channel \<Rightarrow> rpc_channel res) \<Rightarrow> (rpc_message \<Rightarrow> rpc_channel \<Rightarrow> rpc_channel res) \<Rightarrow>
   ptr option \<Rightarrow> rpc_message \<Rightarrow> rpc_channel \<Rightarrow> rpc_channel res" where
  "onRpcMessage handle_response_msg handle_request_msg conn message ch =
     bind_res (assert_res (conn = rpc_conn ch)) (\<lambda>_.
     if msg_type message = RESPONSE then handle_response_msg message ch
     else if msg_type message = REQUEST then handle_request_msg message ch
     else Inr ch)"

text \<open>The codec's callback is onRpcMessage, bound in the constructor.\<close>

definition rpc_onMessage ::
  "adler \<Rightarrow> wire \<Rightarrow> host \<Rightarrow> (rpc_message \<Rightarrow> rpc_channel \<Rightarrow> rpc_channel res) \<Rightarrow>
   (rpc_message \<Rightarrow> rpc_channel \<Rightarrow> rpc_channel res) \<Rightarrow> ptr option \<Rightarrow> nat \<Rightarrow> buffer \<Rightarrow> rpc_channel \<Rightarrow>
   (buffer \<times> rpc_channel) res option" where
  "rpc_onMessage adler W h handle_response_msg handle_request_msg conn fuel buf ch =
     onMessage adler W h (onRpcMessage handle_response_msg handle_request_msg conn) fuel (buf, ch)"

section \<open>Lemmas\<close>

abbreviation out_of :: "rpc_call \<Rightarrow> outstanding_call" where
  "out_of call \<equiv> \<lparr>responses = call_response call, done_closure = call_done call\<rparr>"

lemma CallMethod_Inr:
  assumes "CallMethod tid cbs wr adler W h buf0 call (conn, ch) = Inr (conn', ch')"
  shows "rpc_id ch' = rpc_id ch + 1"
    and "outstandings ch' = AList.update (rpc_id ch + 1) (out_of call) (outstandings ch)"
  using assms by (auto simp: CallMethod_def Let_def bind_res_eq_Inr split: option.splits)

lemma update_new: "k \<notin> fst ` set xs \<Longrightarrow> AList.update k v xs = xs @ [(k, v)]"
  by (induction xs) auto

definition numbered :: "64 word \<Rightarrow> rpc_call list \<Rightarrow> (64 word \<times> outstanding_call) list" where
  "numbered i0 reqs = map (\<lambda>i. (i0 + of_nat (Suc i), out_of (reqs ! i))) [0..<length reqs]"

lemma numbered_snoc:
  "numbered i0 (reqs @ [c]) = numbered i0 reqs @ [(i0 + of_nat (Suc (length reqs)), out_of c)]"
  by (auto simp: numbered_def nth_append)

lemma of_nat_inj_64: "i < 2 ^ 64 \<Longrightarrow> j < 2 ^ 64 \<Longrightarrow> (of_nat i :: 64 word) = of_nat j \<longleftrightarrow> i = j"
  by (metis unat_of_nat_size)

lemma Suc_inj_64:
  assumes "i < 2 ^ 64" and "j < 2 ^ 64"
  shows "(of_nat (Suc i) :: 64 word) = of_nat (Suc j) \<longleftrightarrow> i = j"
  using of_nat_inj_64 [OF assms] by simp

lemma numbered_keys:
  "length reqs \<le> 2 ^ 64 \<Longrightarrow> distinct (map fst (numbered i0 reqs))"
  "length reqs < 2 ^ 64 \<Longrightarrow> i0 + of_nat (Suc (length reqs)) \<notin> fst ` set (numbered i0 reqs)"
  using Suc_inj_64 by (auto simp: numbered_def distinct_map inj_on_def)

lemma run_calls:
  assumes "outstandings ch = []"
  shows "length reqs < 2 ^ 64 \<Longrightarrow>
    run_res (CallMethod tid cbs wr adler W h buf0) reqs (conn, ch) = Inr (conn', ch') \<Longrightarrow>
    rpc_id ch' = rpc_id ch + of_nat (length reqs) \<and> outstandings ch' = numbered (rpc_id ch) reqs"
proof (induction reqs arbitrary: conn' ch' rule: rev_induct)
  case Nil
  then show ?case using assms by (simp add: numbered_def)
next
  case (snoc c reqs)
  from snoc.prems(2) obtain conn1 ch1 where
    run: "run_res (CallMethod tid cbs wr adler W h buf0) reqs (conn, ch) = Inr (conn1, ch1)"
    and last: "CallMethod tid cbs wr adler W h buf0 c (conn1, ch1) = Inr (conn', ch')"
    by (auto simp: run_res_append bind_res_eq_Inr)
  have len: "length reqs < 2 ^ 64" using snoc.prems(1) by simp
  from snoc.IH [OF len run] have ch1: "rpc_id ch1 = rpc_id ch + of_nat (length reqs)"
      "outstandings ch1 = numbered (rpc_id ch) reqs" by simp_all
  have key: "rpc_id ch1 + 1 = rpc_id ch + of_nat (Suc (length reqs))" by (simp add: ch1)
  show ?case
    using CallMethod_Inr [OF last] update_new [OF numbered_keys(2) [OF len, of "rpc_id ch"]]
    unfolding key by (simp add: ch1 numbered_snoc)
qed

lemma request_message_fields [simp]:
  "service (request_message i call) = call_service call"
  "method_name (request_message i call) = call_method call"
  "request (request_message i call) = call_request call"
  "response (request_message i call) = []"
  "msg_id (request_message i call) = i" "msg_type (request_message i call) = REQUEST"
  "msg_error (request_message i call) = 0" "unknown_fields (request_message i call) = []"
  by (simp_all add: request_message_def set_request_def set_method_def set_service_def set_id_def
    set_type_def RpcMessage_ctor_def)

text \<open>What a call asks of the runtime and of the fresh buffer.\<close>

definition call_ok :: "wire \<Rightarrow> buffer \<Rightarrow> 64 word \<Rightarrow> rpc_call \<Rightarrow> bool" where
  "call_ok W b i call \<longleftrightarrow>
     buf_inv b \<and> content b = [] \<and> 4 \<le> unat (readerIndex b) \<and> rpc_ok W (request_message i call) \<and>
     ByteSizeLong W (request_message i call) < 2 ^ 30 \<and>
     unat (writeIndex b) + ByteSizeLong W (request_message i call) + 12 \<le> vector_max_size"

lemma send_frame:
  assumes "buf_inv b" and "threadPid c \<noteq> tid" and "conn_state c = KConnected"
  shows "\<exists>b'. send tid cbs wr b c = Inr (b', queueInLoop tid (TSend (content b)) c)"
proof -
  have u: "unat (readableBytes b) = length (content b)" by (rule unat_readable [OF assms(1)])
  then have "unat (readableBytes b) \<le> length (content b)" by simp
  from retrieveAsString_ok [OF assms(1) this] u obtain b' where
    "retrieveAllAsString b = Inr (content b, b')" by (auto simp: retrieveAllAsString_def)
  then show ?thesis using assms(2,3) by (simp add: send_def isInloopthread_def runInLoop_def)
qed

lemma send_aborts:
  assumes "buf_inv b" and "threadPid c = tid" and "conn_state c = KConnected"
  shows "send tid cbs wr b c = Inl FatalLog"
proof -
  have "read_at (buffer_vec b) (readerIndex b) (readableBytes b) =
      Inr (take (unat (readableBytes b)) (content b))"
    by (rule read_at_ok [OF assms(1)]) (simp add: unat_readable [OF assms(1)])
  then show ?thesis using assms(2,3)
    by (simp add: send_def isInloopthread_def sendInLoop_def assertInLoopThread_abort)
qed

lemma CallMethod_eq:
  assumes "wire_ok W" and "call_ok W buf0 (rpc_id ch + 1) call" and "rpc_conn ch = Some p"
  shows "CallMethod tid cbs wr adler W h buf0 call (conn, ch) =
    (let i = rpc_id ch + 1;
         ch1 = ch\<lparr>rpc_id := i, outstandings := AList.update i (out_of call) (outstandings ch)\<rparr> in
     if conn_state conn \<noteq> KConnected then Inr (conn, ch1)
     else if threadPid conn = tid then Inl FatalLog
     else Inr (queueInLoop tid
       (TSend (frame adler (InternalSerialize W (request_message i call)))) conn, ch1))"
proof -
  let ?m = "request_message (rpc_id ch + 1) call"
  from assms(1,2) obtain b where b: "codec_send adler W h buf0 ?m = Inr b" "buf_inv b"
      "content b = frame adler (InternalSerialize W ?m)"
    using fillEmptyMessage_ok [of buf0 W ?m adler h] by (auto simp: call_ok_def codec_send_def)
  show ?thesis
  proof (cases "conn_state conn = KConnected")
    case False
    then show ?thesis using b(1) assms(3) by (simp add: CallMethod_def Let_def send_def)
  next
    case True
    show ?thesis
    proof (cases "threadPid conn = tid")
      case True
      from send_aborts [OF b(2) True \<open>conn_state conn = KConnected\<close>] b(1) assms(3) True
        \<open>conn_state conn = KConnected\<close> show ?thesis by (simp add: CallMethod_def Let_def)
    next
      case False
      from send_frame [OF b(2) False True] obtain b' where
        "send tid cbs wr b conn = Inr (b', queueInLoop tid (TSend (content b)) conn)" by blast
      with b assms(3) False True show ?thesis by (simp add: CallMethod_def Let_def)
    qed
  qed
qed

section \<open>Properties\<close>

text \<open>The outcome of a call on a channel with a connection: the call is registered under the
  next id, and when the connection is up the whole frame of the request carrying that id is
  queued for the connection's loop, with a wakeup; when the connection is not up, the request is
  dropped without a word and the call stays registered for good; and in the loop's own
  thread the process aborts.\<close>

theorem CallMethod_outcome:
  assumes "wire_ok W" and "call_ok W buf0 (rpc_id ch + 1) call" and "rpc_conn ch = Some p"
  shows "CallMethod tid cbs wr adler W h buf0 call (conn, ch) =
    (let i = rpc_id ch + 1;
         ch1 = ch\<lparr>rpc_id := i, outstandings := AList.update i (out_of call) (outstandings ch)\<rparr> in
     if conn_state conn \<noteq> KConnected then Inr (conn, ch1)
     else if threadPid conn = tid then Inl FatalLog
     else Inr (queueInLoop tid
       (TSend (frame adler (InternalSerialize W (request_message i call)))) conn, ch1))"
  using assms by (rule CallMethod_eq)

definition sample_call :: rpc_call where
  "sample_call = \<lparr>call_service = [97], call_method = [98], call_request = [1, 2],
     call_response = Some 3, call_done = Some 4\<rparr>"

lemma leb128_small_id:
  assumes "i < 128" and "i \<noteq> 0"
  shows "ByteSizeLong leb128 (request_message i sample_call) < 20"
  using assms unfolding ByteSizeLong_def
  by (simp add: sample_call_def leb128_def enc.simps REQUEST_def enum_out_def word_less_nat_alt)

lemma sample_call_ok:
  assumes "i < 128" and "i \<noteq> 0"
  shows "call_ok leb128 sample_buffer i sample_call"
  using leb128_small_id [OF assms]
  by (simp add: call_ok_def vector_max_size_def rpc_ok_def) (simp add: sample_call_def leb128_def)

lemma CallMethod_outcome_witness:
  "CallMethod 8 sample_callbacks two_bytes (\<lambda>s bs. s) leb128 LittleEndianHost sample_buffer sample_call
     (sample_connection, RpcChannel_ctor_conn 0 (Some 5)) =
   Inr (sample_connection, \<lparr>rpc_id = 1, outstandings = [(1, out_of sample_call)], rpc_conn = Some 5,
     services = None\<rparr>)"
proof -
  have "call_ok leb128 sample_buffer (rpc_id (RpcChannel_ctor_conn 0 (Some 5)) + 1) sample_call"
    using sample_call_ok [of 1] by (simp add: RpcChannel_ctor_conn_def)
  from CallMethod_outcome [OF leb128_ok this, of 5 8 sample_callbacks two_bytes "\<lambda>s bs. s"
      LittleEndianHost sample_connection]
  show ?thesis by (simp add: RpcChannel_ctor_conn_def sample_connection_def event_loop.defs Let_def)
qed

text \<open>C30: Concurrently outstanding calls are told apart: after fewer than 2^64 calls on a fresh
  channel that all returned, wherever its uninitialised counter started and whatever became of the
  requests, every call is registered under an id of its own, consecutive from the first
  one and wrapping around, with its own response object and closure.\<close>

theorem calls_registered_distinctly:
  assumes "run_res (CallMethod tid cbs wr adler W h buf0) reqs (conn, RpcChannel_ctor_conn id0 p) =
      Inr (conn', ch')"
    and "length reqs < 2 ^ 64"
  shows "distinct (map fst (outstandings ch')) \<and> length (outstandings ch') = length reqs \<and>
    (\<forall>i < length reqs. map_of (outstandings ch') (id0 + of_nat (Suc i)) = Some (out_of (reqs ! i)))"
proof -
  have o: "outstandings ch' = numbered id0 reqs"
    using run_calls [OF _ assms(2,1)] by (simp add: RpcChannel_ctor_conn_def)
  have d: "distinct (map fst (numbered id0 reqs))" using numbered_keys(1) assms(2) by simp
  have "(id0 + of_nat (Suc i), out_of (reqs ! i)) \<in> set (numbered id0 reqs)" if "i < length reqs" for i
    using that unfolding numbered_def by (simp only: set_map set_upt) force
  then show ?thesis unfolding o using d by (simp add: map_of_eq_Some_iff) (simp add: numbered_def)
qed

lemma calls_registered_distinctly_witness:
  "\<exists>conn' ch'. run_res (CallMethod 8 sample_callbacks two_bytes (\<lambda>s bs. s) leb128 LittleEndianHost sample_buffer)
     [sample_call, sample_call] (sample_connection, RpcChannel_ctor_conn 0 (Some 5)) = Inr (conn', ch') \<and>
     length (outstandings ch') = 2"
proof -
  have not_up: "conn_state sample_connection \<noteq> KConnected"
    by (simp add: sample_connection_def event_loop.defs)
  let ?ch = "RpcChannel_ctor_conn 0 (Some 5)"
  have step: "\<exists>ch'. CallMethod 8 sample_callbacks two_bytes (\<lambda>s bs. s) leb128 LittleEndianHost sample_buffer
      sample_call (sample_connection, ch) = Inr (sample_connection, ch') \<and>
      rpc_id ch' = rpc_id ch + 1 \<and> rpc_conn ch' = rpc_conn ch"
    if "rpc_id ch \<in> {0, 1}" "rpc_conn ch = Some 5" for ch
  proof -
    have "rpc_id ch + 1 < 128" "rpc_id ch + 1 \<noteq> 0" using that(1) by auto
    then have ok: "call_ok leb128 sample_buffer (rpc_id ch + 1) sample_call" by (rule sample_call_ok)
    obtain b where "codec_send (\<lambda>s bs. s) leb128 LittleEndianHost sample_buffer
        (request_message (rpc_id ch + 1) sample_call) = Inr b"
      using fillEmptyMessage_ok [of sample_buffer leb128 "request_message (rpc_id ch + 1) sample_call"
          "\<lambda>s bs. s" LittleEndianHost] leb128_ok ok
      by (auto simp: call_ok_def codec_send_def)
    with not_up that(2) show ?thesis by (simp add: CallMethod_def Let_def send_def)
  qed
  from step [of ?ch] obtain ch1 where c1: "CallMethod 8 sample_callbacks two_bytes (\<lambda>s bs. s) leb128
      LittleEndianHost sample_buffer sample_call (sample_connection, ?ch) = Inr (sample_connection, ch1)"
      "rpc_id ch1 = 1" "rpc_conn ch1 = Some 5" by (auto simp: RpcChannel_ctor_conn_def)
  from step [of ch1] c1 obtain ch2 where c2: "CallMethod 8 sample_callbacks two_bytes (\<lambda>s bs. s) leb128
      LittleEndianHost sample_buffer sample_call (sample_connection, ch1) = Inr (sample_connection, ch2)"
    by auto
  have run: "run_res (CallMethod 8 sample_callbacks two_bytes (\<lambda>s bs. s) leb128 LittleEndianHost sample_buffer)
     [sample_call, sample_call] (sample_connection, ?ch) = Inr (sample_connection, ch2)"
    by (simp only: run_res.simps c1(1) c2 bind_res_Inr)
  from calls_registered_distinctly [OF this] run show ?thesis by auto
qed

end
