(* ===== verification/SegTree.thy ===== *)
theory SegTree
  imports Prelude
begin

text \<open>
  The segment tree with lazy marks of tiredtree.cc.

  \<^item> \<open>segtree\<close> holds the three global arrays; their elements are 32-bit integers whose
    arithmetic wraps around. Interval bounds are \<open>int\<close>, node numbers \<open>nat\<close>: both are taken to
    stay in the range of the code's \<open>int\<close>. An index outside an array is \<open>OutOfBounds\<close>.
  \<^item> The four recursions need not end (a build of an empty interval, a query that misses its
    node), so they are partial functions: \<open>None\<close> is a run that does not return. That they do
    return is part of every property.
  \<^item> \<open>holds\<close> is what the arrays mean: the node \<open>p\<close> stands for the values \<open>f s, ..., f t\<close> when it
    keeps their sum and its children stand for the values less the node's mark.
\<close>

section \<open>The tree\<close>

type_synonym int32 = "32 word"

definition SIZE :: nat where "SIZE = 5"

record segtree =
  a_arr :: "int32 list"
  d_arr :: "int32 list"
  b_arr :: "int32 list"

definition globals :: segtree where
  "globals = \<lparr>a_arr = replicate SIZE 0, d_arr = replicate (4 * SIZE) 0, b_arr = replicate (4 * SIZE) 0\<rparr>"

definition mid :: "int \<Rightarrow> int \<Rightarrow> int" where "mid s t = s + (t - s) div 2"

definition array_get :: "'v list \<Rightarrow> nat \<Rightarrow> 'v res" where
  "array_get xs i = (if i < length xs then Inr (xs ! i) else Inl OutOfBounds)"

definition array_set :: "'v list \<Rightarrow> nat \<Rightarrow> 'v \<Rightarrow> 'v list res" where
  "array_set xs i v = (if i < length xs then Inr (xs[i := v]) else Inl OutOfBounds)"

definition inc :: "int32 list \<Rightarrow> nat \<Rightarrow> int32 \<Rightarrow> int32 list res" where
  "inc xs i v = bind_res (array_get xs i) (\<lambda>x. array_set xs i (x + v))"

text \<open>\<open>d[p] = d[p * 2] + d[p * 2 + 1]\<close>\<close>

definition pull :: "nat \<Rightarrow> segtree \<Rightarrow> segtree res" where
  "pull p st =
     bind_res (array_get (d_arr st) (p * 2)) (\<lambda>x.
     bind_res (array_get (d_arr st) (p * 2 + 1)) (\<lambda>y.
     bind_res (array_set (d_arr st) p (x + y)) (\<lambda>d. Inr (st\<lparr>d_arr := d\<rparr>))))"

text \<open>The body of \<open>if (b[p])\<close>.\<close>

definition push :: "int \<Rightarrow> int \<Rightarrow> nat \<Rightarrow> segtree \<Rightarrow> segtree res" where
  "push s t p st =
     (let m = mid s t in
      bind_res (array_get (b_arr st) p) (\<lambda>bp.
      bind_res (inc (d_arr st) (p * 2) (bp * of_int (m - s + 1))) (\<lambda>d1.
      bind_res (inc d1 (p * 2 + 1) (bp * of_int (t - m))) (\<lambda>d2.
      bind_res (inc (b_arr st) (p * 2) bp) (\<lambda>b1.
      bind_res (inc b1 (p * 2 + 1) bp) (\<lambda>b2.
      bind_res (array_set b2 p 0) (\<lambda>b3. Inr (st\<lparr>d_arr := d2, b_arr := b3\<rparr>))))))))"

definition andthen :: "'a res option \<Rightarrow> ('a \<Rightarrow> 'b res option) \<Rightarrow> 'b res option" where
  "andthen m k = Option.bind m (\<lambda>r. case r of Inl e \<Rightarrow> Some (Inl e) | Inr x \<Rightarrow> k x)"

lemma andthen_simps [simp]:
  "andthen (Some (Inr x)) k = k x" "andthen (Some (Inl e)) k = Some (Inl e)" "andthen None k = None"
  by (simp_all add: andthen_def)

lemma andthen_mono [partial_function_mono]:
  assumes "mono_option m" and "\<And>x. mono_option (\<lambda>f. k x f)"
  shows "mono_option (\<lambda>f. andthen (m f) (\<lambda>x. k x f))"
  unfolding andthen_def
proof (rule bind_mono [OF assms(1)])
  show "mono_option (\<lambda>f. case r of Inl e \<Rightarrow> Some (Inl e) | Inr x \<Rightarrow> k x f)" for r
    by (cases r) (simp_all add: assms(2) option.const_mono)
qed

partial_function (option) build :: "int \<Rightarrow> int \<Rightarrow> nat \<Rightarrow> segtree \<Rightarrow> segtree res option" where
  "build s t p st =
     (if s = t then
        Some (bind_res (if s < 0 then Inl OutOfBounds else array_get (a_arr st) (nat s)) (\<lambda>x.
          bind_res (array_set (d_arr st) p x) (\<lambda>d. Inr (st\<lparr>d_arr := d\<rparr>))))
      else
        let m = mid s t in
        andthen (build s m (p * 2) st) (\<lambda>st1.
        andthen (build (m + 1) t (p * 2 + 1) st1) (\<lambda>st2.
        Some (pull p st2))))"

partial_function (option) getsum1 :: "int \<Rightarrow> int \<Rightarrow> int \<Rightarrow> int \<Rightarrow> nat \<Rightarrow> segtree \<Rightarrow> int32 res option" where
  "getsum1 l r s t p st =
     (if l \<le> s \<and> t \<le> r then Some (array_get (d_arr st) p)
      else
        let m = mid s t in
        andthen (if l \<le> m then getsum1 l r s m (p * 2) st else Some (Inr 0)) (\<lambda>x.
        andthen (if r > m then getsum1 l r (m + 1) t (p * 2 + 1) st else Some (Inr 0)) (\<lambda>y.
        Some (Inr (x + y)))))"

partial_function (option) update ::
  "int \<Rightarrow> int \<Rightarrow> int32 \<Rightarrow> int \<Rightarrow> int \<Rightarrow> nat \<Rightarrow> segtree \<Rightarrow> segtree res option" where
  "update l r c s t p st =
     (if l \<le> s \<and> t \<le> r then
        Some (bind_res (inc (d_arr st) p (of_int (t - s + 1) * c)) (\<lambda>d.
          bind_res (inc (b_arr st) p c) (\<lambda>b. Inr (st\<lparr>d_arr := d, b_arr := b\<rparr>))))
      else
        let m = mid s t in
        andthen (Some (bind_res (array_get (b_arr st) p) (\<lambda>bp.
          if bp \<noteq> 0 \<and> s \<noteq> t then push s t p st else Inr st))) (\<lambda>st1.
        andthen (if l \<le> m then update l r c s m (p * 2) st1 else Some (Inr st1)) (\<lambda>st2.
        andthen (if r > m then update l r c (m + 1) t (p * 2 + 1) st2 else Some (Inr st2)) (\<lambda>st3.
        Some (pull p st3)))))"

partial_function (option) getsum2 ::
  "int \<Rightarrow> int \<Rightarrow> int \<Rightarrow> int \<Rightarrow> nat \<Rightarrow> segtree \<Rightarrow> (int32 \<times> segtree) res option" where
  "getsum2 l r s t p st =
     (if l \<le> s \<and> t \<le> r then Some (bind_res (array_get (d_arr st) p) (\<lambda>x. Inr (x, st)))
      else
        let m = mid s t in
        andthen (Some (bind_res (array_get (b_arr st) p) (\<lambda>bp.
          if bp \<noteq> 0 then push s t p st else Inr st))) (\<lambda>st1.
        andthen (if l \<le> m then getsum2 l r s m (p * 2) st1 else Some (Inr (0, st1))) (\<lambda>(x, st2).
        andthen (if r > m then getsum2 l r (m + 1) t (p * 2 + 1) st2 else Some (Inr (0, st2))) (\<lambda>(y, st3).
        Some (Inr (x + y, st3))))))"

text \<open>\<open>Test\<close>: the initial values, the build, and what is printed by the two queries.\<close>

definition fill :: "segtree \<Rightarrow> segtree" where
  "fill st = fold (\<lambda>i s. s\<lparr>a_arr := (a_arr s)[i := of_nat i]\<rparr>) [1..<SIZE] st"

definition Test :: "segtree \<Rightarrow> (int32 \<times> int32) res option" where
  "Test st =
     (let n = int SIZE - 1 in
      andthen (build 1 n 1 (fill st)) (\<lambda>st1.
      andthen (getsum1 2 4 1 n 1 st1) (\<lambda>x.
      andthen (update 1 4 1 1 n 1 st1) (\<lambda>st2.
      andthen (getsum2 2 4 1 n 1 st2) (\<lambda>(y, st3).
      Some (Inr (x, y)))))))"

section \<open>Nodes and intervals\<close>

lemma mid_bounds:
  assumes "s < t"
  shows "s \<le> mid s t" and "mid s t < t"
  using assms by (auto simp: mid_def)

text \<open>The nodes of the subtree of a node.\<close>

definition below :: "nat \<Rightarrow> nat \<Rightarrow> bool" where
  "below p q \<longleftrightarrow> (\<exists>k. q div 2 ^ k = p)"

lemma below_refl [simp]: "below p p"
  unfolding below_def by (rule exI [of _ 0]) simp

lemma below_child: "below (p * 2) q \<or> below (p * 2 + 1) q \<Longrightarrow> below p q"
  unfolding below_def
proof (elim disjE exE)
  fix k assume "q div 2 ^ k = p * 2"
  then have "q div 2 ^ Suc k = p" by (simp only: power_Suc2 div_mult2_eq)
  then show "\<exists>k. q div 2 ^ k = p" by blast
next
  fix k assume "q div 2 ^ k = p * 2 + 1"
  then have "q div 2 ^ Suc k = (p * 2 + 1) div 2" by (simp only: power_Suc2 div_mult2_eq)
  then have "q div 2 ^ Suc k = p" by simp
  then show "\<exists>k. q div 2 ^ k = p" by blast
qed

lemma not_below_parent:
  assumes "1 \<le> p"
  shows "\<not> below (p * 2) p" and "\<not> below (p * 2 + 1) p"
proof -
  have le: "p div 2 ^ k \<le> p" for k by (rule div_le_dividend)
  show "\<not> below (p * 2) p"
  proof
    assume "below (p * 2) p"
    then obtain k where "p div 2 ^ k = p * 2" unfolding below_def by blast
    with le [of k] assms show False by linarith
  qed
  show "\<not> below (p * 2 + 1) p"
  proof
    assume "below (p * 2 + 1) p"
    then obtain k where "p div 2 ^ k = p * 2 + 1" unfolding below_def by blast
    with le [of k] assms show False by linarith
  qed
qed

lemma below_disjoint:
  assumes "1 \<le> p" and "below (p * 2) q"
  shows "\<not> below (p * 2 + 1) q"
proof
  assume "below (p * 2 + 1) q"
  with assms(2) obtain j k where j: "q div 2 ^ j = p * 2" and k: "q div 2 ^ k = p * 2 + 1"
    unfolding below_def by blast
  show False
  proof (cases "j \<le> k")
    case True
    then obtain d where "k = j + d" using le_Suc_ex by blast
    then have "p * 2 div 2 ^ d = p * 2 + 1" using j k by (simp add: power_add div_mult2_eq)
    moreover have "p * 2 div 2 ^ d \<le> p * 2" by simp
    ultimately show False by simp
  next
    case False
    then obtain d where "j = k + Suc d" by (metis add_Suc_right less_imp_Suc_add not_le)
    then have "(p * 2 + 1) div 2 ^ Suc d = p * 2" using j k by (simp only: power_add div_mult2_eq)
    then have "(p * 2 + 1) div 2 div 2 ^ d = p * 2" by (simp add: div_mult2_eq)
    then have "p div 2 ^ d = p * 2" by simp
    moreover have "p div 2 ^ d \<le> p" by simp
    ultimately show False using assms(1) by linarith
  qed
qed

lemma not_below_sibling:
  assumes "1 \<le> p"
  shows "\<not> below (p * 2) (p * 2 + 1)" and "\<not> below (p * 2 + 1) (p * 2)"
  using below_disjoint [OF assms, of "p * 2 + 1"] below_disjoint [OF assms, of "p * 2"] by auto

section \<open>What the arrays mean\<close>

text \<open>With \<open>lz\<close> unset the marks are not counted: this is what \<open>getsum1\<close> sees.\<close>

function holds :: "bool \<Rightarrow> segtree \<Rightarrow> int \<Rightarrow> int \<Rightarrow> nat \<Rightarrow> (int \<Rightarrow> int32) \<Rightarrow> bool" where
  "holds lz st s t p f \<longleftrightarrow>
     1 \<le> p \<and> p < length (d_arr st) \<and> p < length (b_arr st) \<and> d_arr st ! p = (\<Sum>i = s..t. f i) \<and>
     (s < t \<longrightarrow>
        holds lz st s (mid s t) (p * 2) (\<lambda>i. f i - (if lz then b_arr st ! p else 0)) \<and>
        holds lz st (mid s t + 1) t (p * 2 + 1) (\<lambda>i. f i - (if lz then b_arr st ! p else 0)))"
  by pat_completeness auto
termination
  by (relation "measure (\<lambda>(lz, st, s, t, p, f). nat (t - s))") (auto simp: mid_def)

declare holds.simps [simp del]

lemma holds_node:
  assumes "holds lz st s t p f"
  shows "1 \<le> p" and "p < length (d_arr st)" and "p < length (b_arr st)"
    and "d_arr st ! p = (\<Sum>i = s..t. f i)"
  using assms holds.simps [of lz st s t p f] by blast+

lemma holds_children:
  assumes "holds lz st s t p f" and "s < t"
  shows "holds lz st s (mid s t) (p * 2) (\<lambda>i. f i - (if lz then b_arr st ! p else 0))"
    and "holds lz st (mid s t + 1) t (p * 2 + 1) (\<lambda>i. f i - (if lz then b_arr st ! p else 0))"
  using assms holds.simps [of lz st s t p f] by blast+

lemma holdsI:
  assumes "1 \<le> p" and "p < length (d_arr st)" and "p < length (b_arr st)"
    and "d_arr st ! p = (\<Sum>i = s..t. f i)"
    and "s < t \<Longrightarrow> holds lz st s (mid s t) (p * 2) (\<lambda>i. f i - (if lz then b_arr st ! p else 0))"
    and "s < t \<Longrightarrow> holds lz st (mid s t + 1) t (p * 2 + 1) (\<lambda>i. f i - (if lz then b_arr st ! p else 0))"
  shows "holds lz st s t p f"
  using assms holds.simps [of lz st s t p f] by blast

lemma holds_cong:
  "holds lz st s t p f \<Longrightarrow> (\<And>i. s \<le> i \<Longrightarrow> i \<le> t \<Longrightarrow> g i = f i) \<Longrightarrow> holds lz st s t p g"
proof (induction lz st s t p f arbitrary: g rule: holds.induct)
  case (1 lz st s t p f)
  note node = holds_node [OF "1.prems"(1)]
  show ?case
  proof (rule holdsI [OF node(1-3)])
    have "(\<Sum>i = s..t. g i) = (\<Sum>i = s..t. f i)" by (rule sum.cong) (simp_all add: "1.prems"(2))
    then show "d_arr st ! p = (\<Sum>i = s..t. g i)" using node(4) by simp
  next
    assume st: "s < t"
    show "holds lz st s (mid s t) (p * 2) (\<lambda>i. g i - (if lz then b_arr st ! p else 0))"
      using mid_bounds [OF st] by (intro "1.IH"(1) [OF st holds_children(1) [OF "1.prems"(1) st]]) (simp add: "1.prems"(2))
    show "holds lz st (mid s t + 1) t (p * 2 + 1) (\<lambda>i. g i - (if lz then b_arr st ! p else 0))"
      using mid_bounds [OF st] by (intro "1.IH"(2) [OF st holds_children(2) [OF "1.prems"(1) st]]) (simp add: "1.prems"(2))
  qed
qed

text \<open>What a subtree holds depends on its own nodes only.\<close>

definition same_below :: "nat \<Rightarrow> segtree \<Rightarrow> segtree \<Rightarrow> bool" where
  "same_below p st st' \<longleftrightarrow> length (d_arr st') = length (d_arr st) \<and> length (b_arr st') = length (b_arr st) \<and>
     (\<forall>q. below p q \<longrightarrow> d_arr st' ! q = d_arr st ! q \<and> b_arr st' ! q = b_arr st ! q)"

lemma holds_same:
  "holds lz st s t p f \<Longrightarrow> same_below p st st' \<Longrightarrow> holds lz st' s t p f"
proof (induction lz st s t p f rule: holds.induct)
  case (1 lz st s t p f)
  note node = holds_node [OF "1.prems"(1)]
  have here: "length (d_arr st') = length (d_arr st)" "length (b_arr st') = length (b_arr st)"
      "d_arr st' ! p = d_arr st ! p" "b_arr st' ! p = b_arr st ! p"
    using "1.prems"(2) by (simp_all add: same_below_def)
  have sub: "same_below (p * 2) st st'" "same_below (p * 2 + 1) st st'"
    using "1.prems"(2) below_child unfolding same_below_def by blast+
  show ?case
  proof (rule holdsI)
    assume st: "s < t"
    from "1.IH"(1) [OF st holds_children(1) [OF "1.prems"(1) st] sub(1)]
    show "holds lz st' s (mid s t) (p * 2) (\<lambda>i. f i - (if lz then b_arr st' ! p else 0))"
      by (simp only: here)
    from "1.IH"(2) [OF st holds_children(2) [OF "1.prems"(1) st] sub(2)]
    show "holds lz st' (mid s t + 1) t (p * 2 + 1) (\<lambda>i. f i - (if lz then b_arr st' ! p else 0))"
      by (simp only: here)
  qed (use node here in simp_all)
qed

text \<open>What an operation on a subtree leaves alone.\<close>

definition only_below :: "nat \<Rightarrow> segtree \<Rightarrow> segtree \<Rightarrow> bool" where
  "only_below p st st' \<longleftrightarrow> a_arr st' = a_arr st \<and>
     length (d_arr st') = length (d_arr st) \<and> length (b_arr st') = length (b_arr st) \<and>
     (\<forall>q. \<not> below p q \<longrightarrow> d_arr st' ! q = d_arr st ! q \<and> b_arr st' ! q = b_arr st ! q)"

lemma only_below_refl [simp]: "only_below p st st"
  by (simp add: only_below_def)

lemma only_below_trans: "only_below p st st1 \<Longrightarrow> only_below p st1 st2 \<Longrightarrow> only_below p st st2"
  by (simp add: only_below_def)

lemma only_below_up: "only_below (p * 2) st st' \<or> only_below (p * 2 + 1) st st' \<Longrightarrow> only_below p st st'"
  using below_child [of p] by (auto simp: only_below_def)

lemma only_below_sibling:
  assumes "1 \<le> p"
  shows "only_below (p * 2) st st' \<Longrightarrow> same_below (p * 2 + 1) st st'"
    and "only_below (p * 2 + 1) st st' \<Longrightarrow> same_below (p * 2) st st'"
  using below_disjoint [OF assms] by (auto simp: only_below_def same_below_def)

lemma only_below_parent:
  assumes "1 \<le> p" and "only_below (p * 2) st st' \<or> only_below (p * 2 + 1) st st'"
  shows "d_arr st' ! p = d_arr st ! p" and "b_arr st' ! p = b_arr st ! p"
  using not_below_parent [OF assms(1)] assms(2) by (auto simp: only_below_def)

section \<open>A mark on a node\<close>

text \<open>\<open>d[p] += (t - s + 1) * c; b[p] += c;\<close>\<close>

definition mark :: "int32 \<Rightarrow> int \<Rightarrow> int \<Rightarrow> nat \<Rightarrow> segtree \<Rightarrow> segtree" where
  "mark c s t p st = st\<lparr>d_arr := (d_arr st)[p := d_arr st ! p + of_int (t - s + 1) * c],
     b_arr := (b_arr st)[p := b_arr st ! p + c]\<rparr>"

lemma inc_ok: "i < length xs \<Longrightarrow> inc xs i v = Inr (xs[i := xs ! i + v])"
  by (simp add: inc_def array_get_def array_set_def)

text \<open>A node's own cells belong to its subtree and not to its children's.\<close>

lemma only_below_self:
  assumes "a_arr st' = a_arr st" "d_arr st' = (d_arr st)[p := x]" "b_arr st' = (b_arr st)[p := y]"
  shows "only_below p st st'"
proof -
  have other: "xs[p := v] ! q = xs ! q" if "\<not> below p q" for q v and xs :: "int32 list"
    using that by (metis below_refl nth_list_update_neq)
  show ?thesis by (simp add: only_below_def assms other)
qed

lemma same_below_self:
  assumes "1 \<le> p" "d_arr st' = (d_arr st)[p := x]" "b_arr st' = (b_arr st)[p := y]"
  shows "same_below (p * 2) st st'" and "same_below (p * 2 + 1) st st'"
proof -
  have other: "xs[p := v] ! q = xs ! q" if "below (p * 2) q \<or> below (p * 2 + 1) q"
    for q v and xs :: "int32 list"
    using that not_below_parent [OF assms(1)] by (metis nth_list_update_neq)
  show "same_below (p * 2) st st'" and "same_below (p * 2 + 1) st st'"
    unfolding same_below_def assms(2,3) using other by auto
qed

lemma only_below_mark: "only_below p st (mark c s t p st)"
  unfolding mark_def by (rule only_below_self) simp_all

lemma sum_shift:
  assumes "s \<le> t"
  shows "(\<Sum>i = s..t. f i + c) = (\<Sum>i = s..t. f i) + of_int (t - s + 1) * (c :: int32)"
proof -
  have "of_nat (card {s..t}) = (of_int (t - s + 1) :: int32)"
    using assms by (simp add: of_nat_nat)
  then show ?thesis by (simp only: sum.distrib sum_constant)
qed

lemma holds_mark:
  assumes "holds True st s t p f" and "s \<le> t"
  shows "holds True (mark c s t p st) s t p (\<lambda>i. f i + c)"
proof -
  note node = holds_node [OF assms(1)]
  have d: "d_arr (mark c s t p st) ! p = (\<Sum>i = s..t. f i) + of_int (t - s + 1) * c"
    and b: "b_arr (mark c s t p st) ! p = b_arr st ! p + c"
    using node by (simp_all add: mark_def)
  show ?thesis
  proof (rule holdsI)
    show "d_arr (mark c s t p st) ! p = (\<Sum>i = s..t. f i + c)"
      unfolding d sum_shift [OF assms(2)] ..
  next
    assume st: "s < t"
    have arrays: "d_arr (mark c s t p st) = (d_arr st)[p := d_arr st ! p + of_int (t - s + 1) * c]"
        "b_arr (mark c s t p st) = (b_arr st)[p := b_arr st ! p + c]"
      by (simp_all add: mark_def)
    note same = same_below_self [OF node(1) arrays]
    from holds_same [OF holds_children(1) [OF assms(1) st] same(1)]
    show "holds True (mark c s t p st) s (mid s t) (p * 2)
        (\<lambda>i. f i + c - (if True then b_arr (mark c s t p st) ! p else 0))"
      by (simp add: b)
    from holds_same [OF holds_children(2) [OF assms(1) st] same(2)]
    show "holds True (mark c s t p st) (mid s t + 1) t (p * 2 + 1)
        (\<lambda>i. f i + c - (if True then b_arr (mark c s t p st) ! p else 0))"
      by (simp add: b)
  qed (use node in \<open>simp_all add: mark_def\<close>)
qed

text \<open>A node put together from what its children hold.\<close>

lemma holds_join:
  assumes "1 \<le> p" "p < length (d_arr st)" "p < length (b_arr st)" "s < t"
    and "b_arr st ! p = 0 \<or> \<not> lz" and "d_arr st ! p = (\<Sum>i = s..t. f i)"
    and "holds lz st s (mid s t) (p * 2) f" "holds lz st (mid s t + 1) t (p * 2 + 1) f"
  shows "holds lz st s t p f"
  by (rule holdsI) (use assms in auto)

lemma sum_halves:
  assumes "s < t"
  shows "(\<Sum>i = s..mid s t. f i) + (\<Sum>i = mid s t + 1..t. f i) = (\<Sum>i = s..t. f i :: int32)"
proof -
  have "{s..t} = {s..mid s t} \<union> {mid s t + 1..t}" using mid_bounds [OF assms] by auto
  then have "(\<Sum>i = s..t. f i) = (\<Sum>i \<in> {s..mid s t} \<union> {mid s t + 1..t}. f i)"
    by (rule arg_cong [where f = "sum f"])
  also have "\<dots> = (\<Sum>i = s..mid s t. f i) + (\<Sum>i = mid s t + 1..t. f i)"
    by (rule sum.union_disjoint) auto
  finally show ?thesis ..
qed

text \<open>Two neighbouring children: what the parent's data access sees.\<close>

lemma pull_ok:
  assumes "1 \<le> p" "p < length (d_arr st)" "p < length (b_arr st)" "s < t"
    and "b_arr st ! p = 0 \<or> \<not> lz"
    and "holds lz st s (mid s t) (p * 2) f" "holds lz st (mid s t + 1) t (p * 2 + 1) f"
  shows "\<exists>st'. pull p st = Inr st' \<and> holds lz st' s t p f \<and> only_below p st st'"
proof -
  note l = holds_node [OF assms(6)] and r = holds_node [OF assms(7)]
  let ?v = "d_arr st ! (p * 2) + d_arr st ! (p * 2 + 1)"
  let ?st = "st\<lparr>d_arr := (d_arr st)[p := ?v]\<rparr>"
  have "pull p st = Inr ?st" using assms(2) l r by (simp add: pull_def array_get_def array_set_def)
  moreover have "holds lz ?st s t p f"
  proof (rule holds_join [OF assms(1)])
    show "d_arr ?st ! p = (\<Sum>i = s..t. f i)"
      using assms(2) by (simp add: l(4) r(4) sum_halves [OF assms(4)] del: One_nat_def)
    have "same_below (p * 2) st ?st" "same_below (p * 2 + 1) st ?st"
      by (rule same_below_self [OF assms(1), where y = "b_arr st ! p"]; simp)+
    with assms(6,7) show "holds lz ?st s (mid s t) (p * 2) f" "holds lz ?st (mid s t + 1) t (p * 2 + 1) f"
      by (auto intro: holds_same)
  qed (use assms in simp_all)
  moreover have "only_below p st ?st"
    by (rule only_below_self [where y = "b_arr st ! p"]) simp_all
  ultimately show ?thesis by blast
qed

section \<open>The operations on a subtree\<close>

text \<open>A node whose mark has been pushed down: the children hold the node's own values.\<close>

definition opened :: "int \<Rightarrow> int \<Rightarrow> nat \<Rightarrow> (int \<Rightarrow> int32) \<Rightarrow> segtree \<Rightarrow> segtree \<Rightarrow> bool" where
  "opened s t p f st st' \<longleftrightarrow> 1 \<le> p \<and> p < length (d_arr st') \<and> p < length (b_arr st') \<and>
     b_arr st' ! p = 0 \<and> d_arr st' ! p = (\<Sum>i = s..t. f i) \<and>
     holds True st' s (mid s t) (p * 2) f \<and>
     holds True st' (mid s t + 1) t (p * 2 + 1) f \<and> only_below p st st'"

lemma opened_holds: "opened s t p f st st' \<Longrightarrow> s < t \<Longrightarrow> holds True st' s t p f"
  by (rule holds_join) (simp_all add: opened_def)

lemma push_eq:
  assumes "p * 2 + 1 < length (d_arr st)" and "p * 2 + 1 < length (b_arr st)" and "p < length (b_arr st)"
  shows "push s t p st =
    (let bp = b_arr st ! p; st2 = mark bp (mid s t + 1) t (p * 2 + 1) (mark bp s (mid s t) (p * 2) st) in
     Inr (st2\<lparr>b_arr := (b_arr st2)[p := 0]\<rparr>))"
  using assms by (simp add: push_def Let_def inc_def array_get_def array_set_def mark_def mult.commute)

lemma push_ok:
  assumes "holds True st s t p f" and "s < t"
  shows "\<exists>st'. push s t p st = Inr st' \<and> opened s t p f st st'"
proof -
  let ?bp = "b_arr st ! p" and ?m = "mid s t"
  let ?g = "\<lambda>i. f i - ?bp"
  note node = holds_node [OF assms(1)]
  have left: "holds True st s ?m (p * 2) ?g" and right: "holds True st (?m + 1) t (p * 2 + 1) ?g"
    using holds_children [OF assms] by simp_all
  let ?st1 = "mark ?bp s ?m (p * 2) st"
  let ?st2 = "mark ?bp (?m + 1) t (p * 2 + 1) ?st1"
  let ?st3 = "?st2\<lparr>b_arr := (b_arr ?st2)[p := 0]\<rparr>"
  have push: "push s t p st = Inr ?st3"
    using push_eq [of p st s t] holds_node(2,3) [OF right] node(3) by (simp add: Let_def)
  note m1 = only_below_mark [of "p * 2" st ?bp s ?m]
    and m2 = only_below_mark [of "p * 2 + 1" ?st1 ?bp "?m + 1" t]
  have "holds True ?st1 s ?m (p * 2) f"
    using holds_mark [OF left, of ?bp] mid_bounds [OF assms(2)] by simp
  then have l2: "holds True ?st2 s ?m (p * 2) f"
    by (rule holds_same [OF _ only_below_sibling(2) [OF node(1) m2]])
  have "holds True ?st1 (?m + 1) t (p * 2 + 1) ?g"
    by (rule holds_same [OF right only_below_sibling(1) [OF node(1) m1]])
  then have r2: "holds True ?st2 (?m + 1) t (p * 2 + 1) f"
    using holds_mark [of ?st1 "?m + 1" t "p * 2 + 1" ?g ?bp] mid_bounds [OF assms(2)] by simp
  have same: "same_below (p * 2) ?st2 ?st3" "same_below (p * 2 + 1) ?st2 ?st3"
    by (rule same_below_self [OF node(1), where x = "d_arr ?st2 ! p" and y = 0]; simp)+
  have up: "only_below p ?st2 ?st3"
    by (rule only_below_self [where x = "d_arr ?st2 ! p" and y = 0]) simp_all
  have under: "only_below p st ?st2"
    using only_below_trans [OF only_below_up only_below_up] m1 m2 by blast
  have d: "d_arr ?st2 ! p = d_arr st ! p"
    using only_below_parent(1) [OF node(1), of st ?st1] only_below_parent(1) [OF node(1), of ?st1 ?st2] m1 m2
    by simp
  have "opened s t p f st ?st3"
    using node under up d holds_same [OF l2 same(1)] holds_same [OF r2 same(2)]
      only_below_trans [OF under up]
    unfolding opened_def by (simp add: only_below_def)
  with push show ?thesis by blast
qed

lemma open_ok:
  assumes "holds True st s t p f" and "s < t"
  shows "\<exists>st'. bind_res (array_get (b_arr st) p) (\<lambda>bp. if bp \<noteq> 0 then push s t p st else Inr st) = Inr st' \<and>
    opened s t p f st st'"
proof (cases "b_arr st ! p = 0")
  case True
  have "opened s t p f st st"
    using holds_node [OF assms(1)] holds_children [OF assms] True by (simp add: opened_def)
  then show ?thesis using holds_node [OF assms(1)] True by (simp add: array_get_def)
next
  case False
  then show ?thesis using push_ok [OF assms] holds_node [OF assms(1)] by (simp add: array_get_def)
qed

text \<open>The values after an update.\<close>

definition added :: "int \<Rightarrow> int \<Rightarrow> int32 \<Rightarrow> (int \<Rightarrow> int32) \<Rightarrow> int \<Rightarrow> int32" where
  "added l r c f = (\<lambda>i. if l \<le> i \<and> i \<le> r then f i + c else f i)"

text \<open>After the two children were changed below themselves, the parent is put together again.\<close>

lemma rejoin:
  assumes "opened s t p f st st1" and "s < t"
    and "only_below (p * 2) st1 st2" "holds True st2 s (mid s t) (p * 2) g"
    and "only_below (p * 2 + 1) st2 st3" "holds True st3 (mid s t + 1) t (p * 2 + 1) g"
  shows "\<exists>st'. pull p st3 = Inr st' \<and> holds True st' s t p g \<and> only_below p st st'"
proof -
  have p: "1 \<le> p" using assms(1) by (simp add: opened_def)
  have "holds True st3 s (mid s t) (p * 2) g"
    by (rule holds_same [OF assms(4) only_below_sibling(2) [OF p assms(5)]])
  moreover have "only_below p st st3"
    using assms(1,3,5) only_below_up only_below_trans unfolding opened_def by blast
  moreover have "b_arr st3 ! p = 0" "p < length (d_arr st3)" "p < length (b_arr st3)"
    using assms(1,3,5) only_below_parent(2) [OF p, of st1 st2] only_below_parent(2) [OF p, of st2 st3]
    by (simp_all add: opened_def only_below_def)
  ultimately show ?thesis
    using pull_ok [OF p _ _ assms(2) _ _ assms(6)] only_below_trans by blast
qed

lemma update_ok:
  "holds True st s t p f \<Longrightarrow> s \<le> t \<Longrightarrow> l \<le> t \<Longrightarrow> s \<le> r \<Longrightarrow>
   \<exists>st'. update l r c s t p st = Some (Inr st') \<and> holds True st' s t p (added l r c f) \<and> only_below p st st'"
proof (induction n \<equiv> "nat (t - s)" arbitrary: s t p f st rule: less_induct)
  case less
  note node = holds_node [OF less.prems(1)]
  let ?m = "mid s t"
  show ?case
  proof (cases "l \<le> s \<and> t \<le> r")
    case True
    then have "update l r c s t p st = Some (Inr (mark c s t p st))"
      using node by (subst update.simps) (simp add: inc_ok mark_def)
    moreover have "holds True (mark c s t p st) s t p (added l r c f)"
      by (rule holds_cong [OF holds_mark [OF less.prems(1,2)]]) (use True in \<open>simp add: added_def\<close>)
    ultimately show ?thesis using only_below_mark by blast
  next
    case False
    with less.prems(2-4) have st: "s < t" by (cases "s = t") auto
    note m = mid_bounds [OF st]
    have shrink: "nat (?m - s) < nat (t - s)" "nat (t - (?m + 1)) < nat (t - s)" using m st by auto
    obtain st1 where o: "bind_res (array_get (b_arr st) p) (\<lambda>bp. if bp \<noteq> 0 then push s t p st else Inr st) = Inr st1"
        "opened s t p f st st1"
      using open_ok [OF less.prems(1) st] by blast
    have l1: "holds True st1 s ?m (p * 2) f" and r1: "holds True st1 (?m + 1) t (p * 2 + 1) f"
      and p: "1 \<le> p" using o(2) by (simp_all add: opened_def)
    have "\<exists>st2. (if l \<le> ?m then update l r c s ?m (p * 2) st1 else Some (Inr st1)) = Some (Inr st2) \<and>
        holds True st2 s ?m (p * 2) (added l r c f) \<and> only_below (p * 2) st1 st2"
      using less.hyps [OF shrink(1) l1 m(1) _ less.prems(4)] holds_cong [OF l1, of "added l r c f"]
      by (cases "l \<le> ?m") (auto simp: added_def)
    then obtain st2 where s2: "(if l \<le> ?m then update l r c s ?m (p * 2) st1 else Some (Inr st1)) = Some (Inr st2)"
        "holds True st2 s ?m (p * 2) (added l r c f)" "only_below (p * 2) st1 st2" by blast
    have r2: "holds True st2 (?m + 1) t (p * 2 + 1) f"
      by (rule holds_same [OF r1 only_below_sibling(1) [OF p s2(3)]])
    have "\<exists>st3. (if r > ?m then update l r c (?m + 1) t (p * 2 + 1) st2 else Some (Inr st2)) = Some (Inr st3) \<and>
        holds True st3 (?m + 1) t (p * 2 + 1) (added l r c f) \<and> only_below (p * 2 + 1) st2 st3"
      using less.hyps [OF shrink(2) r2 _ less.prems(3)] m(2) holds_cong [OF r2, of "added l r c f"]
      by (cases "r > ?m") (auto simp: added_def)
    then obtain st3 where s3: "(if r > ?m then update l r c (?m + 1) t (p * 2 + 1) st2 else Some (Inr st2)) = Some (Inr st3)"
        "holds True st3 (?m + 1) t (p * 2 + 1) (added l r c f)" "only_below (p * 2 + 1) st2 st3" by blast
    from rejoin [OF o(2) st s2(3,2) s3(3,2)] obtain st' where
      "pull p st3 = Inr st'" "holds True st' s t p (added l r c f)" "only_below p st st'" by blast
    moreover have "update l r c s t p st = Some (pull p st3)"
      unfolding update.simps [of l r c s t p st] if_not_P [OF False] using st o(1) s2(1) s3(1)
      by (simp add: Let_def)
    ultimately show ?thesis by auto
  qed
qed

text \<open>The sum a query asks for.\<close>

definition asked :: "int \<Rightarrow> int \<Rightarrow> int \<Rightarrow> int \<Rightarrow> (int \<Rightarrow> int32) \<Rightarrow> int32" where
  "asked l r s t f = sum f ({s..t} \<inter> {l..r})"

lemma asked_all: "l \<le> s \<Longrightarrow> t \<le> r \<Longrightarrow> asked l r s t f = (\<Sum>i = s..t. f i)"
  unfolding asked_def by (rule arg_cong [where f = "sum f"]) auto

lemma asked_none: "l > t \<or> r < s \<Longrightarrow> asked l r s t f = 0"
  unfolding asked_def by (rule sum.neutral) auto

lemma asked_halves:
  assumes "s < t"
  shows "asked l r s (mid s t) f + asked l r (mid s t + 1) t f = asked l r s t f"
proof -
  have "{s..t} \<inter> {l..r} = {s..mid s t} \<inter> {l..r} \<union> {mid s t + 1..t} \<inter> {l..r}"
    using mid_bounds [OF assms] by auto
  then have "asked l r s t f = sum f ({s..mid s t} \<inter> {l..r} \<union> {mid s t + 1..t} \<inter> {l..r})"
    unfolding asked_def by (rule arg_cong [where f = "sum f"])
  also have "\<dots> = asked l r s (mid s t) f + asked l r (mid s t + 1) t f"
    unfolding asked_def by (rule sum.union_disjoint) auto
  finally show ?thesis ..
qed

lemma getsum2_ok:
  "holds True st s t p f \<Longrightarrow> s \<le> t \<Longrightarrow> l \<le> t \<Longrightarrow> s \<le> r \<Longrightarrow>
   \<exists>st'. getsum2 l r s t p st = Some (Inr (asked l r s t f, st')) \<and> holds True st' s t p f \<and> only_below p st st'"
proof (induction n \<equiv> "nat (t - s)" arbitrary: s t p f st rule: less_induct)
  case less
  note node = holds_node [OF less.prems(1)]
  let ?m = "mid s t"
  show ?case
  proof (cases "l \<le> s \<and> t \<le> r")
    case True
    then have "getsum2 l r s t p st = Some (Inr (asked l r s t f, st))"
      using node by (subst getsum2.simps) (simp add: array_get_def asked_all)
    then show ?thesis using less.prems(1) only_below_refl by blast
  next
    case False
    with less.prems(2-4) have st: "s < t" by (cases "s = t") auto
    note m = mid_bounds [OF st]
    have shrink: "nat (?m - s) < nat (t - s)" "nat (t - (?m + 1)) < nat (t - s)" using m st by auto
    obtain st1 where o: "bind_res (array_get (b_arr st) p) (\<lambda>bp. if bp \<noteq> 0 then push s t p st else Inr st) = Inr st1"
        "opened s t p f st st1"
      using open_ok [OF less.prems(1) st] by blast
    have l1: "holds True st1 s ?m (p * 2) f" and r1: "holds True st1 (?m + 1) t (p * 2 + 1) f"
      and p: "1 \<le> p" using o(2) by (simp_all add: opened_def)
    have "\<exists>st2. (if l \<le> ?m then getsum2 l r s ?m (p * 2) st1 else Some (Inr (0, st1))) =
          Some (Inr (asked l r s ?m f, st2)) \<and>
        holds True st2 s ?m (p * 2) f \<and> only_below (p * 2) st1 st2"
      using less.hyps [OF shrink(1) l1 m(1) _ less.prems(4)] l1
      by (cases "l \<le> ?m") (auto simp: asked_none)
    then obtain st2 where s2: "(if l \<le> ?m then getsum2 l r s ?m (p * 2) st1 else Some (Inr (0, st1))) =
          Some (Inr (asked l r s ?m f, st2))"
        "holds True st2 s ?m (p * 2) f" "only_below (p * 2) st1 st2" by blast
    have r2: "holds True st2 (?m + 1) t (p * 2 + 1) f"
      by (rule holds_same [OF r1 only_below_sibling(1) [OF p s2(3)]])
    have "\<exists>st3. (if r > ?m then getsum2 l r (?m + 1) t (p * 2 + 1) st2 else Some (Inr (0, st2))) =
          Some (Inr (asked l r (?m + 1) t f, st3)) \<and>
        holds True st3 (?m + 1) t (p * 2 + 1) f \<and> only_below (p * 2 + 1) st2 st3"
      using less.hyps [OF shrink(2) r2 _ less.prems(3)] m(2) r2
      by (cases "r > ?m") (auto simp: asked_none)
    then obtain st3 where s3: "(if r > ?m then getsum2 l r (?m + 1) t (p * 2 + 1) st2 else Some (Inr (0, st2))) =
          Some (Inr (asked l r (?m + 1) t f, st3))"
        "holds True st3 (?m + 1) t (p * 2 + 1) f" "only_below (p * 2 + 1) st2 st3" by blast
    have "opened s t p f st st3"
      using o(2) s2(2,3) s3(2,3) only_below_parent [OF p, of st1 st2] only_below_parent [OF p, of st2 st3]
        holds_same [OF s2(2) only_below_sibling(2) [OF p s3(3)]]
        only_below_trans [OF only_below_trans [OF _ only_below_up] only_below_up, of p st st1 st2 st3]
      unfolding opened_def by (simp add: only_below_def [of "p * 2"] only_below_def [of "Suc (p * 2)"])
    note op = this
    have "holds True st3 s t p f" by (rule opened_holds [OF op st])
    moreover have "only_below p st st3" using op by (simp add: opened_def)
    moreover have "getsum2 l r s t p st = Some (Inr (asked l r s t f, st3))"
      unfolding getsum2.simps [of l r s t p st] if_not_P [OF False] using st o(1) s2(1) s3(1)
      by (simp add: Let_def asked_halves)
    ultimately show ?thesis by blast
  qed
qed

lemma getsum1_ok:
  "holds False st s t p f \<Longrightarrow> s \<le> t \<Longrightarrow> l \<le> t \<Longrightarrow> s \<le> r \<Longrightarrow>
   getsum1 l r s t p st = Some (Inr (asked l r s t f))"
proof (induction n \<equiv> "nat (t - s)" arbitrary: s t p rule: less_induct)
  case less
  note node = holds_node [OF less.prems(1)]
  let ?m = "mid s t"
  show ?case
  proof (cases "l \<le> s \<and> t \<le> r")
    case True
    then show ?thesis using node by (subst getsum1.simps) (simp add: array_get_def asked_all)
  next
    case False
    with less.prems(2-4) have st: "s < t" by (cases "s = t") auto
    note m = mid_bounds [OF st]
    have shrink: "nat (?m - s) < nat (t - s)" "nat (t - (?m + 1)) < nat (t - s)" using m st by auto
    have ch: "holds False st s ?m (p * 2) f" "holds False st (?m + 1) t (p * 2 + 1) f"
      using holds_children [OF less.prems(1) st] by simp_all
    have "(if l \<le> ?m then getsum1 l r s ?m (p * 2) st else Some (Inr 0)) = Some (Inr (asked l r s ?m f))"
      using less.hyps [OF shrink(1) ch(1) m(1) _ less.prems(4)] by (simp add: asked_none)
    moreover have "(if r > ?m then getsum1 l r (?m + 1) t (p * 2 + 1) st else Some (Inr 0)) =
        Some (Inr (asked l r (?m + 1) t f))"
      using less.hyps [OF shrink(2) ch(2) _ less.prems(3)] m(2) by (simp add: asked_none)
    ultimately show ?thesis
      unfolding getsum1.simps [of l r s t p st] if_not_P [OF False]
      using asked_halves [OF st, of l r f] by (simp add: Let_def)
  qed
qed

section \<open>Room for the nodes\<close>

function room :: "nat \<Rightarrow> int \<Rightarrow> int \<Rightarrow> nat \<Rightarrow> bool" where
  "room n s t p \<longleftrightarrow> p < n \<and> (s < t \<longrightarrow> room n s (mid s t) (p * 2) \<and> room n (mid s t + 1) t (p * 2 + 1))"
  by pat_completeness auto
termination
  by (relation "measure (\<lambda>(n, s, t, p). nat (t - s))") (auto simp: mid_def)

declare room.simps [simp del]

text \<open>A subtree of height \<open>h\<close> has its nodes before \<open>(p + 1) * 2 ^ h\<close>.\<close>

lemma room_height:
  "t - s + 1 \<le> 2 ^ h \<Longrightarrow> (p + 1) * 2 ^ h \<le> n \<Longrightarrow> room n s t p"
proof (induction h arbitrary: s t p)
  case 0
  then show ?case by (subst room.simps) simp
next
  case (Suc h)
  have "(p + 1) * 1 \<le> (p + 1) * 2 ^ Suc h" by (rule mult_le_mono2) simp
  then have "(p + 1) * 1 \<le> n" using Suc.prems(2) by (rule order_trans)
  then have "p < n" by simp
  moreover have "room n s (mid s t) (p * 2)" "room n (mid s t + 1) t (p * 2 + 1)"
    using Suc.prems by (auto intro!: Suc.IH simp: mid_def algebra_simps)
  ultimately show ?case by (subst room.simps) blast
qed

lemma power_between: "1 \<le> n \<Longrightarrow> \<exists>h. n \<le> 2 ^ h \<and> 2 ^ h < 2 * (n :: nat)"
proof (induction n rule: nat_induct_at_least)
  case base
  show ?case by (rule exI [of _ 0]) simp
next
  case (Suc n)
  then obtain h where h: "n \<le> 2 ^ h" "2 ^ h < 2 * n" by blast
  show ?case
  proof (cases "n = 2 ^ h")
    case True
    then show ?thesis using Suc.hyps by (intro exI [of _ "Suc h"]) simp
  next
    case False
    then show ?thesis using h by (intro exI [of _ h]) simp
  qed
qed

text \<open>Four times the number of elements is enough for the tree at the root.\<close>

lemma room_root:
  assumes "1 \<le> n" and "4 * n \<le> N"
  shows "room N 1 (int n) 1"
proof -
  from power_between [OF assms(1)] obtain h where h: "n \<le> 2 ^ h" "2 ^ h < 2 * n" by blast
  show ?thesis
  proof (rule room_height)
    have "int n \<le> int (2 ^ h)" using h(1) by (rule zle_int [THEN iffD2])
    then show "int n - 1 + 1 \<le> 2 ^ h" by simp
    show "(1 + 1) * 2 ^ h \<le> N" using h(2) assms(2) by simp
  qed
qed

section \<open>Building\<close>

lemma build_ok:
  "s \<le> t \<Longrightarrow> 0 \<le> s \<Longrightarrow> t < int (length (a_arr st)) \<Longrightarrow> 1 \<le> p \<Longrightarrow>
   room (length (d_arr st)) s t p \<Longrightarrow> room (length (b_arr st)) s t p \<Longrightarrow>
   \<exists>st'. build s t p st = Some (Inr st') \<and> holds False st' s t p (\<lambda>i. a_arr st ! nat i) \<and>
     only_below p st st' \<and> b_arr st' = b_arr st"
proof (induction n \<equiv> "nat (t - s)" arbitrary: s t p st rule: less_induct)
  case less
  let ?m = "mid s t" and ?f = "\<lambda>i. a_arr st ! nat i"
  have p: "p < length (d_arr st)" "p < length (b_arr st)"
    using less.prems(5,6) room.simps by blast+
  show ?case
  proof (cases "s = t")
    case True
    let ?st = "st\<lparr>d_arr := (d_arr st)[p := ?f s]\<rparr>"
    have "build s t p st = Some (Inr ?st)"
      using True less.prems(2,3) p by (subst build.simps) (simp add: array_get_def array_set_def nat_less_iff)
    moreover have "holds False ?st s t p ?f"
      by (rule holdsI) (use True p less.prems(4) in simp_all)
    moreover have "only_below p st ?st"
      by (rule only_below_self [where y = "b_arr st ! p"]) simp_all
    ultimately show ?thesis by auto
  next
    case False
    with less.prems(1) have st: "s < t" by simp
    note m = mid_bounds [OF st]
    have shrink: "nat (?m - s) < nat (t - s)" "nat (t - (?m + 1)) < nat (t - s)" using m st by auto
    have rooms: "room (length (d_arr st)) s ?m (p * 2)" "room (length (b_arr st)) s ?m (p * 2)"
        "room (length (d_arr st)) (?m + 1) t (p * 2 + 1)" "room (length (b_arr st)) (?m + 1) t (p * 2 + 1)"
      using less.prems(5,6) st room.simps [of "length (d_arr st)" s t p] room.simps [of "length (b_arr st)" s t p]
      by blast+
    have "?m < int (length (a_arr st))" using m less.prems(3) by simp
    from less.hyps [OF shrink(1) m(1) less.prems(2) this _ rooms(1,2)] less.prems(4) obtain st1 where
      s1: "build s ?m (p * 2) st = Some (Inr st1)" "holds False st1 s ?m (p * 2) ?f"
        "only_below (p * 2) st st1" "b_arr st1 = b_arr st" by auto
    have same: "a_arr st1 = a_arr st" "length (d_arr st1) = length (d_arr st)"
      using s1(3) by (simp_all add: only_below_def)
    have "\<exists>st2. build (?m + 1) t (p * 2 + 1) st1 = Some (Inr st2) \<and>
        holds False st2 (?m + 1) t (p * 2 + 1) (\<lambda>i. a_arr st1 ! nat i) \<and>
        only_below (p * 2 + 1) st1 st2 \<and> b_arr st2 = b_arr st1"
      by (rule less.hyps [OF shrink(2)]) (use m less.prems(2-4) rooms(3,4) same s1(4) in simp_all)
    then obtain st2 where s2: "build (?m + 1) t (p * 2 + 1) st1 = Some (Inr st2)"
        "holds False st2 (?m + 1) t (p * 2 + 1) ?f" "only_below (p * 2 + 1) st1 st2" "b_arr st2 = b_arr st"
      using same(1) s1(4) by auto
    have "holds False st2 s ?m (p * 2) ?f"
      by (rule holds_same [OF s1(2) only_below_sibling(2) [OF less.prems(4) s2(3)]])
    moreover have len: "p < length (d_arr st2)" "p < length (b_arr st2)"
      using p same s2(3,4) by (simp_all add: only_below_def)
    ultimately obtain st' where st': "pull p st2 = Inr st'" "holds False st' s t p ?f" "only_below p st2 st'"
      using pull_ok [OF less.prems(4) len st _ _ s2(2)] by blast
    have "only_below p st st'"
      using s1(3) s2(3) st'(3) only_below_up only_below_trans by blast
    moreover have "b_arr st' = b_arr st2"
      using st'(1) by (auto simp: pull_def bind_res_eq_Inr)
    moreover have "build s t p st = Some (Inr st')"
      unfolding build.simps [of s t p st] if_not_P [OF False] using s1(1) s2(1) st'(1)
      by (simp add: Let_def)
    ultimately show ?thesis using st'(2) s2(4) by auto
  qed
qed

text \<open>Without marks the two readings agree.\<close>

lemma holds_unmarked:
  "holds False st s t p f \<Longrightarrow> b_arr st = replicate k 0 \<Longrightarrow> holds True st s t p f"
proof (induction n \<equiv> "nat (t - s)" arbitrary: s t p rule: less_induct)
  case less
  note node = holds_node [OF less.prems(1)]
  have zero: "b_arr st ! p = 0" using node(3) less.prems(2) by simp
  show ?case
  proof (rule holdsI)
    assume st: "s < t"
    note m = mid_bounds [OF st]
    have shrink: "nat (mid s t - s) < nat (t - s)" "nat (t - (mid s t + 1)) < nat (t - s)" using m st by auto
    show "holds True st s (mid s t) (p * 2) (\<lambda>i. f i - (if True then b_arr st ! p else 0))"
      using less.hyps [OF shrink(1) _ less.prems(2)] holds_children(1) [OF less.prems(1) st] by (simp add: zero)
    show "holds True st (mid s t + 1) t (p * 2 + 1) (\<lambda>i. f i - (if True then b_arr st ! p else 0))"
      using less.hyps [OF shrink(2) _ less.prems(2)] holds_children(2) [OF less.prems(1) st] by (simp add: zero)
  qed (use node in simp_all)
qed

lemma build_root:
  assumes "1 \<le> n" "n < length (a_arr st)" "4 * n \<le> length (d_arr st)" "4 * n \<le> length (b_arr st)"
  shows "\<exists>st'. build 1 (int n) 1 st = Some (Inr st') \<and> holds False st' 1 (int n) 1 (\<lambda>i. a_arr st ! nat i) \<and>
    b_arr st' = b_arr st"
  using build_ok [of 1 "int n" st 1] room_root [OF assms(1,3)] room_root [OF assms(1,4)] assms(1,2) by auto

section \<open>Runs\<close>

datatype seg_op = Add int int int32 | Query int int

text \<open>Operations on the tree at the root; the answers of the queries in order.\<close>

fun run_seg :: "int \<Rightarrow> seg_op list \<Rightarrow> segtree \<Rightarrow> int32 list res option" where
  "run_seg n [] st = Some (Inr [])"
| "run_seg n (Add l r c # ops) st = andthen (update l r c 1 n 1 st) (run_seg n ops)"
| "run_seg n (Query l r # ops) st =
     andthen (getsum2 l r 1 n 1 st) (\<lambda>(x, st1). andthen (run_seg n ops st1) (\<lambda>xs. Some (Inr (x # xs))))"

text \<open>The same on plain values.\<close>

fun answers :: "int \<Rightarrow> seg_op list \<Rightarrow> (int \<Rightarrow> int32) \<Rightarrow> int32 list" where
  "answers n [] f = []"
| "answers n (Add l r c # ops) f = answers n ops (\<lambda>i. if l \<le> i \<and> i \<le> r then f i + c else f i)"
| "answers n (Query l r # ops) f = (\<Sum>i \<in> {1..n} \<inter> {l..r}. f i) # answers n ops f"

fun touches :: "int \<Rightarrow> seg_op \<Rightarrow> bool" where
  "touches n (Add l r c) \<longleftrightarrow> l \<le> n \<and> 1 \<le> r"
| "touches n (Query l r) \<longleftrightarrow> l \<le> n \<and> 1 \<le> r"

lemma run_seg_ok:
  "holds True st 1 n 1 f \<Longrightarrow> 1 \<le> n \<Longrightarrow> \<forall>op \<in> set ops. touches n op \<Longrightarrow>
   run_seg n ops st = Some (Inr (answers n ops f))"
proof (induction n ops st arbitrary: f rule: run_seg.induct)
  case (1 n st)
  then show ?case by simp
next
  case (2 n l r c ops st)
  from update_ok [OF "2.prems"(1,2), of l r c] "2.prems"(3) obtain st' where
    st': "update l r c 1 n 1 st = Some (Inr st')" "holds True st' 1 n 1 (added l r c f)" by auto
  then show ?case using "2.IH" [OF st'(2) "2.prems"(2)] "2.prems"(3) by (simp add: added_def)
next
  case (3 n l r ops st)
  from getsum2_ok [OF "3.prems"(1,2), of l r] "3.prems"(3) obtain st' where
    st': "getsum2 l r 1 n 1 st = Some (Inr (asked l r 1 n f, st'))" "holds True st' 1 n 1 f" by auto
  then show ?case using "3.IH" [OF st'(2) "3.prems"(2)] "3.prems"(3) by (simp add: asked_def)
qed

section \<open>Properties\<close>

text \<open>C7: The lazy segment tree computes range sums: for every number of elements, with trees of
  four times as many nodes and no marks, the build ends without leaving its arrays, and so
  does every sequence of range updates and range queries that meet the elements at all; each
  query answers the sum, modulo 2^32, of the elements in its range with all
  earlier updates applied to them one by one.\<close>

theorem segtree_sums:
  assumes "1 \<le> n" and "n < length (a_arr st)"
    and "4 * n \<le> length (d_arr st)" and "4 * n \<le> length (b_arr st)"
    and "b_arr st = replicate (length (b_arr st)) 0"
    and "\<forall>op \<in> set ops. touches (int n) op"
  shows "andthen (build 1 (int n) 1 st) (run_seg (int n) ops) =
    Some (Inr (answers (int n) ops (\<lambda>i. a_arr st ! nat i)))"
proof -
  from build_root [OF assms(1-4)] obtain st' where
    st': "build 1 (int n) 1 st = Some (Inr st')" "holds False st' 1 (int n) 1 (\<lambda>i. a_arr st ! nat i)"
      "b_arr st' = b_arr st" by blast
  from assms(5) st'(3) have "b_arr st' = replicate (length (b_arr st)) 0" by simp
  from run_seg_ok [OF holds_unmarked [OF st'(2) this] _ assms(6)] assms(1) st'(1) show ?thesis by simp
qed

lemma segtree_sums_witness:
  "andthen (build 1 4 1 (fill globals)) (run_seg 4 [Query 2 4, Add 1 4 1, Add 2 9 5, Query 0 2]) =
   Some (Inr [9, 10])"
proof -
  let ?ops = "[Query 2 4, Add 1 4 1, Add 2 9 5, Query 0 2]"
  have g: "fill globals = \<lparr>a_arr = [0, 1, 2, 3, 4], d_arr = replicate 20 0, b_arr = replicate 20 0\<rparr>"
    by (simp add: fill_def globals_def SIZE_def upt_rec numeral_eq_Suc)
  have sets: "{2..4} = {2, 3, 4 :: int}" "{1..2} = {1, 2 :: int}" by auto
  have "andthen (build 1 (int 4) 1 (fill globals)) (run_seg (int 4) ?ops) =
      Some (Inr (answers (int 4) ?ops (\<lambda>i. a_arr (fill globals) ! nat i)))"
    by (rule segtree_sums) (simp_all add: g)
  also have "answers (int 4) ?ops (\<lambda>i. a_arr (fill globals) ! nat i) = [9, 10]"
    by (simp add: g sets)
  finally show ?thesis by (simp only: of_nat_numeral)
qed

text \<open>Before the first update the query that reads no marks is right as well: on a freshly built
  tree getsum1 returns the sum of the elements in its range, whatever the marks are.\<close>

theorem getsum1_after_build:
  assumes "1 \<le> n" and "n < length (a_arr st)"
    and "4 * n \<le> length (d_arr st)" and "4 * n \<le> length (b_arr st)"
    and "l \<le> int n" and "1 \<le> r"
  shows "andthen (build 1 (int n) 1 st) (getsum1 l r 1 (int n) 1) =
    Some (Inr (\<Sum>i \<in> {1..int n} \<inter> {l..r}. a_arr st ! nat i))"
proof -
  from build_root [OF assms(1-4)] obtain st' where
    "build 1 (int n) 1 st = Some (Inr st')" "holds False st' 1 (int n) 1 (\<lambda>i. a_arr st ! nat i)" by blast
  with getsum1_ok [OF this(2) _ assms(5,6)] assms(1) show ?thesis by (simp add: asked_def)
qed

lemma getsum1_after_build_witness:
  "andthen (build 1 4 1 (fill globals)) (getsum1 2 4 1 4 1) = Some (Inr 9)"
proof -
  have g: "fill globals = \<lparr>a_arr = [0, 1, 2, 3, 4], d_arr = replicate 20 0, b_arr = replicate 20 0\<rparr>"
    by (simp add: fill_def globals_def SIZE_def upt_rec numeral_eq_Suc)
  have sets: "{2..4} = {2, 3, 4 :: int}" by auto
  have "andthen (build 1 (int 4) 1 (fill globals)) (getsum1 2 4 1 (int 4) 1) =
      Some (Inr (\<Sum>i \<in> {1..int 4} \<inter> {2..4}. a_arr (fill globals) ! nat i))"
    by (rule getsum1_after_build) (simp_all add: g)
  then show ?thesis by (simp add: g sets)
qed

end
