(* ===== verification/UnitTests.thy ===== *)
theory UnitTests
  imports Socket
begin

text \<open>
  The unit tests of the repository (network/include/Test/Test_Inet_address.cc and the tests of
  network/include/Test/Test_utill.cc that are not commented out), run on the model, and the law behind those of the
  addresses: the text of an IPv4 address.

  \<^item> A test is the conjunction of its expectations. \<open>g\<close> is the memory a constructor finds.
  \<^item> \<open>inet_texts\<close> is what is relied on of inet_ntop and inet_pton: they convert between four bytes and their
    dotted decimal text, and nothing else is such a text. \<open>parse_dotted\<close> and \<open>dotted\<close> are such functions.
  \<^item> htons, ntohl and inet_addr are what the tests compare with, from the C library.
\<close>

section \<open>Dotted decimal\<close>

definition dotted :: "byte list \<Rightarrow> string" where
  "dotted bs = dec (unat (bs ! 0)) @ ''.'' @ dec (unat (bs ! 1)) @ ''.'' @ dec (unat (bs ! 2)) @ ''.'' @ dec (unat (bs ! 3))"

definition inet_texts :: "inet_ntop \<Rightarrow> inet_pton \<Rightarrow> bool" where
  "inet_texts ntop pton \<longleftrightarrow>
     (\<forall>bs. length bs = 4 \<longrightarrow> ntop AF_INET bs = dotted bs \<and> pton AF_INET (dotted bs) = Some bs) \<and>
     (\<forall>s bs. pton AF_INET s = Some bs \<longrightarrow> length bs = 4 \<and> s = dotted bs)"

text \<open>The characters of a number.\<close>

lemma dec_chars: "c \<in> set (dec n) \<Longrightarrow> \<exists>k<10. c = digit k"
proof (induction n rule: dec.induct)
  case (1 n)
  have "n mod 10 < 10" by simp
  with 1 show ?case by (subst (asm) dec.simps) (fastforce split: if_splits)
qed

lemma digit_code: "k < 10 \<Longrightarrow> digit k = c \<Longrightarrow> of_char c = 48 + k"
  by (auto simp: digit_def)

lemma digit_neq:
  assumes "k < 10"
  shows "digit k \<noteq> CHR ''.''" and "digit k \<noteq> CHR '':''" and "digit k \<noteq> CHR 0x00"
  using assms digit_code [of k "CHR ''.''"] digit_code [of k "CHR '':''"] digit_code [of k "CHR 0x00"] by auto

lemma dec_no [simp]: "CHR ''.'' \<notin> set (dec n)" "CHR '':'' \<notin> set (dec n)" "CHR 0x00 \<notin> set (dec n)"
  using dec_chars digit_neq by metis+

lemma dotted_chars: "CHR ''.'' \<in> set (dotted bs)" "CHR '':'' \<notin> set (dotted bs)" "CHR 0x00 \<notin> set (dotted bs)"
  by (simp_all add: dotted_def)

lemma c_str_dotted [simp]: "c_str (dotted bs) = dotted bs"
  using dotted_chars(3) [of bs] by (auto simp: c_str_def takeWhile_eq_all_conv)

lemma length_dec_byte: "length (dec (unat (b :: byte))) \<le> 3"
proof -
  have "unat b < 10 ^ Suc 2" using unsigned_less [of b, where 'a = nat] by simp
  from length_dec_le [OF this] show ?thesis by simp
qed

lemma length_dotted: "length (dotted bs) < 16"
  using length_dec_byte [of "bs ! 0"] length_dec_byte [of "bs ! 1"] length_dec_byte [of "bs ! 2"] length_dec_byte [of "bs ! 3"]
  by (simp add: dotted_def)

text \<open>Reading the text back, which determines the four bytes.\<close>

fun split_at :: "char \<Rightarrow> string \<Rightarrow> string list" where
  "split_at c [] = [[]]"
| "split_at c (x # xs) = (if x = c then [] # split_at c xs else
     (case split_at c xs of [] \<Rightarrow> [[x]] | w # ws \<Rightarrow> (x # w) # ws))"

lemma split_at_append: "c \<notin> set w \<Longrightarrow> split_at c (w @ c # xs) = w # split_at c xs"
  by (induction w) auto

lemma split_at_last: "c \<notin> set w \<Longrightarrow> split_at c w = [w]"
  by (induction w) auto

definition parse_dotted :: "string \<Rightarrow> byte list option" where
  "parse_dotted s = (let bs = map (\<lambda>w. of_nat (undec 0 w)) (split_at CHR ''.'' s) in
     if length bs = 4 \<and> dotted bs = s then Some bs else None)"

lemma parse_dotted: "length bs = 4 \<Longrightarrow> parse_dotted (dotted bs) = Some bs"
proof -
  assume "length bs = 4"
  then obtain a b c d where bs: "bs = [a, b, c, d]"
    by (auto simp: numeral_eq_Suc length_Suc_conv)
  have "split_at CHR ''.'' (dotted bs) = [dec (unat a), dec (unat b), dec (unat c), dec (unat d)]"
    by (simp add: bs dotted_def split_at_append split_at_last)
  then show ?thesis by (simp add: parse_dotted_def bs undec_dec)
qed

definition dotted_ntop :: inet_ntop where
  "dotted_ntop af bs = dotted bs"

definition dotted_pton :: inet_pton where
  "dotted_pton af s = parse_dotted s"

lemma dotted_texts: "inet_texts dotted_ntop dotted_pton"
proof -
  have "parse_dotted s = Some bs \<Longrightarrow> length bs = 4 \<and> s = dotted bs" for s bs
    by (auto simp only: parse_dotted_def Let_def option.inject option.distinct split: if_splits)
  then show ?thesis by (simp add: inet_texts_def dotted_ntop_def dotted_pton_def parse_dotted)
qed

section \<open>The text of an IPv4 address\<close>

lemma take_drop_4: "length a = 28 \<Longrightarrow> length bs = 4 \<Longrightarrow> sin_addr (splice 4 bs a) = bs"
  by (simp add: sin_addr_def splice_def)

text \<open>Memory after the constructor from a text: cleared, the family, the port and, if the text is an address, its bytes.\<close>

lemma Inet_address_ip_fields:
  assumes "inet_texts ntop pton" and "length g = 28" and "CHR '':'' \<notin> set (c_str s)"
  shows "sa_family h (Inet_address_ip pton h g s p lo False) = AF_INET"
    and "sin_port h (Inet_address_ip pton h g s p lo False) = host_to_net_16 h p"
    and "sin_addr (Inet_address_ip pton h g s p lo False) =
      (case pton AF_INET (c_str s) of None \<Rightarrow> [0, 0, 0, 0] | Some bs \<Rightarrow> bs)"
proof -
  let ?a = "set_port h (host_to_net_16 h p) (set_family h AF_INET (set_family h AF_INET (splice 0 (replicate 16 0) g)))"
  have a: "length ?a = 28" using assms(2) by simp
  have addr: "Inet_address_ip pton h g s p lo False =
      (case pton AF_INET (c_str s) of None \<Rightarrow> ?a | Some bs \<Rightarrow> splice 4 bs ?a)"
    using assms(3) by (simp add: Inet_address_ip_def fromIpPort_4_def Let_def)
  have len: "pton AF_INET (c_str s) = Some bs \<Longrightarrow> length bs = 4" for bs
    using assms(1) by (simp add: inet_texts_def)
  have zero: "sin_addr ?a = [0, 0, 0, 0]"
  proof -
    have "sin_addr (splice 0 (replicate 16 0) g) = replicate 4 0" by (simp add: sin_addr_def splice_def)
    also have "\<dots> = [0, 0, 0, 0]" by (simp add: numeral_eq_Suc)
    finally show ?thesis using assms(2) by simp
  qed
  show "sa_family h (Inet_address_ip pton h g s p lo False) = AF_INET"
    "sin_port h (Inet_address_ip pton h g s p lo False) = host_to_net_16 h p"
    using len a assms(2) by (simp_all add: addr split: option.split)
  show "sin_addr (Inet_address_ip pton h g s p lo False) =
      (case pton AF_INET (c_str s) of None \<Rightarrow> [0, 0, 0, 0] | Some bs \<Rightarrow> bs)"
    using len a zero by (simp add: addr take_drop_4 split: option.split)
qed

lemma toIp_4:
  assumes "inet_texts ntop pton" and "sa_family h a = AF_INET" and "length (sin_addr a) = 4" and "16 \<le> sz"
  shows "toIp ntop h sz a = Inr (dotted (sin_addr a))"
  using assms length_dotted [of "sin_addr a"] by (simp add: toIp_def ntop_into_def inet_texts_def)

lemma dotted_address:
  assumes "inet_texts ntop pton" and "length g = 28" and "length bs = 4"
  shows "sa_family h (Inet_address_ip pton h g (dotted bs) p lo False) = AF_INET"
    and "sin_port h (Inet_address_ip pton h g (dotted bs) p lo False) = host_to_net_16 h p"
    and "sin_addr (Inet_address_ip pton h g (dotted bs) p lo False) = bs"
proof -
  have "pton AF_INET (dotted bs) = Some bs" using assms(1,3) by (simp add: inet_texts_def)
  with Inet_address_ip_fields [OF assms(1,2), of "dotted bs" h p lo] dotted_chars(2) [of bs]
  show "sa_family h (Inet_address_ip pton h g (dotted bs) p lo False) = AF_INET"
    "sin_port h (Inet_address_ip pton h g (dotted bs) p lo False) = host_to_net_16 h p"
    "sin_addr (Inet_address_ip pton h g (dotted bs) p lo False) = bs" by simp_all
qed

lemma other_text:
  assumes "inet_texts ntop pton" and "length g = 28" and "CHR '':'' \<notin> set (c_str s)"
    and "\<forall>bs. length bs = 4 \<longrightarrow> c_str s \<noteq> dotted bs"
  shows "Ip_to_string ntop h (Inet_address_ip pton h g s p lo False) = Inr ''0.0.0.0''"
proof -
  have "pton AF_INET (c_str s) = None"
    using assms(1,4) by (cases "pton AF_INET (c_str s)") (auto simp: inet_texts_def)
  with Inet_address_ip_fields [OF assms(1-3), of h p lo]
  have "sa_family h (Inet_address_ip pton h g s p lo False) = AF_INET"
    "sin_addr (Inet_address_ip pton h g s p lo False) = [0, 0, 0, 0]" by simp_all
  moreover have "dotted [0, 0, 0, 0] = ''0.0.0.0''" by (simp add: dotted_def dec.simps)
  ultimately show ?thesis using toIp_4 [OF assms(1)] by (simp add: Ip_to_string_def)
qed

text \<open>A text without a dot is no address.\<close>

lemma no_dot: "CHR ''.'' \<notin> set s \<Longrightarrow> s \<noteq> dotted bs"
  using dotted_chars(1) by metis

section \<open>The tests of Inet_address\<close>

definition htons :: "host \<Rightarrow> 16 word \<Rightarrow> 16 word" where
  "htons h x = of_mem h (rev (bytes_le 2 x))"

definition inet_addr :: "inet_pton \<Rightarrow> host \<Rightarrow> string \<Rightarrow> 32 word" where
  "inet_addr pton h s = (case pton AF_INET s of None \<Rightarrow> - 1 | Some bs \<Rightarrow> of_mem h bs)"

definition test_DefaultConstructor :: "host \<Rightarrow> byte list \<Rightarrow> bool" where
  "test_DefaultConstructor h g \<longleftrightarrow> (let addr = Inet_address_port h g 12345 False False in
     address_port h addr = 12345 \<and> sa_family h addr = AF_INET)"

definition test_LoopbackConstructor :: "inet_ntop \<Rightarrow> host \<Rightarrow> byte list \<Rightarrow> bool" where
  "test_LoopbackConstructor ntop h g \<longleftrightarrow> (let addr = Inet_address_port h g 12345 True False in
     Ip_to_string ntop h addr = Inr ''127.0.0.1'' \<and> address_port h addr = 12345)"

definition test_IPv6Constructor :: "host \<Rightarrow> byte list \<Rightarrow> bool" where
  "test_IPv6Constructor h g \<longleftrightarrow> (let addr = Inet_address_port h g 12345 False True in sa_family h addr = AF_INET6)"

definition test_IPPortConstructor :: "inet_ntop \<Rightarrow> inet_pton \<Rightarrow> host \<Rightarrow> byte list \<Rightarrow> bool" where
  "test_IPPortConstructor ntop pton h g \<longleftrightarrow> (let addr = Inet_address_ip pton h g ''192.168.1.1'' 8080 False False in
     Ip_to_string ntop h addr = Inr ''192.168.1.1'' \<and> address_port h addr = 8080)"

definition test_InvalidIPConstructor :: "inet_ntop \<Rightarrow> inet_pton \<Rightarrow> host \<Rightarrow> byte list \<Rightarrow> bool" where
  "test_InvalidIPConstructor ntop pton h g \<longleftrightarrow> (let addr = Inet_address_ip pton h g ''invalid_ip'' 8080 False False in
     Ip_to_string ntop h addr = Inr ''0.0.0.0'')"

definition test_PortNetEndian :: "inet_pton \<Rightarrow> host \<Rightarrow> byte list \<Rightarrow> bool" where
  "test_PortNetEndian pton h g \<longleftrightarrow> (let addr = Inet_address_ip pton h g ''192.168.1.1'' 8080 False False in
     portNetEndian h addr = htons h 8080)"

definition test_IPv4NetEndian :: "inet_pton \<Rightarrow> host \<Rightarrow> byte list \<Rightarrow> bool" where
  "test_IPv4NetEndian pton h g \<longleftrightarrow> (let addr = Inet_address_ip pton h g ''192.168.1.1'' 8080 False False in
     ipv4NetEndian h addr = Inr (inet_addr pton h ''192.168.1.1''))"

text \<open>\<open>found\<close> answers gethostbyname_r for "localhost".\<close>

definition test_ResolveFunction ::
  "inet_ntop \<Rightarrow> int \<times> (16 word \<times> nat \<times> byte list) option \<Rightarrow> host \<Rightarrow> byte list \<Rightarrow> bool" where
  "test_ResolveFunction ntop found h g \<longleftrightarrow> (let addr = Inet_address_port h g 12345 False False in
     case reslove found (Some addr) of
       Inr (ok, Some addr1) \<Rightarrow> ok \<and> Ip_to_string ntop h addr1 = Inr ''127.0.0.1''
     | _ \<Rightarrow> False)"

definition test_EdgeCaseZeroPort :: "inet_pton \<Rightarrow> host \<Rightarrow> byte list \<Rightarrow> bool" where
  "test_EdgeCaseZeroPort pton h g \<longleftrightarrow> (let addr = Inet_address_ip pton h g ''192.168.1.1'' 0 False False in
     address_port h addr = 0)"

definition test_EdgeCaseEmptyIP :: "inet_ntop \<Rightarrow> inet_pton \<Rightarrow> host \<Rightarrow> byte list \<Rightarrow> bool" where
  "test_EdgeCaseEmptyIP ntop pton h g \<longleftrightarrow> (let addr = Inet_address_ip pton h g [] 8080 False False in
     Ip_to_string ntop h addr = Inr ''0.0.0.0'')"

section \<open>The tests of utill\<close>

definition ntohl :: "host \<Rightarrow> 32 word \<Rightarrow> 32 word" where
  "ntohl h x = of_bytes_le (rev (mem h 4 x))"

definition test_GetPid :: "int \<Rightarrow> bool" where
  "test_GetPid getpid \<longleftrightarrow> GetPid getpid 0 = getpid"

definition test_GetThreadId :: "int \<Rightarrow> bool" where
  "test_GetThreadId gettid \<longleftrightarrow> GetThreadId gettid 0 = gettid"

text \<open>The clock, seconds and microseconds, before and after the sleep.\<close>

definition test_GetCurrentTime :: "64 word \<times> 64 word \<Rightarrow> 64 word \<times> 64 word \<Rightarrow> bool" where
  "test_GetCurrentTime t1 t2 \<longleftrightarrow>
     (let time1 = GetCurrentTime (fst t1) (snd t1); time2 = GetCurrentTime (fst t2) (snd t2) in time1 + 1000 \<le>s time2)"

definition test_GetInt32FromNetByte :: "host \<Rightarrow> bool" where
  "test_GetInt32FromNetByte h \<longleftrightarrow> (let original = 123456 in
     GetInt32FromNetByte h (mem h 4 (original :: 32 word)) = ntohl h original)"

definition test_GetInt32FromNetByteEdgeCases :: "host \<Rightarrow> bool" where
  "test_GetInt32FromNetByteEdgeCases h \<longleftrightarrow>
     (let minValue = 0x80000000 :: 32 word; maxValue = 0x7FFFFFFF; zeroValue = 0 in
      GetInt32FromNetByte h (mem h 4 minValue) = ntohl h minValue \<and>
      GetInt32FromNetByte h (mem h 4 maxValue) = ntohl h maxValue \<and>
      GetInt32FromNetByte h (mem h 4 zeroValue) = ntohl h zeroValue)"

lemma port_constructor:
  assumes "length g = 28"
  shows "sa_family h (Inet_address_port h g p lo False) = AF_INET"
    and "address_port h (Inet_address_port h g p lo False) = p"
    and "sin_addr (Inet_address_port h g p True False) = [127, 0, 0, 1]"
    and "sa_family h (Inet_address_port h g p lo True) = AF_INET6"
proof -
  have "bytes_le 4 (KInaddrLoopbacl) = [1, 0, 0, 127]"
    by (simp add: KInaddrLoopbacl_def bytes_le_numeral drop_bit_eq_div)
  with assms show "sin_addr (Inet_address_port h g p True False) = [127, 0, 0, 1]"
    by (simp add: Inet_address_port_def Let_def take_drop_4 mem_host_to_net_32)
qed (use assms in \<open>simp_all add: Inet_address_port_def Let_def address_port_def portNetEndian_def in6addr_loopback_def
    in6addr_any_def\<close>)

lemma resolved:
  assumes "inet_texts ntop pton" and "length a = 28" and "sa_family h a = AF_INET"
  shows "reslove (0, Some (AF_INET, 4, [127, 0, 0, 1])) (Some a) = Inr (True, Some (splice 4 [127, 0, 0, 1] a))"
    and "Ip_to_string ntop h (splice 4 [127, 0, 0, 1] a) = Inr (dotted [127, 0, 0, 1])"
  using assms toIp_4 [OF assms(1), of h "splice 4 [127, 0, 0, 1] a" 64] by (simp_all add: reslove_def Ip_to_string_def take_drop_4)

lemma length_Inet_address_port: "length g = 28 \<Longrightarrow> length (Inet_address_port h g p lo v6) = 28"
  by (simp add: Inet_address_port_def Let_def in6addr_loopback_def in6addr_any_def)

lemma htons: "htons h x = host_to_net_16 h x"
  using mem_host_to_net_16 [of h x] of_mem_mem [of 2 h "host_to_net_16 h x"] by (simp add: htons_def)

lemma ntohl: "GetInt32FromNetByte h (mem h 4 x) = ntohl h x"
proof -
  have "GetInt32FromNetByte h (mem h 4 x) = net_to_host_32 h x" by (simp add: GetInt32FromNetByte_def of_mem_mem)
  then show ?thesis
    by (cases h) (simp_all add: net_to_host_32_def htobe_def bswap_def ntohl_def mem_def of_bytes_le_bytes_le)
qed

lemma test_texts:
  "dotted [192, 168, 1, 1] = ''192.168.1.1''" "dotted [127, 0, 0, 1] = ''127.0.0.1''"
  by (simp_all add: dotted_def dec.simps)

lemma port_tests:
  assumes "inet_texts ntop pton" and "length g = 28"
  shows "test_DefaultConstructor h g" and "test_LoopbackConstructor ntop h g" and "test_IPv6Constructor h g"
    and "test_ResolveFunction ntop (0, Some (AF_INET, 4, [127, 0, 0, 1])) h g"
proof -
  note port = port_constructor [OF assms(2)]
  show "test_DefaultConstructor h g" "test_IPv6Constructor h g"
    by (simp_all add: test_DefaultConstructor_def test_IPv6Constructor_def port)
  show "test_LoopbackConstructor ntop h g"
    using toIp_4 [OF assms(1) port(1) [of h 12345 True], of 64]
    by (simp add: test_LoopbackConstructor_def Ip_to_string_def port test_texts)
  note found = resolved [OF assms(1) length_Inet_address_port [OF assms(2)] port(1) [of h 12345 False]]
  show "test_ResolveFunction ntop (0, Some (AF_INET, 4, [127, 0, 0, 1])) h g"
    by (simp add: test_ResolveFunction_def Let_def found test_texts)
qed

lemma text_tests:
  assumes "inet_texts ntop pton" and "length g = 28"
  shows "test_IPPortConstructor ntop pton h g" and "test_PortNetEndian pton h g" and "test_IPv4NetEndian pton h g"
    and "test_EdgeCaseZeroPort pton h g" and "test_InvalidIPConstructor ntop pton h g" and "test_EdgeCaseEmptyIP ntop pton h g"
proof -
  note a = dotted_address [OF assms, of "[192, 168, 1, 1]", unfolded test_texts, simplified]
  have "pton AF_INET ''192.168.1.1'' = Some [192, 168, 1, 1]"
    using assms(1) test_texts(1) by (simp add: inet_texts_def flip: test_texts(1))
  then show "test_IPv4NetEndian pton h g"
    using a by (simp add: test_IPv4NetEndian_def ipv4NetEndian_def inet_addr_def s_addr_def sin_addr_def)
  show "test_IPPortConstructor ntop pton h g"
    using toIp_4 [OF assms(1) a(1)]
    by (simp add: test_IPPortConstructor_def Ip_to_string_def address_port_def portNetEndian_def a test_texts)
  show "test_PortNetEndian pton h g" "test_EdgeCaseZeroPort pton h g"
    by (simp_all add: test_PortNetEndian_def test_EdgeCaseZeroPort_def address_port_def portNetEndian_def a htons)
  have "c_str ''invalid_ip'' = ''invalid_ip''" "c_str [] = []" by (simp_all add: c_str_def)
  with other_text [OF assms, of "''invalid_ip''"] other_text [OF assms, of "[]"] no_dot [of "''invalid_ip''"] no_dot [of "[]"]
  show "test_InvalidIPConstructor ntop pton h g" "test_EdgeCaseEmptyIP ntop pton h g"
    by (simp_all add: test_InvalidIPConstructor_def test_EdgeCaseEmptyIP_def)
qed

lemma clock_test:
  assumes "sint s1 = sec1" and "sint u1 = usec1" and "sint s2 = sec2" and "sint u2 = usec2"
    and "0 \<le> usec1" and "usec1 < 1000000" and "0 \<le> usec2" and "usec2 < 1000000"
    and "0 \<le> sec1" and "sec2 < 2 ^ 53" and "sec1 * 1000000 + usec1 + 1000000 \<le> sec2 * 1000000 + usec2"
  shows "test_GetCurrentTime (s1, u1) (s2, u2)"
proof -
  have sec: "0 \<le> sec2" "sec1 < 2 ^ 53" using assms by linarith+
  let ?t1 = "sec1 * 1000 + usec1 div 1000"
  have t1: "sint (GetCurrentTime s1 u1) = ?t1" and t2: "sint (GetCurrentTime s2 u2) = sec2 * 1000 + usec2 div 1000"
    using GetCurrentTime_ms [OF assms(1,2,5,6,9) sec(2)] GetCurrentTime_ms [OF assms(3,4,7,8) sec(1) assms(10)] by simp_all
  have "GetCurrentTime s1 u1 + 1000 = of_int (sint (GetCurrentTime s1 u1) + 1000)" by simp
  then have "GetCurrentTime s1 u1 + 1000 = of_int (?t1 + 1000)" by (simp only: t1)
  moreover have "0 \<le> ?t1 + 1000" "?t1 + 1000 < 2 ^ 63" using assms(5,6,9) sec(2) by auto
  ultimately have "sint (GetCurrentTime s1 u1 + 1000) = ?t1 + 1000" by (simp only: sint_small)
  moreover have "?t1 + 1000 \<le> sec2 * 1000 + usec2 div 1000" using assms(11) by linarith
  ultimately show ?thesis using t2 by (simp add: test_GetCurrentTime_def word_sle_eq)
qed

section \<open>Properties\<close>



text \<open>C40: All active unit tests of the repository pass: the ten of Inet_address, on every host and
  whatever memory the constructors find, if "localhost" resolves to 127.0.0.1; and the five of utill,
  if the clock moves on by at least a second during the sleep.\<close>

theorem unit_tests_pass:
  assumes "inet_texts ntop pton" and "length g = 28"
    and "sint s1 = sec1" and "sint u1 = usec1" and "sint s2 = sec2" and "sint u2 = usec2"
    and "0 \<le> usec1" and "usec1 < 1000000" and "0 \<le> usec2" and "usec2 < 1000000"
    and "0 \<le> sec1" and "sec2 < 2 ^ 53" and "sec1 * 1000000 + usec1 + 1000000 \<le> sec2 * 1000000 + usec2"
  shows "test_DefaultConstructor h g \<and> test_LoopbackConstructor ntop h g \<and> test_IPv6Constructor h g \<and>
    test_IPPortConstructor ntop pton h g \<and> test_InvalidIPConstructor ntop pton h g \<and> test_PortNetEndian pton h g \<and>
    test_IPv4NetEndian pton h g \<and> test_ResolveFunction ntop (0, Some (AF_INET, 4, [127, 0, 0, 1])) h g \<and>
    test_EdgeCaseZeroPort pton h g \<and> test_EdgeCaseEmptyIP ntop pton h g \<and>
    test_GetPid pid \<and> test_GetThreadId tid \<and> test_GetCurrentTime (s1, u1) (s2, u2) \<and>
    test_GetInt32FromNetByte h \<and> test_GetInt32FromNetByteEdgeCases h"
  using port_tests [OF assms(1,2), of h] text_tests [OF assms(1,2), of h] clock_test [OF assms(3-13)]
  by (simp add: test_GetPid_def GetPid_def test_GetThreadId_def GetThreadId_def test_GetInt32FromNetByte_def
      test_GetInt32FromNetByteEdgeCases_def ntohl Let_def)

lemma unit_tests_pass_witness:
  "test_IPPortConstructor dotted_ntop dotted_pton BigEndianHost (replicate 28 9) \<and>
   test_EdgeCaseEmptyIP dotted_ntop dotted_pton BigEndianHost (replicate 28 9) \<and>
   test_GetCurrentTime (1700000000, 999999) (1700000002, 17)"
proof -
  have "sint (1700000000 :: 64 word) = 1700000000" "sint (999999 :: 64 word) = 999999"
    "sint (1700000002 :: 64 word) = 1700000002" "sint (17 :: 64 word) = 17" by simp_all
  with unit_tests_pass [OF dotted_texts, of "replicate 28 9" 1700000000 1700000000 999999 999999 1700000002 1700000002 17 17
      BigEndianHost 1 1]
  show ?thesis by simp
qed

end
