(* ===== verification/Spec2Isabelle.thy ===== *)
theory Spec2Isabelle
  imports LoopTurns Poller ThreadPool TcpConnection ConnectionStates ConnectionEvents StreamDelivery TcpClient
    AcceptPath CloseRaces ServerSystem ClientPath FrameStream RpcChannel SegTree UnitTests
begin

text \<open>
  A verification library for the network library (directory network), the RPC framework on top of it
  (directory rpto_rpc) and the lazy segment tree (tiredtree.cc) of this repository.

  \<^bold>\<open>The program.\<close> An EventLoop waits for events on Channels through a Poller and runs functors that other
  threads queue for it. An Acceptor listens on a channel; a TcpServer turns what it accepts into
  TcpConnections, which it spreads over the loops of an EventLoopThreadPool; a TcpClient owns one
  connection, made by a Connector. A TcpConnection reads from its socket into one Buffer and writes
  from another. ProtoRpcCodec frames RpcMessages in such buffers and RpcChannel makes calls with them.

  \<^bold>\<open>Theories.\<close>
  \<^item> Prelude: results and errors, the locales \<open>machine\<close> (operations keep an invariant) and
    \<open>simulation\<close> (operations refine an abstract specification), size_t. Text: C strings and snprintf.
  \<^item> Endian and Buffer: Endian.h, Buffer.h, Buffer.cc. The locale \<open>byte_stream\<close> states what
    a client of a buffer relies on.
  \<^item> EventLoop: EventLoop.h, EventLoop.cc without constructor and destructor; these two
    need channels and are in Channel, with Channel.h and Channel.cc. LoopTurns: the turns of a loop.
  \<^item> Poller: Poller.h, Poller.cc. ThreadPool: EventLoopThread and EventLoopThreadPool.
  \<^item> SocketOps: SocketOps.h, SocketOps.cc, Inet_address.h, Inet_address.cc. Socket: Socket.h,
    Socket.cc, utill.h, utill.cc.
  \<^item> TcpConnection: TcpConnection.h, TcpConnection.cc. ConnectionStates: the order of its states.
    ConnectionEvents: a connection under the events of its channel and the calls of its user.
    StreamDelivery: two connections as a stream.
  \<^item> Acceptor: Acceptor.h, Accepto.cc. TcpServer, Connector, TcpClient: the files of the same names.
  \<^item> AcceptPath: incoming connections, through Acceptor and TcpServer. Teardown: the
    end of a connection, through TcpConnection and TcpServer. ServerLife: a server and the
    descriptor of its listener. ServerSystem: a server with all its connections and the functors of
    all its loops. CloseRaces: operations that cross a close. ClientPath: the connection of a client, from the connector's channel
    through TcpClient to TcpConnection and back.
  \<^item> RpcMessage: the message class of rpc.pb.h and rpc.pb.cc. Codec: Rpc.Codec.h, Rpc.Codec.cc.
    FrameStream: the codec on a stream cut into reads. RpcChannel: Rpc.Channel.h, Rpc.Channel.cc.
  \<^item> SegTree: tiredtree.cc. UnitTests: the active unit tests of Test_Inet_address.cc and
    Test_utill.cc, and the text of IPv4 addresses. This theory: a request from the caller's channel to the peer's.

  \<^bold>\<open>How code is modelled.\<close> An object is a record of its data members, an operation a function from
  the old to the new state with the result; it carries the name of the C++ function, prefixed by the class
  where two classes share it. A failing \<open>assert\<close>, \<open>LOG(FATAL)\<close>, an access out of range, a null pointer and
  an exception are values of type \<open>error\<close> in the left half of \<open>res\<close>. size_t is a 64-bit word and
  wraps; masks and protobuf integers are words; int counters are \<open>int\<close>, with the range as a
  hypothesis or a guard where it matters. Threads are interleaved steps: the relations \<open>sched_step\<close>
  (a loop and those who queue for it), \<open>elt_step\<close> (a pool thread and its owner) and \<open>sys_reach\<close> (the
  loops of a server, its arrivals, and the events and users of its connections). Between two such steps of a
  server one functor runs, one arrival or one event is handled, or one call is made, as a whole.

  \<^bold>\<open>Reading code that does not compile.\<close> Several files contain slips that a compiler rejects: misspelt or
  missing declarations, a parameter used under another name, a pointer initialised as an object. They are
  read in the only sensible way, and each theory says so for its files. What would compile is taken
  literally, also where it looks unintended: the inverted thread check, the poll that is commented out
  of the loop, \<open>EPOLLPRI\<close> as the write event, the inverted comparison of the tag.

  \<^bold>\<open>What is assumed of other code.\<close> System and library calls are arguments. Named hypotheses state what is
  relied on: \<open>epoll_contract\<close> (a call of epoll_ctl on a descriptor in the right state succeeds and
  updates the interest list),
  \<open>write_contract\<close> (write takes at most what it is given), \<open>ntop_contract\<close> and \<open>pton_contract\<close> (the
  lengths of address texts and addresses), \<open>wire_ok\<close> (varints of the protobuf runtime can be read back),
  \<open>inet_texts\<close> (IPv4 addresses have the dotted decimal text and no other),
  \<open>cbs_keep\<close>, \<open>quiet\<close>, \<open>leaves_output\<close> and \<open>gentle\<close> (what user callbacks leave alone), \<open>world_ok\<close> (the loops of a
  server are those of other threads, as the inverted check demands, and its callbacks return). In
  ServerSystem the functor of \<open>connectDestroyed\<close> holds the last reference to its connection. Every theorem with such a hypothesis is
  followed by a witness with a concrete function, such as base-128 varints.

  \<^bold>\<open>What the theorems show.\<close>
  \<^item> Streams: a Buffer is a queue of bytes, a connection delivers what it accepts in order and without
    loss, and it shuts its write side only after the last byte. Two connections together are a reliable
    stream. \<open>sendInLoop\<close>, \<open>readFd\<close> and the
    overlapping copy of \<open>makespace\<close> are given by their effect on these streams.
  \<^item> Loops: functors run once each in the order queued, none is left behind by a sleeping loop; which
    callbacks an event runs, and in which order; which descriptors the kernel watches.
  \<^item> Life cycles: the states of a connection and the callbacks the user hears, the registry of a
    server, the threads of the pool and their destruction, the descriptors of a connector.
    Whatever order the loops of a server run in, no functor of a connection fails, each connection hears UP, DOWN
    and the close callback in turn, and exactly one functor is on its way while it is coming or going.
    A client hands each descriptor to one connection and lets go of it when the peer closes; the
    end of a server closes the descriptor it listens on.
  \<^item> Messages: RpcMessages survive serialization; the codec writes the frame it should and hands out
    every frame it lets pass. It implements a decoder of byte lists, and how the network cuts the
    stream into reads makes no difference; calls have distinct ids.
  \<^item> Addresses: ports and IPv4 texts survive; the active unit tests hold on the model.
  \<^item> The segment tree answers as a plain array does.
  \<^item> Where the code falls short of its purpose, a theorem says what it does instead: no frame of the codec
    is accepted by the codec (so no request arrives), one refused frame silences a
    connection for good, no connection is served on the descriptor
    accepted for it, \<open>forceClose\<close> closes nothing, no channel learns that it can write, so that what
    a connection could not send at once stays in its buffer, a loop aborts in
    its own thread, a \<open>startRead\<close> that crosses a close, a hang-up with urgent data and the end of a server
    with half-closed connections fail an assert, the round robin of the pool leaves the list and the server with it.

  \<^bold>\<open>Termination, bounds and fuel.\<close> \<open>onMessage\<close> loops while a frame is complete; its fuel argument counts rounds,
  each round that continues consumes at least eight bytes, and one more than the readable bytes is proved to be enough.
  \<open>feed\<close> gives every read the same fuel; more than the bytes of the whole stream is enough. The
  decoder it is compared with, \<open>decode\<close>, recurses on the bytes left and is total.
  The field loop of the message parser has the length of the input plus one as fuel, and the round
  trip shows it is enough. The recursions of SegTree and the loop of EventLoop are partial functions: not
  returning is \<open>None\<close>, and the theorems prove \<open>Some\<close>. The segment tree is for any number of elements, with four
  times as many nodes as the source declares them; a Buffer that would outgrow
  \<open>vector_max_size\<close> throws.

  \<^bold>\<open>Not modelled.\<close> Logging; arenas, reflection and descriptors of the generated message class; object
  lifetime (\<open>shared_from_this\<close>) and \<open>boost::any\<close> contexts; functions that are declared and never defined
  (\<open>forceCloseWithDelay\<close>, \<open>Poller::hasChannel\<close>, \<open>handle_request_msg\<close>, \<open>handle_response_msg\<close>,
  \<open>doneCallback\<close>: the last three are arguments where they are called); Test_Buffer.cc, which is
  empty, and tests that are commented out; the
  demonstrations and the files written by CMake, which are not part of the program.
\<close>

section \<open>A request on its way\<close>

text \<open>
  The receiving side of an RPC connection: RpcChannel::onMessage is the message callback, so
  every message of the codec goes to onRpcMessage.
\<close>

definition receive ::
  "adler \<Rightarrow> wire \<Rightarrow> host \<Rightarrow> (rpc_message \<Rightarrow> rpc_channel \<Rightarrow> rpc_channel res) \<Rightarrow>
   (rpc_message \<Rightarrow> rpc_channel \<Rightarrow> rpc_channel res) \<Rightarrow> ptr option \<Rightarrow> nat \<Rightarrow> byte list list \<Rightarrow>
   buffer \<times> rpc_channel \<Rightarrow> (buffer \<times> rpc_channel) res option" where
  "receive adler W h hres hreq conn = feed adler W h (onRpcMessage hres hreq conn)"

lemma receive_own_frame:
  assumes "length p + 8 \<le> 64 * 1024 * 1024" and "reads_ok b chunks"
    and "frame adler p = content b @ concat chunks" and "length (frame adler p) < n"
  shows "\<exists>b'. receive adler W h hres hreq conn n chunks (b, ch) = Some (Inr (b', ch)) \<and>
    content b' = frame adler p"
  unfolding receive_def assms(3)
  by (rule rejected_feed)
    (use assms own_frame_rejected [OF assms(1), of adler W h "[]"] in simp_all)

text \<open>C10: No RPC request ever arrives: calling a method on a channel whose connection is up
  queues exactly one frame for the connection, and however the network splits the bytes
  of that frame into reads, the peer's channel handles none of it: whatever its handlers do,
  no handler runs, the channel is unchanged, and the frame stays in its input buffer.\<close>

theorem rpc_request_never_arrives:
  assumes "wire_ok W" and "call_ok W buf0 (rpc_id ch + 1) call" and "rpc_conn ch = Some p"
    and "conn_state conn = TcpConnection.KConnected" and "threadPid conn \<noteq> tid"
    and "fr = frame adler (InternalSerialize W (request_message (rpc_id ch + 1) call))"
    and "length fr \<le> 64 * 1024 * 1024"
    and "reads_ok b chunks" and "content b = []" and "concat chunks = fr" and "length fr < n"
  shows "(\<exists>conn' ch'. CallMethod tid cbs wr adler W h buf0 call (conn, ch) = Inr (conn', ch') \<and>
      pendingFunctors conn' = pendingFunctors conn @ [TSend fr]) \<and>
    (\<exists>b'. receive adler W h' hres hreq peer_conn n chunks (b, peer) = Some (Inr (b', peer)) \<and>
      content b' = fr)"
proof -
  let ?p = "InternalSerialize W (request_message (rpc_id ch + 1) call)"
  have "length fr = length ?p + 12" unfolding assms(6) by (simp add: frame_def)
  then have "length ?p + 8 \<le> 64 * 1024 * 1024" using assms(7) by simp
  from receive_own_frame [OF this assms(8), of adler n W h' hres hreq peer_conn peer] assms(6,9-11)
  have "\<exists>b'. receive adler W h' hres hreq peer_conn n chunks (b, peer) = Some (Inr (b', peer)) \<and>
      content b' = fr" by simp
  moreover have "\<exists>conn' ch'. CallMethod tid cbs wr adler W h buf0 call (conn, ch) = Inr (conn', ch') \<and>
      pendingFunctors conn' = pendingFunctors conn @ [TSend fr]"
    unfolding CallMethod_eq [OF assms(1-3)] using assms(4-6)
    by (simp add: Let_def queueInLoop_def wakeup_def)
  ultimately show ?thesis by blast
qed

lemma rpc_request_never_arrives_witness:
  "\<exists>fr b'. receive (\<lambda>s bs. s) leb128 LittleEndianHost (\<lambda>m ch. Inl NullDeref) (\<lambda>m ch. Inl NullDeref) None 40
     [take 3 fr, drop 3 fr] (sample_buffer, RpcChannel_ctor 0) = Some (Inr (b', RpcChannel_ctor 0)) \<and> 12 \<le> length fr"
proof -
  let ?conn = "sample_connection\<lparr>conn_state := TcpConnection.KConnected\<rparr>" and ?ch = "RpcChannel_ctor_conn 0 (Some 5)"
  let ?fr = "frame (\<lambda>s bs. s) (InternalSerialize leb128 (request_message (rpc_id ?ch + 1) sample_call))"
  let ?reads = "[take 3 ?fr, drop 3 ?fr]"
  have one: "rpc_id ?ch + 1 = 1" by (simp add: RpcChannel_ctor_conn_def)
  have ok: "call_ok leb128 sample_buffer (rpc_id ?ch + 1) sample_call"
    unfolding one by (rule sample_call_ok) simp_all
  have "length (InternalSerialize leb128 (request_message 1 sample_call)) < 20"
    using leb128_small_id [of 1] length_InternalSerialize [OF leb128_ok, of "request_message 1 sample_call"] ok one
    by (simp add: call_ok_def)
  then have len: "length ?fr < 32" "12 \<le> length ?fr" unfolding one by (simp_all add: frame_def)
  have conn: "conn_state ?conn = TcpConnection.KConnected" "threadPid ?conn \<noteq> 8" "rpc_conn ?ch = Some 5"
    by (simp_all add: sample_connection_def sample_event_loop_def event_loop.defs RpcChannel_ctor_conn_def)
  have bounds: "length ?fr \<le> 64 * 1024 * 1024" "length ?fr < 40" using len(1) by simp_all
  have all: "concat ?reads = ?fr" by simp
  have "?fr \<noteq> []" "\<not> length ?fr \<le> 3" using len(2) by auto
  then have reads: "reads_ok sample_buffer ?reads"
    using len(1) by (intro sample_reads_ok) simp_all
  from rpc_request_never_arrives [OF leb128_ok ok conn(3,1,2) refl bounds(1) reads sample_buffer_content all bounds(2)]
  show ?thesis using len(2) by blast
qed

end
